(* ===== verification/Prelude.thy ===== *)
theory Prelude
  imports Main "HOL-Library.Multiset" "HOL-Library.State_Monad"
begin

text \<open>
  Shared ground of the development.

  \<^item> Go's instants and durations as integers counting nanoseconds, and the saturating
    subtraction of \<open>time.Time.Sub\<close>.
  \<^item> Go's error values as one datatype with the text their \<open>Error\<close> method gives.
  \<^item> The effect of a call to an outside system (Postgres, Kafka): \<open>outcome\<close> and \<open>exec\<close>.
  \<^item> A small Hoare logic for programs in the state monad (\<open>valid\<close>, \<open>keeps\<close>), whose
    rules are collected in \<open>hoare\<close>.
  \<^item> SQL's \<open>UPDATE ... WHERE\<close> as a function on the list of a table's rows, with
    the facts about it that the store theories share (collection \<open>sql\<close>).
\<close>

section \<open>Collections of facts\<close>

named_theorems hoare \<open>rules of the Hoare logic for the state monad\<close>
named_theorems sql \<open>simplification rules for table updates\<close>
named_theorems row_defs \<open>definitions of the row updates of the stores\<close>

section \<open>Time\<close>

text \<open>
  A Go \<open>time.Time\<close> is the number of nanoseconds since the Unix epoch, and a
  \<open>time.Duration\<close> a signed number of nanoseconds (an \<open>int64\<close> in Go).
\<close>

type_synonym time = int
type_synonym duration = int

abbreviation Microsecond :: duration where "Microsecond \<equiv> 1000"
abbreviation Millisecond :: duration where "Millisecond \<equiv> 1000000"
abbreviation Second :: duration where "Second \<equiv> 1000000000"
abbreviation Minute :: duration where "Minute \<equiv> 60000000000"

text \<open>The zero \<open>time.Time\<close> is January 1 of year 1, UTC.\<close>

definition zero_time :: time where
  "zero_time = -62135596800 * Second"

text \<open>\<open>t.Sub(u)\<close>, and with it \<open>time.Since\<close>, saturates at the ends of \<open>int64\<close>.\<close>

definition time_sub :: "time \<Rightarrow> time \<Rightarrow> duration" where
  "time_sub t u = max (- (2 ^ 63)) (min (2 ^ 63 - 1) (t - u))"

section \<open>Errors\<close>

text \<open>
  The error values the program creates, compares or passes on. \<open>errorString\<close> stands for
  every error of which only the text is observed (drivers, \<open>errors.New\<close>,
  \<open>fmt.Errorf\<close>); the sentinels are the ones some branch compares with.
\<close>

datatype go_error =
    errorString string
  | ErrNoRows
  | ErrNotFound
  | Canceled
  | DeadlineExceeded
  | EOF
  | ErrUnexpectedEOF
  | ValidationError string
  | taggedErr string go_error

primrec Error :: "go_error \<Rightarrow> string" where
  "Error (errorString s) = s"
| "Error ErrNoRows = ''sql: no rows in result set''"
| "Error ErrNotFound = ''ticket not found''"
| "Error Canceled = ''context canceled''"
| "Error DeadlineExceeded = ''context deadline exceeded''"
| "Error EOF = ''EOF''"
| "Error ErrUnexpectedEOF = ''unexpected EOF''"
| "Error (ValidationError s) = s"
| "Error (taggedErr tag err) = tag @ '': '' @ Error err"

text \<open>\<open>errors.Is\<close> for a sentinel: the error itself or one it wraps.\<close>

fun errors_Is :: "go_error \<Rightarrow> go_error \<Rightarrow> bool" where
  "errors_Is (taggedErr tag e) target = (taggedErr tag e = target \<or> errors_Is e target)"
| "errors_Is e target = (e = target)"

section \<open>Calls to the outside\<close>

text \<open>
  A call to Postgres or Kafka ends in one of three ways: it takes effect and reports
  success; it is refused and has no effect; or it takes effect and the caller is told that
  it failed (the reply is lost, or the context ends while the server goes on). The caller
  cannot tell the last two apart.
\<close>

datatype outcome = Success | Refused go_error | Lost go_error

fun exec :: "outcome \<Rightarrow> 's \<Rightarrow> go_error + 'r \<times> 's \<Rightarrow> (go_error + 'r) \<times> 's" where
  "exec Success s (Inl e) = (Inl e, s)"
| "exec Success s (Inr (r, s')) = (Inr r, s')"
| "exec (Refused err) s _ = (Inl err, s)"
| "exec (Lost err) s (Inl _) = (Inl err, s)"
| "exec (Lost err) s (Inr (r, s')) = (Inl err, s')"

lemma exec_state_cases:
  "snd (exec oc s stmt) = s \<or> (\<exists>r. stmt = Inr (r, snd (exec oc s stmt)))"
  by (cases "(oc, s, stmt)" rule: exec.cases) auto

lemma exec_Inr:
  "exec oc s stmt = (Inr r, s') \<longleftrightarrow> oc = Success \<and> stmt = Inr (r, s')"
  by (cases "(oc, s, stmt)" rule: exec.cases) auto

lemma exec_keeps:
  assumes "I s" and "\<And>r s'. stmt = Inr (r, s') \<Longrightarrow> I s'"
  shows "I (snd (exec oc s stmt))"
  using exec_state_cases [of oc s stmt] assms by auto

section \<open>Programs as state transformers\<close>

abbreviation return :: "'a \<Rightarrow> ('s, 'a) state" where
  "return \<equiv> State_Monad.return"

definition gets :: "('s \<Rightarrow> 'a) \<Rightarrow> ('s, 'a) state" where
  "gets f = State (\<lambda>s. (f s, s))"

definition modify :: "('s \<Rightarrow> 's) \<Rightarrow> ('s, unit) state" where
  "modify f = State (\<lambda>s. ((), f s))"

lemma run_state_gets [simp]: "run_state (gets f) s = (f s, s)"
  by (simp add: gets_def)

lemma run_state_modify [simp]: "run_state (modify f) s = ((), f s)"
  by (simp add: modify_def)

definition valid :: "('s \<Rightarrow> bool) \<Rightarrow> ('s, 'a) state \<Rightarrow> ('a \<Rightarrow> 's \<Rightarrow> bool) \<Rightarrow> bool" where
  "valid P m Q \<longleftrightarrow> (\<forall>s. P s \<longrightarrow> (case run_state m s of (a, s') \<Rightarrow> Q a s'))"

abbreviation keeps :: "('s \<Rightarrow> bool) \<Rightarrow> ('s, 'a) state \<Rightarrow> bool" where
  "keeps I m \<equiv> valid I m (\<lambda>_. I)"

lemma validI: "(\<And>s a s'. P s \<Longrightarrow> run_state m s = (a, s') \<Longrightarrow> Q a s') \<Longrightarrow> valid P m Q"
  by (auto simp: valid_def split: prod.splits)

lemma validD: "valid P m Q \<Longrightarrow> P s \<Longrightarrow> run_state m s = (a, s') \<Longrightarrow> Q a s'"
  by (fastforce simp: valid_def)

lemma valid_snd: "valid P m (\<lambda>_. Q) \<Longrightarrow> P s \<Longrightarrow> Q (snd (run_state m s))"
  by (auto simp: valid_def case_prod_unfold)

lemma valid_weaken:
  "valid P m Q \<Longrightarrow> (\<And>s. P' s \<Longrightarrow> P s) \<Longrightarrow> (\<And>a s. Q a s \<Longrightarrow> Q' a s) \<Longrightarrow> valid P' m Q'"
  by (auto simp: valid_def case_prod_unfold)

lemma valid_assume: "(B \<Longrightarrow> valid P m Q) \<Longrightarrow> valid (\<lambda>s. P s \<and> B) m Q"
  by (auto simp: valid_def)

lemma valid_pre: "valid P m Q \<Longrightarrow> (\<And>s. P' s \<Longrightarrow> P s) \<Longrightarrow> valid P' m Q"
  by (auto simp: valid_def)

lemma valid_conj:
  "valid P m Q \<Longrightarrow> valid P' m Q' \<Longrightarrow> valid (\<lambda>s. P s \<and> P' s) m (\<lambda>a s. Q a s \<and> Q' a s)"
  by (auto simp: valid_def case_prod_unfold)

lemma valid_return [hoare]: "(\<And>s. P s \<Longrightarrow> Q x s) \<Longrightarrow> valid P (return x) Q"
  by (simp add: valid_def)

lemma valid_bind [hoare]:
  "valid P m R \<Longrightarrow> (\<And>a. valid (R a) (f a) Q) \<Longrightarrow> valid P (State_Monad.bind m f) Q"
  by (auto simp: valid_def case_prod_unfold)

lemma valid_gets: "(\<And>s. P s \<Longrightarrow> Q (f s) s) \<Longrightarrow> valid P (gets f) Q"
  by (simp add: valid_def)

lemma valid_modify: "(\<And>s. P s \<Longrightarrow> Q () (f s)) \<Longrightarrow> valid P (modify f) Q"
  by (simp add: valid_def)

lemma valid_if [hoare]:
  "(b \<Longrightarrow> valid P m Q) \<Longrightarrow> (\<not> b \<Longrightarrow> valid P n Q) \<Longrightarrow> valid P (if b then m else n) Q"
  by simp

lemma valid_case_sum [hoare]:
  "(\<And>e. x = Inl e \<Longrightarrow> valid P (f e) Q) \<Longrightarrow> (\<And>v. x = Inr v \<Longrightarrow> valid P (g v) Q) \<Longrightarrow>
   valid P (case_sum f g x) Q"
  by (cases x) auto

lemma valid_case_option [hoare]:
  "(x = None \<Longrightarrow> valid P m Q) \<Longrightarrow> (\<And>v. x = Some v \<Longrightarrow> valid P (g v) Q) \<Longrightarrow>
   valid P (case_option m g x) Q"
  by (cases x) auto

lemma valid_case_prod [hoare]:
  "(\<And>u v. x = (u, v) \<Longrightarrow> valid P (f u v) Q) \<Longrightarrow> valid P (case_prod f x) Q"
  by (cases x) auto

section \<open>Tables\<close>

text \<open>
  A table is the list of its rows in the order they lie on disk.
  \<open>UPDATE t SET ... WHERE ...\<close> rewrites every row that satisfies the condition.
\<close>

definition sql_update :: "('r \<Rightarrow> bool) \<Rightarrow> ('r \<Rightarrow> 'r) \<Rightarrow> 'r list \<Rightarrow> 'r list" where
  "sql_update cond upd = map (\<lambda>r. if cond r then upd r else r)"

lemma length_sql_update [sql]: "length (sql_update c u rs) = length rs"
  by (simp add: sql_update_def)

lemma set_sql_update [sql]:
  "set (sql_update c u rs) = u ` {r \<in> set rs. c r} \<union> {r \<in> set rs. \<not> c r}"
  by (auto simp: sql_update_def)

lemma map_sql_update_id [sql]:
  "(\<And>r. c r \<Longrightarrow> k (u r) = k r) \<Longrightarrow> map k (sql_update c u rs) = map k rs"
  by (simp add: sql_update_def)

lemma sql_update_append [sql]:
  "sql_update c u (rs @ rs') = sql_update c u rs @ sql_update c u rs'"
  by (simp add: sql_update_def)

lemma sql_update_none:
  "(\<And>r. r \<in> set rs \<Longrightarrow> \<not> c r) \<Longrightarrow> sql_update c u rs = rs"
  by (induction rs) (auto simp: sql_update_def)

lemma sql_update_in:
  "r \<in> set rs \<Longrightarrow> (if c r then u r else r) \<in> set (sql_update c u rs)"
  by (auto simp: sql_update_def)

lemma Ball_sql_update [sql]:
  "(\<forall>r\<in>set (sql_update c u rs). P r) \<longleftrightarrow> (\<forall>r\<in>set rs. P (if c r then u r else r))"
  by (auto simp: sql_update_def)

lemma filter_sql_update:
  "(\<And>r. c r \<Longrightarrow> \<not> P r) \<Longrightarrow> (\<And>r. c r \<Longrightarrow> \<not> P (u r)) \<Longrightarrow> filter P (sql_update c u rs) = filter P rs"
  by (induction rs) (auto simp: sql_update_def)

text \<open>Rows are told apart by a key: with distinct keys, a key determines its row.\<close>

lemma distinct_key_eq:
  "distinct (map k rs) \<Longrightarrow> r \<in> set rs \<Longrightarrow> r' \<in> set rs \<Longrightarrow> k r = k r' \<Longrightarrow> r = r'"
  by (auto simp: distinct_map inj_on_def)

end
