(* ===== verification/Postgres.thy ===== *)
theory Postgres
  imports Prelude
begin

text \<open>
  What the development takes of the Postgres server and its driver. The SQL text is part of
  the sources and is translated statement by statement in the store theories; what the server
  alone decides is a parameter, collected in the record \<open>postgres\<close>: the order in which a
  scan meets rows, the order of a \<open>RETURNING\<close> list, what a column type stores of a value,
  and which values it refuses. \<open>postgres_ok\<close> states the documented behaviour the proofs rely on.
\<close>

record 'r postgres =
  scan_order :: "'r list \<Rightarrow> 'r list"
  returning_order :: "'r list \<Rightarrow> 'r list"
  timestamptz :: "time \<Rightarrow> time"
  text_ok :: "string \<Rightarrow> bool"
  jsonb_in :: "string \<Rightarrow> string option"
  uuid_in :: "string \<Rightarrow> string option"

text \<open>
  A scan meets every row once, a \<open>RETURNING\<close> list holds every updated row once, and both
  in no promised order. A \<open>timestamptz\<close> has a resolution of one microsecond.
\<close>

definition postgres_ok :: "'r postgres \<Rightarrow> bool" where
  "postgres_ok pg \<longleftrightarrow>
     (\<forall>rs. mset (scan_order pg rs) = mset rs) \<and>
     (\<forall>rs. mset (returning_order pg rs) = mset rs)"

lemma postgres_ok_scan: "postgres_ok pg \<Longrightarrow> mset (scan_order pg rs) = mset rs"
  and postgres_ok_returning: "postgres_ok pg \<Longrightarrow> mset (returning_order pg rs) = mset rs"
  by (simp_all add: postgres_ok_def)

lemma set_scan_order: "postgres_ok pg \<Longrightarrow> set (scan_order pg rs) = set rs"
  and set_returning_order: "postgres_ok pg \<Longrightarrow> set (returning_order pg rs) = set rs"
  by (metis postgres_ok_def set_mset_mset)+

lemma length_returning_order: "postgres_ok pg \<Longrightarrow> length (returning_order pg rs) = length rs"
  by (metis postgres_ok_def size_mset)

text \<open>A concrete server for the examples: physical order, microseconds, every value accepted.\<close>

definition plain_postgres :: "'r postgres" where
  "plain_postgres =
     \<lparr>scan_order = (\<lambda>rs. rs), returning_order = (\<lambda>rs. rs),
      timestamptz = (\<lambda>t. t div Microsecond * Microsecond),
      text_ok = (\<lambda>_. True), jsonb_in = Some, uuid_in = Some\<rparr>"

lemma plain_postgres_ok: "postgres_ok plain_postgres"
  by (simp add: postgres_ok_def plain_postgres_def)

text \<open>
  \<open>attempts\<close> columns have type \<open>INT\<close>: four bytes, and the statement that would
  leave the range fails as a whole.
\<close>

definition int4_max :: int where
  "int4_max = 2 ^ 31 - 1"

definition int4_overflow :: go_error where
  "int4_overflow = errorString ''ERROR: integer out of range (SQLSTATE 22003)''"

text \<open>Errors of rejected values and violated constraints.\<close>

definition invalid_uuid :: go_error where
  "invalid_uuid = errorString ''ERROR: invalid input syntax for type uuid (SQLSTATE 22P02)''"

definition invalid_json :: go_error where
  "invalid_json = errorString ''ERROR: invalid input syntax for type json (SQLSTATE 22P02)''"

definition invalid_text :: go_error where
  "invalid_text = errorString ''ERROR: invalid byte sequence for encoding (SQLSTATE 22021)''"

definition not_null_violation :: go_error where
  "not_null_violation = errorString ''ERROR: null value violates not-null constraint (SQLSTATE 23502)''"

definition unique_violation :: go_error where
  "unique_violation = errorString ''ERROR: duplicate key value violates unique constraint (SQLSTATE 23505)''"

end
