(* ===== verification/Outbox_Store.thy ===== *)
theory Outbox_Store
  imports Postgres
begin

text \<open>
  The outbox table (\<open>migrations/0002\<close>, \<open>0003\<close>, \<open>0004\<close>, \<open>0006\<close>) and
  the store of \<open>internal/outbox/store.go\<close>: one function per method, over the table as a
  list of rows. Each takes the outcome of its one round trip to the server and the server's
  \<open>now()\<close>. The contract every row update keeps is the locale \<open>row_update\<close>.
\<close>

section \<open>Data\<close>

text \<open>
  A row of \<open>outbox\<close> with the columns of all its migrations: 0002 makes the table, 0003 adds the
  processing time and the retries, 0004 the event id, 0006 the time of failure.
\<close>

datatype outbox_status = Pending | Processing | Sent | Failed

record outbox_row =
  ob_id :: int
  ob_event_id :: string
  ob_aggregate :: string
  ob_aggregate_id :: string
  ob_event_type :: string
  ob_payload :: string
  ob_status :: outbox_status
  ob_created_at :: time
  ob_sent_at :: "time option"
  ob_processing_started_at :: "time option"
  ob_attempts :: int
  ob_next_retry_at :: time
  ob_last_error :: "string option"
  ob_updated_at :: time
  ob_failed_at :: "time option"

record Event =
  ID :: int
  EventID :: string
  Aggregate :: string
  AggregateID :: string
  EventType :: string
  Payload :: string
  CreatedAt :: time
  Attempts :: int

text \<open>The \<open>Scan\<close> of one returned row into an \<open>Event\<close>.\<close>

definition scan_Event :: "outbox_row \<Rightarrow> Event" where
  "scan_Event r =
     \<lparr>ID = ob_id r, EventID = ob_event_id r, Aggregate = ob_aggregate r,
      AggregateID = ob_aggregate_id r, EventType = ob_event_type r, Payload = ob_payload r,
      CreatedAt = ob_created_at r, Attempts = ob_attempts r\<rparr>"

section \<open>Operations\<close>

text \<open>
  \<open>fmt.Sprintf("%fs", d.Seconds())\<close> writes the seconds with six decimals, so the
  interval the server reads is the duration rounded to a microsecond. Go rounds the nearest
  \<open>float64\<close>, so an exact half, or a duration of more than a century, may come out a
  microsecond away from what is written here.
\<close>

definition interval_of :: "duration \<Rightarrow> duration" where
  "interval_of d = (d + 500) div Microsecond * Microsecond"

definition stuck :: "time \<Rightarrow> duration \<Rightarrow> outbox_row \<Rightarrow> bool" where
  "stuck now timeout r \<longleftrightarrow>
     ob_status r = Processing \<and>
     (case ob_processing_started_at r of None \<Rightarrow> False | Some t \<Rightarrow> t < now - interval_of timeout)"

definition reset_row :: "time \<Rightarrow> outbox_row \<Rightarrow> outbox_row" where
  "reset_row now r = r\<lparr>ob_status := Pending, ob_processing_started_at := None,
     ob_next_retry_at := now, ob_last_error := Some ''processing timeout''\<rparr>"

definition timeout_of :: "duration \<Rightarrow> duration" where
  "timeout_of processingTimeout = (if processingTimeout \<le> 0 then 30 * Second else processingTimeout)"

definition ResetStuck ::
  "outcome \<Rightarrow> time \<Rightarrow> duration \<Rightarrow> outbox_row list \<Rightarrow> (go_error + int) \<times> outbox_row list" where
  "ResetStuck oc now processingTimeout tab =
     (let timeout = timeout_of processingTimeout in
      exec oc tab (Inr (int (length (filter (stuck now timeout) tab)),
                        sql_update (stuck now timeout) (reset_row now) tab)))"

text \<open>
  \<open>SELECT id ... FOR UPDATE SKIP LOCKED\<close>: the due rows that no other running statement
  has locked, oldest first, up to the limit. Rows with equal \<open>created_at\<close> come in the
  order the scan met them.
\<close>

definition due :: "time \<Rightarrow> outbox_row \<Rightarrow> bool" where
  "due now r \<longleftrightarrow> ob_status r = Pending \<and> ob_next_retry_at r \<le> now"

definition claim_cte ::
  "outbox_row postgres \<Rightarrow> time \<Rightarrow> (int \<Rightarrow> bool) \<Rightarrow> nat \<Rightarrow> outbox_row list \<Rightarrow> int list" where
  "claim_cte pg now locked limit tab =
     map ob_id (take limit (sort_key ob_created_at
       (filter (\<lambda>r. due now r \<and> \<not> locked (ob_id r)) (scan_order pg tab))))"

definition claim_row :: "time \<Rightarrow> outbox_row \<Rightarrow> outbox_row" where
  "claim_row now r = r\<lparr>ob_status := Processing, ob_processing_started_at := Some now,
     ob_attempts := ob_attempts r + 1, ob_updated_at := now\<rparr>"

definition batch_of :: "int \<Rightarrow> nat" where
  "batch_of batchSize = nat (if batchSize \<le> 0 then 50 else batchSize)"

definition ClaimPending ::
  "outbox_row postgres \<Rightarrow> outcome \<Rightarrow> time \<Rightarrow> (int \<Rightarrow> bool) \<Rightarrow> int \<Rightarrow> outbox_row list \<Rightarrow>
   (go_error + Event list) \<times> outbox_row list" where
  "ClaimPending pg oc now locked batchSize tab =
     (let ids = claim_cte pg now locked (batch_of batchSize) tab;
          claimed = (\<lambda>r. ob_id r \<in> set ids);
          tab' = sql_update claimed (claim_row now) tab
      in exec oc tab
           (if \<exists>r\<in>set tab. claimed r \<and> int4_max \<le> ob_attempts r then Inl int4_overflow
            else Inr (map scan_Event (returning_order pg (filter claimed tab')), tab')))"

definition sent_row :: "time \<Rightarrow> outbox_row \<Rightarrow> outbox_row" where
  "sent_row now r = r\<lparr>ob_status := Sent, ob_sent_at := Some now,
     ob_processing_started_at := None, ob_last_error := None, ob_updated_at := now\<rparr>"

definition MarkSent ::
  "outcome \<Rightarrow> time \<Rightarrow> int \<Rightarrow> outbox_row list \<Rightarrow> (go_error + unit) \<times> outbox_row list" where
  "MarkSent oc now oid tab =
     exec oc tab (Inr ((), sql_update (\<lambda>r. ob_id r = oid) (sent_row now) tab))"

definition failed_row :: "time \<Rightarrow> time \<Rightarrow> string \<Rightarrow> outbox_row \<Rightarrow> outbox_row" where
  "failed_row now nextRetryAt errMsg r = r\<lparr>ob_status := Pending,
     ob_processing_started_at := None, ob_next_retry_at := nextRetryAt,
     ob_last_error := Some errMsg, ob_updated_at := now\<rparr>"

definition MarkFailed ::
  "outbox_row postgres \<Rightarrow> outcome \<Rightarrow> time \<Rightarrow> int \<Rightarrow> time \<Rightarrow> string \<Rightarrow> outbox_row list \<Rightarrow>
   (go_error + unit) \<times> outbox_row list" where
  "MarkFailed pg oc now oid nextRetryAt errMsg tab =
     exec oc tab (if text_ok pg errMsg
       then Inr ((), sql_update (\<lambda>r. ob_id r = oid)
                       (failed_row now (timestamptz pg nextRetryAt) errMsg) tab)
       else Inl invalid_text)"

definition dead_row :: "time \<Rightarrow> string \<Rightarrow> outbox_row \<Rightarrow> outbox_row" where
  "dead_row now errMsg r = r\<lparr>ob_status := Failed,
     ob_failed_at := (case ob_failed_at r of None \<Rightarrow> Some now | Some t \<Rightarrow> Some t),
     ob_processing_started_at := None, ob_last_error := Some errMsg, ob_updated_at := now\<rparr>"

definition MarkDead ::
  "outbox_row postgres \<Rightarrow> outcome \<Rightarrow> time \<Rightarrow> int \<Rightarrow> string \<Rightarrow> outbox_row list \<Rightarrow>
   (go_error + unit) \<times> outbox_row list" where
  "MarkDead pg oc now oid errMsg tab =
     exec oc tab (if text_ok pg errMsg
       then Inr ((), sql_update (\<lambda>r. ob_id r = oid) (dead_row now errMsg) tab)
       else Inl invalid_text)"

text \<open>
  The lag is the age of the oldest pending row; here it counts nanoseconds, where the Go
  function gives the same quantity as a \<open>float64\<close> of seconds. No row means \<open>0\<close>.
\<close>

definition LagSeconds ::
  "outcome \<Rightarrow> time \<Rightarrow> outbox_row list \<Rightarrow> go_error + duration" where
  "LagSeconds oc now tab =
     (case fst (exec oc tab
        (case sort_key ob_created_at (filter (\<lambda>r. ob_status r = Pending) tab) of
           [] \<Rightarrow> Inl ErrNoRows
         | r # _ \<Rightarrow> Inr (now - ob_created_at r, tab))) of
        Inl e \<Rightarrow> if e = ErrNoRows then Inr 0 else Inl e
      | Inr v \<Rightarrow> Inr v)"

declare reset_row_def [row_defs] claim_row_def [row_defs] sent_row_def [row_defs]
  failed_row_def [row_defs] dead_row_def [row_defs]

section \<open>The contract of a row update\<close>

text \<open>The columns that say which event a row holds. No statement of the store writes them.\<close>

definition event_columns ::
  "outbox_row \<Rightarrow> int \<times> string \<times> string \<times> string \<times> string \<times> string \<times> time" where
  "event_columns r = (ob_id r, ob_event_id r, ob_aggregate r, ob_aggregate_id r,
     ob_event_type r, ob_payload r, ob_created_at r)"

text \<open>
  The bookkeeping columns agree with the status: a row carries a processing time exactly
  while it is being processed, a sent row has its time of sending and no error, a failed
  row its time of failure and an error.
\<close>

definition row_ok :: "outbox_row \<Rightarrow> bool" where
  "row_ok r \<longleftrightarrow>
     (ob_status r = Processing \<longleftrightarrow> ob_processing_started_at r \<noteq> None) \<and>
     (ob_status r = Sent \<longrightarrow> ob_sent_at r \<noteq> None \<and> ob_last_error r = None) \<and>
     (ob_status r = Failed \<longrightarrow> ob_failed_at r \<noteq> None \<and> ob_last_error r \<noteq> None) \<and>
     0 \<le> ob_attempts r \<and> ob_attempts r \<le> int4_max"

text \<open>The table: primary key, the unique index on \<open>event_id\<close>, and well-formed rows.\<close>

definition outbox_ok :: "outbox_row list \<Rightarrow> bool" where
  "outbox_ok tab \<longleftrightarrow>
     distinct (map ob_id tab) \<and> distinct (map ob_event_id tab) \<and> (\<forall>r\<in>set tab. row_ok r)"

lemma outbox_ok_row: "outbox_ok tab \<Longrightarrow> r \<in> set tab \<Longrightarrow> row_ok r"
  by (simp add: outbox_ok_def)

lemma outbox_ok_id_eq:
  "outbox_ok tab \<Longrightarrow> r \<in> set tab \<Longrightarrow> r' \<in> set tab \<Longrightarrow> ob_id r = ob_id r' \<Longrightarrow> r = r'"
  by (auto simp: outbox_ok_def intro: distinct_key_eq)

lemma map_event_columns:
  assumes "map event_columns tab' = map event_columns tab"
  shows "map ob_id tab' = map ob_id tab" and "map ob_event_id tab' = map ob_event_id tab"
proof -
  have "map fst (map event_columns tab') = map fst (map event_columns tab)"
    using assms by simp
  then show "map ob_id tab' = map ob_id tab" by (simp add: event_columns_def comp_def)
  have "map (fst \<circ> snd) (map event_columns tab') = map (fst \<circ> snd) (map event_columns tab)"
    using assms by simp
  then show "map ob_event_id tab' = map ob_event_id tab"
    by (simp add: event_columns_def comp_def)
qed

locale row_update =
  fixes guard :: "outbox_row \<Rightarrow> bool" and upd :: "outbox_row \<Rightarrow> outbox_row"
  assumes upd_columns: "event_columns (upd r) = event_columns r"
    and upd_ok: "row_ok r \<Longrightarrow> guard r \<Longrightarrow> row_ok (upd r)"
begin

lemma table_columns: "map event_columns (sql_update c upd tab) = map event_columns tab"
  by (rule map_sql_update_id) (rule upd_columns)

lemma table_ok:
  assumes "outbox_ok tab" and "\<And>r. r \<in> set tab \<Longrightarrow> c r \<Longrightarrow> guard r"
  shows "outbox_ok (sql_update c upd tab)"
  using assms map_event_columns [OF table_columns [of c tab]]
  by (auto simp: outbox_ok_def Ball_sql_update upd_ok)

lemma upd_id: "ob_id (upd r) = ob_id r"
  using upd_columns [of r] by (simp add: event_columns_def)

lemma table_frame:
  assumes "r \<in> set tab" and "\<not> c r"
  shows "r \<in> set (sql_update c upd tab)"
  using assms by (auto simp: set_sql_update)

end

interpretation reset: row_update "\<lambda>_. True" "reset_row now" for now
  by unfold_locales (auto simp: event_columns_def row_ok_def row_defs)

interpretation claim: row_update "\<lambda>r. ob_attempts r < int4_max" "claim_row now" for now
  by unfold_locales (auto simp: event_columns_def row_ok_def row_defs)

interpretation sent: row_update "\<lambda>_. True" "sent_row now" for now
  by unfold_locales (auto simp: event_columns_def row_ok_def row_defs)

interpretation failed: row_update "\<lambda>_. True" "failed_row now next err" for now "next" err
  by unfold_locales (auto simp: event_columns_def row_ok_def row_defs)

interpretation dead: row_update "\<lambda>_. True" "dead_row now err" for now err
  by unfold_locales (auto simp: event_columns_def row_ok_def row_defs split: option.splits)

section \<open>What every method keeps\<close>

text \<open>
  A method that writes the table is given by the rows it touches; \<open>same_events\<close> says
  that a table still holds the same events in the same places.
\<close>

definition same_events :: "outbox_row list \<Rightarrow> outbox_row list \<Rightarrow> bool" where
  "same_events tab tab' \<longleftrightarrow> map event_columns tab' = map event_columns tab"

lemma same_events_refl [simp]: "same_events tab tab"
  by (simp add: same_events_def)

lemma same_events_trans: "same_events a b \<Longrightarrow> same_events b c \<Longrightarrow> same_events a c"
  by (simp add: same_events_def)

lemma same_events_ids: "same_events tab tab' \<Longrightarrow> ob_id ` set tab' = ob_id ` set tab"
  using map_event_columns(1) [of tab' tab] by (metis same_events_def list.set_map)

lemma exec_outbox_ok:
  "outbox_ok tab \<Longrightarrow> (\<And>r tab'. stmt = Inr (r, tab') \<Longrightarrow> outbox_ok tab') \<Longrightarrow>
   outbox_ok (snd (exec oc tab stmt))"
  by (rule exec_keeps)

lemma exec_same_events:
  "(\<And>r tab'. stmt = Inr (r, tab') \<Longrightarrow> map event_columns tab' = map event_columns tab) \<Longrightarrow>
   same_events tab (snd (exec oc tab stmt))"
  by (rule exec_keeps) (auto simp: same_events_def)

lemmas table_columns = reset.table_columns claim.table_columns sent.table_columns
  failed.table_columns dead.table_columns

lemmas table_keeps = exec_outbox_ok exec_same_events reset.table_ok claim.table_ok
  sent.table_ok failed.table_ok dead.table_ok

lemma ResetStuck_keeps:
  "outbox_ok tab \<Longrightarrow> outbox_ok (snd (ResetStuck oc now d tab))"
  "same_events tab (snd (ResetStuck oc now d tab))"
  by (auto simp: ResetStuck_def Let_def table_columns intro!: table_keeps)

lemma ClaimPending_keeps:
  "outbox_ok tab \<Longrightarrow> outbox_ok (snd (ClaimPending pg oc now locked n tab))"
  "same_events tab (snd (ClaimPending pg oc now locked n tab))"
  by (auto simp: ClaimPending_def Let_def table_columns not_le intro!: table_keeps
      split: if_splits)

lemma MarkSent_keeps:
  "outbox_ok tab \<Longrightarrow> outbox_ok (snd (MarkSent oc now oid tab))"
  "same_events tab (snd (MarkSent oc now oid tab))"
  by (auto simp: MarkSent_def table_columns intro!: table_keeps)

lemma MarkFailed_keeps:
  "outbox_ok tab \<Longrightarrow> outbox_ok (snd (MarkFailed pg oc now oid next err tab))"
  "same_events tab (snd (MarkFailed pg oc now oid next err tab))"
  by (auto simp: MarkFailed_def table_columns intro!: table_keeps split: if_splits)

lemma MarkDead_keeps:
  "outbox_ok tab \<Longrightarrow> outbox_ok (snd (MarkDead pg oc now oid err tab))"
  "same_events tab (snd (MarkDead pg oc now oid err tab))"
  by (auto simp: MarkDead_def table_columns intro!: table_keeps split: if_splits)

section \<open>Claiming\<close>

definition chosen ::
  "outbox_row postgres \<Rightarrow> time \<Rightarrow> (int \<Rightarrow> bool) \<Rightarrow> nat \<Rightarrow> outbox_row list \<Rightarrow> outbox_row list" where
  "chosen pg now locked limit tab = take limit (sort_key ob_created_at
     (filter (\<lambda>r. due now r \<and> \<not> locked (ob_id r)) (scan_order pg tab)))"

lemma claim_cte_chosen: "claim_cte pg now locked limit tab = map ob_id (chosen pg now locked limit tab)"
  by (simp add: claim_cte_def chosen_def)

lemma chosen_due:
  assumes "postgres_ok pg" and "r \<in> set (chosen pg now locked limit tab)"
  shows "r \<in> set tab" and "due now r" and "\<not> locked (ob_id r)"
  using assms by (auto simp: chosen_def set_scan_order dest!: in_set_takeD)

lemma claimed_row:
  assumes "postgres_ok pg" and "outbox_ok tab" and "r \<in> set tab"
    and "ob_id r \<in> ob_id ` set (chosen pg now locked limit tab)"
  shows "r \<in> set (chosen pg now locked limit tab)"
proof -
  from assms(4) obtain c where c: "c \<in> set (chosen pg now locked limit tab)" "ob_id c = ob_id r"
    by auto
  then have "c = r"
    using outbox_ok_id_eq [OF assms(2)] chosen_due(1) [OF assms(1)] assms(3) by blast
  with c show ?thesis by simp
qed

lemma length_chosen: "length (chosen pg now locked limit tab) \<le> limit"
  by (simp add: chosen_def)

lemma distinct_chosen:
  assumes "postgres_ok pg" and "outbox_ok tab"
  shows "distinct (map ob_id (chosen pg now locked limit tab))"
proof -
  let ?c = "filter (\<lambda>r. due now r \<and> \<not> locked (ob_id r)) (scan_order pg tab)"
  have "mset (map ob_id (scan_order pg tab)) = mset (map ob_id tab)"
    using assms(1) by (simp add: postgres_ok_scan)
  then have "distinct (map ob_id (scan_order pg tab))"
    using assms(2) by (metis outbox_ok_def mset_eq_imp_distinct_iff)
  then have "distinct (map ob_id ?c)"
    by (rule distinct_map_filter)
  then have "distinct (map ob_id (sort_key ob_created_at ?c))"
    using mset_eq_imp_distinct_iff [of "map ob_id (sort_key ob_created_at ?c)" "map ob_id ?c"]
    by simp
  then show ?thesis
    unfolding chosen_def take_map [symmetric] by (rule distinct_take)
qed

text \<open>A due row that was left out is no older than any row that was chosen, and the batch is full.\<close>

lemma not_chosen:
  assumes "postgres_ok pg" and "r \<in> set tab" and "due now r" and "\<not> locked (ob_id r)"
    and "r \<notin> set (chosen pg now locked limit tab)"
  shows "length (chosen pg now locked limit tab) = limit"
    and "c \<in> set (chosen pg now locked limit tab) \<Longrightarrow> ob_created_at c \<le> ob_created_at r"
proof -
  let ?s = "sort_key ob_created_at
     (filter (\<lambda>r. due now r \<and> \<not> locked (ob_id r)) (scan_order pg tab))"
  have "r \<in> set ?s" using assms(1-4) by (simp add: set_scan_order)
  then have "r \<in> set (take limit ?s) \<union> set (drop limit ?s)"
    by (simp flip: set_append)
  then have r: "r \<in> set (drop limit ?s)"
    using assms(5) by (simp add: chosen_def)
  then show "length (chosen pg now locked limit tab) = limit"
    by (cases "limit \<le> length ?s") (auto simp: chosen_def)
  have "sorted (map ob_created_at (take limit ?s @ drop limit ?s))"
    by (simp only: append_take_drop_id sorted_sort_key)
  then have "\<And>a b. a \<in> set (take limit ?s) \<Longrightarrow> b \<in> set (drop limit ?s) \<Longrightarrow>
      ob_created_at a \<le> ob_created_at b"
    unfolding map_append sorted_append by auto
  then show "c \<in> set (chosen pg now locked limit tab) \<Longrightarrow> ob_created_at c \<le> ob_created_at r"
    using r by (simp add: chosen_def)
qed

text \<open>What a successful claim returns and what it leaves behind.\<close>

lemma ClaimPending_Inr:
  assumes pg: "postgres_ok pg" and tab: "outbox_ok tab"
    and claim: "ClaimPending pg oc now locked n tab = (Inr evs, tab')"
  defines "cs \<equiv> chosen pg now locked (batch_of n) tab"
  shows "tab' = sql_update (\<lambda>r. ob_id r \<in> ob_id ` set cs) (claim_row now) tab"
    and "mset evs = mset (map (scan_Event \<circ> claim_row now) cs)"
    and "r \<in> set cs \<Longrightarrow> ob_attempts r < int4_max"
proof -
  let ?in = "\<lambda>r. ob_id r \<in> ob_id ` set cs"
  from claim have tab': "tab' = sql_update ?in (claim_row now) tab"
    and evs: "evs = map scan_Event (returning_order pg (filter ?in tab'))"
    and small: "\<And>r. r \<in> set tab \<Longrightarrow> ?in r \<Longrightarrow> ob_attempts r < int4_max"
    by (auto simp: ClaimPending_def Let_def claim_cte_chosen exec_Inr cs_def not_le
        split: if_splits)
  show "tab' = sql_update ?in (claim_row now) tab" by (rule tab')
  show "r \<in> set cs \<Longrightarrow> ob_attempts r < int4_max"
    using small chosen_due(1) [OF pg] by (auto simp: cs_def)
  have cs_tab: "set cs \<subseteq> set tab" using chosen_due(1) [OF pg] by (auto simp: cs_def)
  have mem: "r \<in> set tab \<Longrightarrow> ?in r \<longleftrightarrow> r \<in> set cs" for r
    using cs_tab outbox_ok_id_eq [OF tab] by blast
  have "mset (filter ?in tab) = mset cs"
  proof (rule set_eq_iff_mset_eq_distinct [THEN iffD1])
    have "distinct tab" using tab by (simp add: outbox_ok_def distinct_map)
    then show "distinct (filter ?in tab)" by simp
    show "distinct cs" using distinct_chosen [OF pg tab] by (simp add: cs_def distinct_map)
    show "set (filter ?in tab) = set cs" using mem cs_tab by auto
  qed
  moreover have "filter ?in tab' = map (claim_row now) (filter ?in tab)"
    by (simp add: tab' sql_update_def filter_map comp_def if_distrib claim.upd_id)
  ultimately show "mset evs = mset (map (scan_Event \<circ> claim_row now) cs)"
    by (simp add: evs postgres_ok_returning [OF pg] flip: map_map)
qed

lemma ClaimPending_IDs:
  assumes "postgres_ok pg" and "outbox_ok tab"
    and "ClaimPending pg oc now locked n tab = (Inr evs, tab')"
  shows "mset (map ID evs) = mset (map ob_id (chosen pg now locked (batch_of n) tab))"
    and "ID ` set evs = ob_id ` set (chosen pg now locked (batch_of n) tab)"
proof -
  have "mset (map ID evs) = image_mset ID (mset evs)" by simp
  also have "\<dots> = mset (map ob_id (chosen pg now locked (batch_of n) tab))"
    unfolding ClaimPending_Inr(2) [OF assms]
    by (simp add: comp_def scan_Event_def claim.upd_id image_mset.compositionality)
  finally show ids: "mset (map ID evs) = mset (map ob_id (chosen pg now locked (batch_of n) tab))" .
  show "ID ` set evs = ob_id ` set (chosen pg now locked (batch_of n) tab)"
    using arg_cong [OF ids, of set_mset] by simp
qed

lemma ClaimPending_event:
  assumes "postgres_ok pg" and "outbox_ok tab"
    and "ClaimPending pg oc now locked n tab = (Inr evs, tab')" and "e \<in> set evs"
  obtains r where "r \<in> set tab" "due now r" "\<not> locked (ob_id r)"
    "e = scan_Event (claim_row now r)" "claim_row now r \<in> set tab'"
proof -
  have "e \<in> set (map (scan_Event \<circ> claim_row now) (chosen pg now locked (batch_of n) tab))"
    using assms(4) ClaimPending_Inr(2) [OF assms(1-3)] by (metis set_mset_mset)
  then obtain r where r: "r \<in> set (chosen pg now locked (batch_of n) tab)"
    and e: "e = scan_Event (claim_row now r)" by auto
  have "claim_row now r \<in> set tab'"
    using r chosen_due(1) [OF assms(1) r]
    by (auto simp: ClaimPending_Inr(1) [OF assms(1-3)] set_sql_update)
  then show thesis using that e chosen_due [OF assms(1) r] by blast
qed

lemma ClaimPending_Success:
  assumes "postgres_ok pg" and "outbox_ok tab"
    and "\<forall>r\<in>set (chosen pg now locked (batch_of n) tab). ob_attempts r < int4_max"
  shows "\<exists>evs tab'. ClaimPending pg Success now locked n tab = (Inr evs, tab')"
  using assms(3) claimed_row [OF assms(1,2)]
  by (auto simp: ClaimPending_def Let_def claim_cte_chosen not_le)

section \<open>Sequences of calls and the abstract life cycle\<close>

text \<open>
  Every process that works on the outbox does so through these calls, in any order and
  interleaved with the calls of others; each is one atomic statement.
\<close>

datatype store_call =
    CallReset duration
  | CallClaim "int \<Rightarrow> bool" int
  | CallSent int
  | CallFailed int time string
  | CallDead int string

fun run_call :: "outbox_row postgres \<Rightarrow> outcome \<times> time \<times> store_call \<Rightarrow> outbox_row list \<Rightarrow> outbox_row list" where
  "run_call pg (oc, now, CallReset d) tab = snd (ResetStuck oc now d tab)"
| "run_call pg (oc, now, CallClaim locked n) tab = snd (ClaimPending pg oc now locked n tab)"
| "run_call pg (oc, now, CallSent oid) tab = snd (MarkSent oc now oid tab)"
| "run_call pg (oc, now, CallFailed oid t err) tab = snd (MarkFailed pg oc now oid t err tab)"
| "run_call pg (oc, now, CallDead oid err) tab = snd (MarkDead pg oc now oid err tab)"

lemma run_call_keeps:
  "outbox_ok tab \<Longrightarrow> outbox_ok (run_call pg c tab)"
  "same_events tab (run_call pg c tab)"
  by (induction pg c tab rule: run_call.induct)
     (simp_all add: ResetStuck_keeps ClaimPending_keeps MarkSent_keeps MarkFailed_keeps MarkDead_keeps)

text \<open>
  The abstract outbox knows of every event only its status. A command names the rows it is
  meant for; rows in another state than it expects are left alone.
\<close>

datatype outbox_cmd =
    Release "int set"
  | Take "int set"
  | Deliver int
  | Retry int
  | Bury int

fun outbox_spec :: "outbox_cmd \<Rightarrow> (int \<rightharpoonup> outbox_status) \<Rightarrow> (int \<rightharpoonup> outbox_status)" where
  "outbox_spec (Release S) m = (\<lambda>i. if i \<in> S \<and> m i = Some Processing then Some Pending else m i)"
| "outbox_spec (Take S) m = (\<lambda>i. if i \<in> S \<and> m i = Some Pending then Some Processing else m i)"
| "outbox_spec (Deliver i) m = (if m i = None then m else m(i \<mapsto> Sent))"
| "outbox_spec (Retry i) m = (if m i = None then m else m(i \<mapsto> Pending))"
| "outbox_spec (Bury i) m = (if m i = None then m else m(i \<mapsto> Failed))"

definition statuses :: "outbox_row list \<Rightarrow> (int \<rightharpoonup> outbox_status)" where
  "statuses tab = map_of (map (\<lambda>r. (ob_id r, ob_status r)) tab)"

text \<open>The command a call stands for, given the table it finds.\<close>

fun cmd_of :: "outbox_row postgres \<Rightarrow> outcome \<times> time \<times> store_call \<Rightarrow> outbox_row list \<Rightarrow> outbox_cmd" where
  "cmd_of pg (oc, now, CallReset d) tab =
     Release (ob_id ` {r \<in> set tab. stuck now (timeout_of d) r})"
| "cmd_of pg (oc, now, CallClaim locked n) tab =
     Take (set (claim_cte pg now locked (batch_of n) tab))"
| "cmd_of pg (oc, now, CallSent oid) tab = Deliver oid"
| "cmd_of pg (oc, now, CallFailed oid t err) tab = Retry oid"
| "cmd_of pg (oc, now, CallDead oid err) tab = Bury oid"

lemma statuses_Some:
  "outbox_ok tab \<Longrightarrow> statuses tab i = Some s \<longleftrightarrow> (\<exists>r\<in>set tab. ob_id r = i \<and> ob_status r = s)"
  unfolding statuses_def outbox_ok_def
  by (subst map_of_eq_Some_iff) (auto simp: comp_def)

lemma statuses_None: "statuses tab i = None \<longleftrightarrow> i \<notin> ob_id ` set tab"
  by (auto simp: statuses_def map_of_eq_None_iff image_image)

text \<open>No row of the second table is sent that was not already sent in the first.\<close>

definition no_new_sent :: "outbox_row list \<Rightarrow> outbox_row list \<Rightarrow> bool" where
  "no_new_sent tab tab' \<longleftrightarrow>
     (\<forall>r'\<in>set tab'. ob_status r' = Sent \<longrightarrow>
        (\<exists>r\<in>set tab. ob_status r = Sent \<and> event_columns r' = event_columns r))"

lemma no_new_sent_refl [simp]: "no_new_sent tab tab"
  by (auto simp: no_new_sent_def)

lemma exec_no_new_sent:
  "(\<And>r tab'. stmt = Inr (r, tab') \<Longrightarrow> no_new_sent tab tab') \<Longrightarrow>
   no_new_sent tab (snd (exec oc tab stmt))"
  by (rule exec_keeps) auto

text \<open>A row update that always ends in one status, and what it does to the abstract outbox.\<close>

locale row_transition = row_update +
  fixes target :: outbox_status
  assumes upd_status: "ob_status (upd r) = target"
begin

lemma table_statuses:
  assumes "outbox_ok tab"
  shows "statuses (sql_update c upd tab) =
    (\<lambda>i. if i \<in> ob_id ` {r \<in> set tab. c r} then Some target else statuses tab i)"
proof
  fix i
  have "distinct (map ob_id tab)" using assms(1) by (simp add: outbox_ok_def)
  then show "statuses (sql_update c upd tab) i =
    (if i \<in> ob_id ` {r \<in> set tab. c r} then Some target else statuses tab i)"
    by (induction tab) (auto simp: statuses_def sql_update_def upd_id upd_status)
qed

lemma table_point:
  assumes "outbox_ok tab"
  shows "statuses (sql_update (\<lambda>r. ob_id r = oid) upd tab) =
    (if statuses tab oid = None then statuses tab else (statuses tab)(oid \<mapsto> target))"
  by (auto simp: table_statuses [OF assms] statuses_None fun_eq_iff)

lemma table_no_new_sent:
  assumes "target \<noteq> Sent"
  shows "no_new_sent tab (sql_update c upd tab)"
  using assms by (auto simp: no_new_sent_def set_sql_update upd_status)

lemma table_guarded:
  assumes tab: "outbox_ok tab" and c: "\<And>r. r \<in> set tab \<Longrightarrow> c r \<longleftrightarrow> ob_id r \<in> S"
    and s: "\<And>r. r \<in> set tab \<Longrightarrow> c r \<Longrightarrow> ob_status r = source"
  shows "statuses (sql_update c upd tab) =
    (\<lambda>i. if i \<in> S \<and> statuses tab i = Some source then Some target else statuses tab i)"
proof
  fix i
  have "i \<in> ob_id ` {r \<in> set tab. c r} \<longleftrightarrow> i \<in> S \<and> statuses tab i = Some source"
    unfolding statuses_Some [OF tab] using c s by auto
  then show "statuses (sql_update c upd tab) i =
    (if i \<in> S \<and> statuses tab i = Some source then Some target else statuses tab i)"
    by (simp only: table_statuses [OF tab])
qed

end

interpretation reset_to: row_transition "\<lambda>_. True" "reset_row now" Pending for now
  by unfold_locales (simp add: row_defs)

interpretation claim_to: row_transition "\<lambda>r. ob_attempts r < int4_max" "claim_row now" Processing for now
  by unfold_locales (simp add: row_defs)

interpretation sent_to: row_transition "\<lambda>_. True" "sent_row now" Sent for now
  by unfold_locales (simp add: row_defs)

interpretation failed_to: row_transition "\<lambda>_. True" "failed_row now next err" Pending for now "next" err
  by unfold_locales (simp add: row_defs)

interpretation dead_to: row_transition "\<lambda>_. True" "dead_row now err" Failed for now err
  by unfold_locales (simp add: row_defs)

lemma unsent_calls:
  "no_new_sent tab (snd (ResetStuck oc now d tab))"
  "no_new_sent tab (snd (ClaimPending pg oc now locked n tab))"
  "no_new_sent tab (snd (MarkFailed pg oc now oid next err tab))"
  "no_new_sent tab (snd (MarkDead pg oc now oid err tab))"
  unfolding ResetStuck_def ClaimPending_def MarkFailed_def MarkDead_def Let_def
  by (auto intro!: exec_no_new_sent reset_to.table_no_new_sent claim_to.table_no_new_sent
      failed_to.table_no_new_sent dead_to.table_no_new_sent split: if_split_asm)

text \<open>Only \<open>MarkSent\<close> makes a row sent, and only the row it names.\<close>

lemma MarkSent_sent:
  assumes "r' \<in> set (snd (MarkSent oc now oid tab))" and "ob_status r' = Sent"
  obtains (already) r where "r \<in> set tab" "ob_status r = Sent" "event_columns r' = event_columns r"
    | (marked) r where "r \<in> set tab" "ob_id r = oid" "event_columns r' = event_columns r"
proof -
  have "snd (MarkSent oc now oid tab) \<in> {tab, sql_update (\<lambda>r. ob_id r = oid) (sent_row now) tab}"
    unfolding MarkSent_def by (rule exec_keeps [where I = "\<lambda>t. t \<in> {tab, _}"]) auto
  with assms already marked show thesis
    by (auto simp: set_sql_update sent.upd_columns split: if_splits)
qed

lemma exec_refines:
  assumes "\<And>r tab'. stmt = Inr (r, tab') \<Longrightarrow> statuses tab' = m'"
  shows "statuses (snd (exec oc tab stmt)) \<in> {statuses tab, m'}"
  using exec_state_cases [of oc tab stmt] assms by auto

lemma ClaimPending_tab:
  "snd (ClaimPending pg oc now locked n tab) \<in>
     {tab, sql_update (\<lambda>r. ob_id r \<in> set (claim_cte pg now locked (batch_of n) tab)) (claim_row now) tab}"
  unfolding ClaimPending_def Let_def
  by (rule exec_keeps [where I = "\<lambda>t. t \<in> {tab, _}"]) (auto split: if_split_asm)

lemma run_call_refines:
  assumes "postgres_ok pg" and "outbox_ok tab"
  shows "statuses (run_call pg c tab) \<in> {statuses tab, outbox_spec (cmd_of pg c tab) (statuses tab)}"
  using assms
proof (induction pg c tab rule: run_call.induct)
  case (1 pg oc now d tab)
  let ?S = "ob_id ` {r \<in> set tab. stuck now (timeout_of d) r}"
  have "statuses (sql_update (stuck now (timeout_of d)) (reset_row now) tab) =
      outbox_spec (Release ?S) (statuses tab)"
    unfolding outbox_spec.simps
  proof (rule reset_to.table_guarded [OF 1(2)])
    show "stuck now (timeout_of d) r \<longleftrightarrow> ob_id r \<in> ?S" if "r \<in> set tab" for r
      using that outbox_ok_id_eq [OF 1(2)] by blast
  qed (simp add: stuck_def)
  then show ?case unfolding run_call.simps cmd_of.simps ResetStuck_def Let_def
    by (intro exec_refines) auto
next
  case (2 pg oc now locked n tab)
  let ?S = "set (claim_cte pg now locked (batch_of n) tab)"
  have "statuses (sql_update (\<lambda>r. ob_id r \<in> ?S) (claim_row now) tab) =
      outbox_spec (Take ?S) (statuses tab)"
    unfolding outbox_spec.simps
  proof (rule claim_to.table_guarded [OF 2(2)])
    show "ob_status r = Pending" if "r \<in> set tab" "ob_id r \<in> ?S" for r
      using that chosen_due(2) [OF 2(1) claimed_row [OF 2 that(1)]]
      by (simp add: claim_cte_chosen due_def)
  qed simp
  then show ?case unfolding run_call.simps cmd_of.simps
    using ClaimPending_tab [of pg oc now locked n tab] by auto
next
  case (3 pg oc now oid tab)
  then show ?case unfolding run_call.simps cmd_of.simps outbox_spec.simps MarkSent_def
    by (intro exec_refines) (auto simp: sent_to.table_point)
next
  case (4 pg oc now oid t err tab)
  then show ?case unfolding run_call.simps cmd_of.simps outbox_spec.simps MarkFailed_def
    by (intro exec_refines) (auto simp: failed_to.table_point split: if_splits)
next
  case (5 pg oc now oid err tab)
  then show ?case unfolding run_call.simps cmd_of.simps outbox_spec.simps MarkDead_def
    by (intro exec_refines) (auto simp: dead_to.table_point split: if_splits)
qed

section \<open>Leases\<close>

text \<open>
  A claim is a lease: the row is out of reach of other claims until the processing timeout
  has passed, and comes back afterwards if nobody reported an end.
\<close>

lemma claimed_not_due: "\<not> due t (claim_row now r)"
  by (simp add: due_def claim_row_def)

lemma claimed_stuck_iff: "stuck t d (claim_row now r) \<longleftrightarrow> now < t - interval_of d"
  by (simp add: stuck_def claim_row_def)

lemma interval_of_close: "d - 500 \<le> interval_of d" "interval_of d \<le> d + 500"
  using div_mult_mod_eq [of "d + 500" 1000] pos_mod_bound [of 1000 "d + 500"]
    pos_mod_sign [of 1000 "d + 500"]
  by (simp_all add: interval_of_def)

lemma ClaimPending_IDs_due:
  assumes "postgres_ok pg" and "outbox_ok tab"
    and "ClaimPending pg oc now locked n tab = (Inr evs, tab')" and "r \<in> set tab" and "ob_id r \<in> ID ` set evs"
  shows "due now r"
  using assms ClaimPending_IDs(2) [OF assms(1-3)] claimed_row [OF assms(1,2,4)] chosen_due(2) [OF assms(1)]
  by metis

lemma ClaimPending_takes_all:
  assumes pg: "postgres_ok pg" and tab: "outbox_ok tab"
    and claim: "ClaimPending pg oc now locked n tab = (Inr evs, tab')"
    and r: "r \<in> set tab" "due now r" "\<not> locked (ob_id r)"
    and room: "length (filter (due now) tab) \<le> batch_of n"
  shows "scan_Event (claim_row now r) \<in> set evs"
proof -
  let ?s = "sort_key ob_created_at (filter (\<lambda>r. due now r \<and> \<not> locked (ob_id r)) (scan_order pg tab))"
  have "length ?s \<le> length (filter (due now) (scan_order pg tab))"
    unfolding filter_filter [symmetric] length_sort by (rule length_filter_le)
  also have "\<dots> = length (filter (due now) tab)"
    using arg_cong [OF postgres_ok_scan [OF pg, of tab], of "\<lambda>m. size (filter_mset (due now) m)"]
    by (simp flip: size_mset)
  finally have "chosen pg now locked (batch_of n) tab = ?s"
    using room by (simp add: chosen_def)
  then have "r \<in> set (chosen pg now locked (batch_of n) tab)"
    using r by (simp add: set_scan_order [OF pg])
  then show ?thesis
    using arg_cong [OF ClaimPending_Inr(2) [OF pg tab claim], of set_mset] by auto
qed

section \<open>Properties\<close>

text \<open>Rows for the examples: a fresh event with its id, its event id and its time of creation.\<close>

definition example_row :: "int \<Rightarrow> string \<Rightarrow> time \<Rightarrow> outbox_row" where
  "example_row i uuid t =
     \<lparr>ob_id = i, ob_event_id = uuid, ob_aggregate = ''ticket'', ob_aggregate_id = ''t1'',
      ob_event_type = ''ticket.created'', ob_payload = ''{}'', ob_status = Pending,
      ob_created_at = t, ob_sent_at = None, ob_processing_started_at = None, ob_attempts = 0,
      ob_next_retry_at = t, ob_last_error = None, ob_updated_at = t, ob_failed_at = None\<rparr>"

definition example_table :: "outbox_row list" where
  "example_table = [example_row 2 ''b'' 20, example_row 1 ''a'' 10, example_row 3 ''c'' 90]"

lemma example_table_ok: "outbox_ok example_table"
  by (simp add: outbox_ok_def example_table_def example_row_def row_ok_def int4_max_def)

lemmas example_defs = example_table_def example_row_def ClaimPending_def claim_cte_def batch_of_def
  due_def plain_postgres_def sql_update_def claim_row_def scan_Event_def int4_max_def

text \<open>
  C11. A successful \<open>ClaimPending\<close> returns at most a batch of distinct events; each was due and
  not locked, is returned as the update left it (with its attempt counted) and is in the
  table in state processing; every other row is left exactly as it was.
\<close>

theorem ClaimPending_exact:
  assumes "postgres_ok pg" and "outbox_ok tab"
    and "ClaimPending pg oc now locked n tab = (Inr evs, tab')"
  shows "length evs \<le> batch_of n \<and> distinct (map ID evs) \<and>
    (\<forall>e\<in>set evs. \<exists>r\<in>set tab. due now r \<and> \<not> locked (ob_id r) \<and>
       e = scan_Event (claim_row now r) \<and> claim_row now r \<in> set tab') \<and>
    (\<forall>r\<in>set tab. ob_id r \<notin> ID ` set evs \<longrightarrow> r \<in> set tab')"
proof (intro conjI ballI impI)
  note ids = ClaimPending_IDs [OF assms]
  show "length evs \<le> batch_of n"
    using arg_cong [OF ids(1), of size] length_chosen [of pg now locked "batch_of n" tab] by simp
  show "distinct (map ID evs)"
    using distinct_chosen [OF assms(1,2)] ids(1) by (metis mset_eq_imp_distinct_iff)
  show "\<exists>r\<in>set tab. due now r \<and> \<not> locked (ob_id r) \<and> e = scan_Event (claim_row now r) \<and>
      claim_row now r \<in> set tab'" if "e \<in> set evs" for e
    using ClaimPending_event [OF assms that] by blast
  show "r \<in> set tab'" if "r \<in> set tab" "ob_id r \<notin> ID ` set evs" for r
    using that ids(2) by (auto simp: ClaimPending_Inr(1) [OF assms] intro: claim.table_frame)
qed

theorem ClaimPending_exact_witness:
  "\<exists>evs tab'. ClaimPending plain_postgres Success 50 (\<lambda>_. False) 1 example_table = (Inr evs, tab') \<and>
     map ID evs = [1] \<and> length evs \<le> batch_of 1 \<and> example_row 2 ''b'' 20 \<in> set tab'"
proof -
  obtain evs tab' where c: "ClaimPending plain_postgres Success 50 (\<lambda>_. False) 1 example_table = (Inr evs, tab')"
    and ids: "map ID evs = [1]"
    by (simp add: example_defs Let_def)
  have "1 = ID e" if "e \<in> set evs" for e using that ids by auto
  then show ?thesis using ClaimPending_exact [OF plain_postgres_ok example_table_ok c] c ids
    by (auto simp: example_table_def example_row_def)
qed

text \<open>
  C26. Claims are work-conserving and oldest first: if a due, unlocked row was left out, the
  batch is full and no claimed event is younger than it.
\<close>

theorem ClaimPending_oldest_first:
  assumes "postgres_ok pg" and "outbox_ok tab"
    and "ClaimPending pg oc now locked n tab = (Inr evs, tab')"
    and "r \<in> set tab" and "due now r" and "\<not> locked (ob_id r)" and "ob_id r \<notin> ID ` set evs"
  shows "length evs = batch_of n \<and> (\<forall>e\<in>set evs. CreatedAt e \<le> ob_created_at r)"
proof (intro conjI ballI)
  note claim = assms(1-3)
  have r: "r \<notin> set (chosen pg now locked (batch_of n) tab)"
    using assms(7) ClaimPending_IDs(2) [OF claim] by auto
  note left_out = not_chosen [OF assms(1,4-6) r]
  show "length evs = batch_of n"
    using arg_cong [OF ClaimPending_IDs(1) [OF claim], of size] left_out(1) by simp
  show "CreatedAt e \<le> ob_created_at r" if "e \<in> set evs" for e
  proof -
    have "e \<in> (scan_Event \<circ> claim_row now) ` set (chosen pg now locked (batch_of n) tab)"
      using that arg_cong [OF ClaimPending_Inr(2) [OF claim], of set_mset] by simp
    then show ?thesis using left_out(2) by (auto simp: scan_Event_def claim_row_def)
  qed
qed

theorem ClaimPending_oldest_first_witness:
  "\<exists>evs tab'. ClaimPending plain_postgres Success 50 (\<lambda>_. False) 1 example_table = (Inr evs, tab') \<and>
     evs \<noteq> [] \<and> length evs = batch_of 1 \<and> (\<forall>e\<in>set evs. CreatedAt e \<le> 20)"
proof -
  obtain evs tab' where c: "ClaimPending plain_postgres Success 50 (\<lambda>_. False) 1 example_table = (Inr evs, tab')"
    and ids: "map ID evs = [1]"
    by (simp add: example_defs Let_def)
  have "ID ` set evs = {1}" using arg_cong [OF ids, of set] by simp
  then show ?thesis
    using ClaimPending_oldest_first [OF plain_postgres_ok example_table_ok c, of "example_row 2 ''b'' 20"] c ids
    by (auto simp: example_table_def example_row_def due_def)
qed

text \<open>
  C18. No event is handed to two workers: after a claim, a second claim by anyone, at any
  time, that finds the table as the first left it, up to any number of further claims in
  between, returns none of the same events.
\<close>

theorem claims_disjoint:
  assumes "postgres_ok pg" and "outbox_ok tab"
    and "ClaimPending pg oc1 now1 locked1 n1 tab = (Inr evs1, tab1)"
    and "\<forall>c\<in>set cs. \<exists>oc now locked n. c = (oc, now, CallClaim locked n)"
    and "ClaimPending pg oc2 now2 locked2 n2 (fold (run_call pg) cs tab1) = (Inr evs2, tab2)"
  shows "ID ` set evs1 \<inter> ID ` set evs2 = {}"
proof -
  let ?busy = "\<lambda>tab. outbox_ok tab \<and> (\<forall>i\<in>ID ` set evs1. statuses tab i = Some Processing)"
  have "?busy tab1"
  proof (intro conjI ballI)
    show ok: "outbox_ok tab1" using ClaimPending_keeps(1) [OF assms(2)] assms(3) by (metis snd_conv)
    show "statuses tab1 i = Some Processing" if "i \<in> ID ` set evs1" for i
    proof -
      from that obtain e where e: "e \<in> set evs1" "ID e = i" by auto
      from ClaimPending_event [OF assms(1-3) e(1)] obtain r where
        "e = scan_Event (claim_row now1 r)" "claim_row now1 r \<in> set tab1" by blast
      then show ?thesis using e(2) unfolding statuses_Some [OF ok]
        by (intro bexI [of _ "claim_row now1 r"]) (auto simp: scan_Event_def claim_row_def)
    qed
  qed
  moreover have "?busy (fold (run_call pg) cs t)" if "?busy t" for t
    using that assms(4)
  proof (induction cs arbitrary: t)
    case (Cons c cs)
    from Cons.prems(2) obtain oc now locked n where c: "c = (oc, now, CallClaim locked n)" by auto
    have "statuses (run_call pg c t) \<in> {statuses t, outbox_spec (cmd_of pg c t) (statuses t)}"
      using run_call_refines [OF assms(1)] Cons.prems(1) by blast
    then have "\<forall>i\<in>ID ` set evs1. statuses (run_call pg c t) i = Some Processing"
      using Cons.prems(1) by (auto simp: c)
    with Cons show ?case by (simp add: run_call_keeps)
  qed simp
  ultimately have busy: "?busy (fold (run_call pg) cs tab1)" by blast
  have "i \<notin> ID ` set evs2" if "i \<in> ID ` set evs1" for i
  proof
    assume i: "i \<in> ID ` set evs2"
    from busy that obtain r where r: "r \<in> set (fold (run_call pg) cs tab1)" "ob_id r = i"
      "ob_status r = Processing" by (metis (no_types, lifting) statuses_Some)
    then show False using ClaimPending_IDs_due [OF assms(1) _ assms(5) r(1)] busy i by (simp add: due_def)
  qed
  then show ?thesis by blast
qed

theorem claims_disjoint_witness:
  "\<exists>evs1 tab1 evs2 tab2.
     ClaimPending plain_postgres Success 50 (\<lambda>_. False) 1 example_table = (Inr evs1, tab1) \<and>
     ClaimPending plain_postgres Success 60 (\<lambda>_. False) 1 tab1 = (Inr evs2, tab2) \<and>
     evs1 \<noteq> [] \<and> evs2 \<noteq> [] \<and> ID ` set evs1 \<inter> ID ` set evs2 = {}"
proof -
  obtain evs1 tab1 evs2 tab2 where c1: "ClaimPending plain_postgres Success 50 (\<lambda>_. False) 1 example_table = (Inr evs1, tab1)"
    and c2: "ClaimPending plain_postgres Success 60 (\<lambda>_. False) 1 tab1 = (Inr evs2, tab2)"
    and ne: "evs1 \<noteq> []" "evs2 \<noteq> []"
    by (simp add: example_defs Let_def)
  then show ?thesis
    using claims_disjoint [OF plain_postgres_ok example_table_ok c1, of "[]"] by auto
qed

text \<open>
  C19. Crash recovery: if the worker that claimed an event never reports back, the event is
  not lost. Once the processing timeout has passed, \<open>ResetStuck\<close> followed by a claim with
  room in its batch hands it out again, with one more attempt counted.
\<close>

theorem crash_recovery:
  assumes "postgres_ok pg" and "outbox_ok tab"
    and "claim_row t0 r \<in> set tab" and "0 < timeout" and "t0 + timeout + 500 < t1" and "t1 \<le> t2"
    and "ResetStuck Success t1 timeout tab = (Inr k, tab1)"
    and "\<not> locked (ob_id r)" and "length (filter (due t2) tab1) \<le> batch_of n"
    and "ClaimPending pg oc t2 locked n tab1 = (Inr evs, tab2)"
  shows "\<exists>e\<in>set evs. ID e = ob_id r \<and> EventID e = ob_event_id r \<and> Payload e = ob_payload r \<and>
    Attempts e = ob_attempts r + 2"
proof -
  let ?c = "claim_row t0 r"
  have tab1: "tab1 = sql_update (stuck t1 timeout) (reset_row t1) tab"
    using assms(4,7) by (simp add: ResetStuck_def timeout_of_def Let_def)
  have "stuck t1 timeout ?c"
    unfolding claimed_stuck_iff using assms(5) interval_of_close(2) [of timeout] by linarith
  then have in1: "reset_row t1 ?c \<in> set tab1"
    using assms(3) by (auto simp: tab1 set_sql_update)
  have ok1: "outbox_ok tab1" using ResetStuck_keeps(1) [OF assms(2)] assms(7) by (metis snd_conv)
  have "due t2 (reset_row t1 ?c)" "ob_id (reset_row t1 ?c) = ob_id r"
    using assms(6) by (simp_all add: due_def reset_row_def claim_row_def)
  then have "scan_Event (claim_row t2 (reset_row t1 ?c)) \<in> set evs"
    using ClaimPending_takes_all [OF assms(1) ok1 assms(10) in1] assms(8,9) by simp
  then show ?thesis
    by (rule bexI [rotated]) (simp add: scan_Event_def row_defs)
qed

theorem crash_recovery_witness:
  "\<exists>evs tab2. ClaimPending plain_postgres Success 4000 (\<lambda>_. False) 5
       (snd (ResetStuck Success 3000 1000 [claim_row 10 (example_row 1 ''a'' 5)])) = (Inr evs, tab2) \<and>
     (\<exists>e\<in>set evs. ID e = 1 \<and> Attempts e = 2)"
proof -
  let ?tab = "[claim_row 10 (example_row 1 ''a'' 5)]"
  have ok: "outbox_ok ?tab" by (simp add: outbox_ok_def row_ok_def example_row_def claim_row_def int4_max_def)
  obtain k tab1 where r: "ResetStuck Success 3000 1000 ?tab = (Inr k, tab1)" by (simp add: ResetStuck_def Let_def)
  then have room: "length (filter (due 4000) tab1) \<le> batch_of 5"
    by (auto simp: ResetStuck_def Let_def sql_update_def batch_of_def)
  obtain evs tab2 where c: "ClaimPending plain_postgres Success 4000 (\<lambda>_. False) 5 tab1 = (Inr evs, tab2)"
    using r by (auto simp: example_defs Let_def ResetStuck_def stuck_def reset_row_def timeout_of_def interval_of_def)
  show ?thesis
    using crash_recovery [OF plain_postgres_ok ok _ _ _ _ r _ room c, of 10 "example_row 1 ''a'' 5"] c r
    by (auto simp: example_row_def)
qed

text \<open>
  Exclusive lease: \<open>ResetStuck\<close> takes no row away from a worker whose claim is younger
  than the timeout (up to the half microsecond by which the interval is rounded), whatever
  the outcome of the call.
\<close>

theorem lease_respected:
  assumes "claim_row t0 r \<in> set tab" and "0 < timeout" and "t1 \<le> t0 + timeout - 500"
  shows "claim_row t0 r \<in> set (snd (ResetStuck oc t1 timeout tab))"
proof -
  have "\<not> stuck t1 timeout (claim_row t0 r)"
    unfolding claimed_stuck_iff using assms(3) interval_of_close(1) [of timeout] by linarith
  then have "claim_row t0 r \<in> set (sql_update (stuck t1 timeout) (reset_row t1) tab)"
    using assms(1) by (auto simp: set_sql_update)
  then show ?thesis
    unfolding ResetStuck_def timeout_of_def Let_def
    by (intro exec_keeps [where I = "\<lambda>t. claim_row t0 r \<in> set t"]) (use assms in auto)
qed

theorem lease_respected_witness:
  "claim_row 10 (example_row 1 ''a'' 5) \<in>
     set (snd (ResetStuck Success 1000 5000 [claim_row 10 (example_row 1 ''a'' 5)]))"
  using lease_respected [of 10 "example_row 1 ''a'' 5" "[claim_row 10 (example_row 1 ''a'' 5)]" 5000 1000 Success]
  by simp

text \<open>
  C24. Any sequence of store calls, by any number of workers, with any outcomes and times,
  keeps the table's keys unique, its bookkeeping columns consistent with the status, and
  the events themselves (ids, types, payloads, times) untouched and in place.
\<close>

theorem outbox_calls_invariant:
  assumes "outbox_ok tab"
  shows "outbox_ok (fold (run_call pg) cs tab) \<and> same_events tab (fold (run_call pg) cs tab)"
  using assms
proof (induction cs arbitrary: tab)
  case (Cons c cs)
  then show ?case using run_call_keeps [of tab pg c] by (auto intro: same_events_trans)
qed simp

theorem outbox_calls_invariant_witness:
  "outbox_ok (fold (run_call plain_postgres) [(Success, 50, CallClaim (\<lambda>_. False) 2), (Success, 60, CallSent 1)]
     example_table)"
  using outbox_calls_invariant [OF example_table_ok] by blast

text \<open>
  The lag is the age of the oldest pending event, and 0 when nothing is pending.
\<close>

theorem LagSeconds_oldest:
  "\<exists>l. LagSeconds Success now tab = Inr l \<and>
     (if \<exists>r\<in>set tab. ob_status r = Pending
      then (\<exists>r\<in>set tab. ob_status r = Pending \<and> l = now - ob_created_at r) \<and>
           \<not> (\<exists>r\<in>set tab. ob_status r = Pending \<and> l < now - ob_created_at r)
      else l = 0)"
proof (cases "sort_key ob_created_at (filter (\<lambda>r. ob_status r = Pending) tab)")
  case Nil
  then have "set (filter (\<lambda>r. ob_status r = Pending) tab) = {}" by (metis set_sort list.set(1))
  then show ?thesis using Nil by (auto simp: LagSeconds_def)
next
  case (Cons r rs)
  then have set: "set (r # rs) = {r \<in> set tab. ob_status r = Pending}" by (metis set_filter set_sort)
  have "sorted (map ob_created_at (r # rs))" using Cons by (metis sorted_sort_key)
  then have "ob_created_at r \<le> ob_created_at r'" if "r' \<in> set tab" "ob_status r' = Pending" for r'
    using that set by (auto simp: set_eq_iff)
  moreover have "r \<in> set tab" "ob_status r = Pending" using set by auto
  ultimately show ?thesis using Cons by (force simp: LagSeconds_def)
qed

text \<open>
  C32. None of the closing updates looks at the state it finds: a worker whose lease has
  expired and who reports a failure late puts an event that another worker has already
  sent back to pending, where the next claim finds it.
\<close>

theorem stale_MarkFailed_reopens:
  assumes "outbox_ok tab" and "r \<in> set tab" and "ob_status r = Sent" and "text_ok pg err"
    and "MarkFailed pg Success now (ob_id r) t err tab = (res, tab')"
  shows "res = Inr () \<and> statuses tab (ob_id r) = Some Sent \<and> statuses tab' (ob_id r) = Some Pending"
proof -
  have "statuses tab (ob_id r) = Some Sent" using assms(2,3) by (auto simp: statuses_Some [OF assms(1)])
  then show ?thesis
    using assms(4,5) by (auto simp: MarkFailed_def failed_to.table_point [OF assms(1)])
qed

theorem stale_MarkFailed_reopens_witness:
  "\<exists>tab'. MarkFailed plain_postgres Success 70 1 99 ''kafka: EOF'' [sent_row 60 (example_row 1 ''a'' 5)] = (Inr (), tab') \<and>
     statuses tab' 1 = Some Pending"
proof -
  let ?r = "sent_row 60 (example_row 1 ''a'' 5)"
  have ok: "outbox_ok [?r]" by (simp add: outbox_ok_def row_ok_def example_row_def sent_row_def int4_max_def)
  obtain res tab' where m: "MarkFailed plain_postgres Success 70 (ob_id ?r) 99 ''kafka: EOF'' [?r] = (res, tab')"
    by fastforce
  have i: "ob_id ?r = 1" by (simp add: sent_row_def example_row_def)
  show ?thesis
    using stale_MarkFailed_reopens [OF ok _ _ _ m] m unfolding i by (simp add: sent_row_def plain_postgres_def)
qed

end
