(* ===== verification/Notify_Store.thy ===== *)
theory Notify_Store
  imports Postgres
begin

text \<open>
  The table \<open>processed_events\<close> (\<open>migrations/0005\<close>, \<open>0007\<close>) and the store of
  \<open>internal/notify/store.go\<close>, which make the consumer idempotent. As in the outbox
  store, every method takes the outcome of its round trip and the server's \<open>now()\<close>.
\<close>

section \<open>Data\<close>

datatype proc_status = PProcessing | PDone | PFailed

record processed_row =
  pe_event_id :: string
  pe_event_type :: string
  pe_aggregate :: string
  pe_aggregate_id :: string
  pe_payload :: string
  pe_status :: proc_status
  pe_attempts :: int
  pe_first_seen_at :: time
  pe_updated_at :: time
  pe_processed_at :: "time option"
  pe_last_error :: "string option"
  pe_failed_at :: "time option"

text \<open>
  The fields of \<open>ProcessedEvent\<close> that callers fill and \<open>StartProcessing\<close> reads; a nil
  payload is \<open>None\<close>.
\<close>

record ProcessedEvent =
  p_EventID :: string
  p_EventType :: string
  p_Aggregate :: string
  p_AggregateID :: string
  p_Payload :: "string option"

section \<open>Operations\<close>

text \<open>\<open>ON CONFLICT (event_id) DO UPDATE\<close>: finished events keep status and count.\<close>

definition finished :: "proc_status \<Rightarrow> bool" where
  "finished st \<longleftrightarrow> st = PDone \<or> st = PFailed"

definition restart_row :: "time \<Rightarrow> processed_row \<Rightarrow> processed_row" where
  "restart_row now r = r\<lparr>
     pe_attempts := (if finished (pe_status r) then pe_attempts r else pe_attempts r + 1),
     pe_status := (if finished (pe_status r) then pe_status r else PProcessing),
     pe_updated_at := now\<rparr>"

definition fresh_row :: "time \<Rightarrow> string \<Rightarrow> string \<Rightarrow> ProcessedEvent \<Rightarrow> processed_row" where
  "fresh_row now uuid payload e =
     \<lparr>pe_event_id = uuid, pe_event_type = p_EventType e, pe_aggregate = p_Aggregate e,
      pe_aggregate_id = p_AggregateID e, pe_payload = payload, pe_status = PProcessing,
      pe_attempts = 1, pe_first_seen_at = now, pe_updated_at = now, pe_processed_at = None,
      pe_last_error = None, pe_failed_at = None\<rparr>"

text \<open>
  The upsert. The server first reads the parameters as values of the columns' types; then
  the row is inserted or, if its key exists, updated, and its status and count are returned.
\<close>

definition upsert ::
  "'r postgres \<Rightarrow> time \<Rightarrow> ProcessedEvent \<Rightarrow> processed_row list \<Rightarrow>
   go_error + (proc_status \<times> int) \<times> processed_row list" where
  "upsert pg now e tab =
     (case uuid_in pg (p_EventID e) of
        None \<Rightarrow> Inl invalid_uuid
      | Some uuid \<Rightarrow>
          if \<not> (text_ok pg (p_EventType e) \<and> text_ok pg (p_Aggregate e) \<and> text_ok pg (p_AggregateID e))
          then Inl invalid_text
          else case p_Payload e of
            None \<Rightarrow> Inl not_null_violation
          | Some raw \<Rightarrow>
              (case jsonb_in pg raw of
                 None \<Rightarrow> Inl invalid_json
               | Some payload \<Rightarrow>
                   (case find (\<lambda>r. pe_event_id r = uuid) tab of
                      None \<Rightarrow> Inr ((PProcessing, 1), tab @ [fresh_row now uuid payload e])
                    | Some r \<Rightarrow>
                        if \<not> finished (pe_status r) \<and> int4_max \<le> pe_attempts r then Inl int4_overflow
                        else Inr ((pe_status (restart_row now r), pe_attempts (restart_row now r)),
                                  sql_update (\<lambda>r. pe_event_id r = uuid) (restart_row now) tab))))"

text \<open>Result: whether to process, the count of attempts, and the status.\<close>

definition StartProcessing ::
  "'r postgres \<Rightarrow> outcome \<Rightarrow> time \<Rightarrow> ProcessedEvent \<Rightarrow> processed_row list \<Rightarrow>
   (go_error + bool \<times> int \<times> proc_status) \<times> processed_row list" where
  "StartProcessing pg oc now e tab =
     (case exec oc tab (upsert pg now e tab) of
        (Inl err, tab') \<Rightarrow> (Inl err, tab')
      | (Inr (status, attempts), tab') \<Rightarrow>
          if status = PDone \<or> status = PFailed then (Inr (False, attempts, status), tab')
          else (Inr (True, attempts, status), tab'))"

text \<open>The three updates by key; the key is read as a \<open>uuid\<close> first.\<close>

definition by_event_id ::
  "'r postgres \<Rightarrow> string \<Rightarrow> (processed_row \<Rightarrow> processed_row) \<Rightarrow> processed_row list \<Rightarrow>
   go_error + unit \<times> processed_row list" where
  "by_event_id pg eventID upd tab =
     (case uuid_in pg eventID of
        None \<Rightarrow> Inl invalid_uuid
      | Some uuid \<Rightarrow> Inr ((), sql_update (\<lambda>r. pe_event_id r = uuid) upd tab))"

definition done_row :: "time \<Rightarrow> processed_row \<Rightarrow> processed_row" where
  "done_row now r = r\<lparr>pe_status := PDone, pe_processed_at := Some now, pe_last_error := None,
     pe_updated_at := now\<rparr>"

definition notify_MarkDone ::
  "'r postgres \<Rightarrow> outcome \<Rightarrow> time \<Rightarrow> string \<Rightarrow> processed_row list \<Rightarrow>
   (go_error + unit) \<times> processed_row list" where
  "notify_MarkDone pg oc now eventID tab = exec oc tab (by_event_id pg eventID (done_row now) tab)"

definition retry_row :: "time \<Rightarrow> string \<Rightarrow> processed_row \<Rightarrow> processed_row" where
  "retry_row now errMsg r = r\<lparr>pe_status := PProcessing, pe_last_error := Some errMsg,
     pe_updated_at := now\<rparr>"

definition notify_MarkFailed ::
  "'r postgres \<Rightarrow> outcome \<Rightarrow> time \<Rightarrow> string \<Rightarrow> string \<Rightarrow> processed_row list \<Rightarrow>
   (go_error + unit) \<times> processed_row list" where
  "notify_MarkFailed pg oc now eventID errMsg tab =
     exec oc tab (if text_ok pg errMsg then by_event_id pg eventID (retry_row now errMsg) tab
                  else Inl invalid_text)"

definition buried_row :: "time \<Rightarrow> string \<Rightarrow> processed_row \<Rightarrow> processed_row" where
  "buried_row now errMsg r = r\<lparr>pe_status := PFailed,
     pe_failed_at := (case pe_failed_at r of None \<Rightarrow> Some now | Some t \<Rightarrow> Some t),
     pe_last_error := Some errMsg, pe_updated_at := now\<rparr>"

definition notify_MarkDead ::
  "'r postgres \<Rightarrow> outcome \<Rightarrow> time \<Rightarrow> string \<Rightarrow> string \<Rightarrow> processed_row list \<Rightarrow>
   (go_error + unit) \<times> processed_row list" where
  "notify_MarkDead pg oc now eventID errMsg tab =
     exec oc tab (if text_ok pg errMsg then by_event_id pg eventID (buried_row now errMsg) tab
                  else Inl invalid_text)"

declare restart_row_def [row_defs] done_row_def [row_defs] retry_row_def [row_defs]
  buried_row_def [row_defs] fresh_row_def [row_defs]

section \<open>Invariant\<close>

definition prow_ok :: "processed_row \<Rightarrow> bool" where
  "prow_ok r \<longleftrightarrow>
     (pe_status r = PDone \<longrightarrow> pe_processed_at r \<noteq> None \<and> pe_last_error r = None) \<and>
     (pe_status r = PFailed \<longrightarrow> pe_failed_at r \<noteq> None \<and> pe_last_error r \<noteq> None) \<and>
     1 \<le> pe_attempts r \<and> pe_attempts r \<le> int4_max"

definition processed_ok :: "processed_row list \<Rightarrow> bool" where
  "processed_ok tab \<longleftrightarrow> distinct (map pe_event_id tab) \<and> (\<forall>r\<in>set tab. prow_ok r)"

text \<open>
  What every update by key keeps: the key, and the invariant of the row. A finished event is
  touched by \<open>StartProcessing\<close> in its time stamp only.
\<close>

locale prow_update =
  fixes guard :: "processed_row \<Rightarrow> bool" and upd :: "processed_row \<Rightarrow> processed_row"
  assumes upd_key: "pe_event_id (upd r) = pe_event_id r"
    and upd_prow_ok: "prow_ok r \<Longrightarrow> guard r \<Longrightarrow> prow_ok (upd r)"
begin

lemma ptable_ok:
  assumes "processed_ok tab" and "\<And>r. r \<in> set tab \<Longrightarrow> c r \<Longrightarrow> guard r"
  shows "processed_ok (sql_update c upd tab)"
  using assms by (auto simp: processed_ok_def Ball_sql_update upd_prow_ok upd_key map_sql_update_id)

lemma by_event_id_ok:
  assumes "processed_ok tab" and "\<And>r. guard r" and "by_event_id pg eid upd tab = Inr (u, tab')"
  shows "processed_ok tab'"
  using assms ptable_ok by (auto simp: by_event_id_def split: option.splits)

end

interpretation restart: prow_update "\<lambda>r. finished (pe_status r) \<or> pe_attempts r < int4_max" "restart_row now" for now
  by unfold_locales (auto simp: prow_ok_def row_defs finished_def)

interpretation done_upd: prow_update "\<lambda>_. True" "done_row now" for now
  by unfold_locales (auto simp: prow_ok_def row_defs)

interpretation retry: prow_update "\<lambda>_. True" "retry_row now err" for now err
  by unfold_locales (auto simp: prow_ok_def row_defs)

interpretation buried: prow_update "\<lambda>_. True" "buried_row now err" for now err
  by unfold_locales (auto simp: prow_ok_def row_defs split: option.splits)

lemma find_key_in:
  "find (\<lambda>r. k r = x) tab = Some r \<Longrightarrow> r \<in> set tab \<and> k r = x"
  by (auto simp: find_Some_iff)

lemma find_key_distinct:
  assumes "distinct (map k tab)" and "r \<in> set tab" and "k r = x"
  shows "find (\<lambda>r. k r = x) tab = Some r"
  using assms by (induction tab) auto

lemma upsert_cases:
  assumes "upsert pg now e tab = Inr (res, tab')"
  obtains (insert) uuid payload where "uuid_in pg (p_EventID e) = Some uuid"
      "find (\<lambda>r. pe_event_id r = uuid) tab = None" "res = (PProcessing, 1)"
      "tab' = tab @ [fresh_row now uuid payload e]"
    | (update) uuid r where "uuid_in pg (p_EventID e) = Some uuid"
      "find (\<lambda>r. pe_event_id r = uuid) tab = Some r"
      "finished (pe_status r) \<or> pe_attempts r < int4_max"
      "res = (pe_status (restart_row now r), pe_attempts (restart_row now r))"
      "tab' = sql_update (\<lambda>r. pe_event_id r = uuid) (restart_row now) tab"
  using assms by (auto simp: upsert_def not_le split: option.splits if_splits)

lemma upsert_ok:
  assumes tab: "processed_ok tab" and up: "upsert pg now e tab = Inr (res, tab')"
  shows "processed_ok tab'"
  using up
proof (cases rule: upsert_cases)
  case (insert uuid payload)
  then have "uuid \<notin> pe_event_id ` set tab" by (auto simp: find_None_iff)
  with tab show ?thesis
    by (auto simp: insert(4) processed_ok_def prow_ok_def row_defs int4_max_def)
next
  case (update uuid r)
  have "r' = r" if "r' \<in> set tab" "pe_event_id r' = uuid" for r'
    using that find_key_in [OF update(2)] tab distinct_key_eq by (fastforce simp: processed_ok_def)
  with update(3) show ?thesis unfolding update(5) by (intro restart.ptable_ok [OF tab]) auto
qed

lemma notify_store_keeps:
  assumes "processed_ok tab"
  shows "processed_ok (snd (StartProcessing pg oc now e tab))"
    and "processed_ok (snd (notify_MarkDone pg oc now eid tab))"
    and "processed_ok (snd (notify_MarkFailed pg oc now eid err tab))"
    and "processed_ok (snd (notify_MarkDead pg oc now eid err tab))"
proof -
  have "processed_ok (snd (exec oc tab (upsert pg now e tab)))"
    by (rule exec_keeps) (use assms upsert_ok in auto)
  then show "processed_ok (snd (StartProcessing pg oc now e tab))"
    by (auto simp: StartProcessing_def split: prod.splits sum.splits)
qed (auto simp: notify_MarkDone_def notify_MarkFailed_def notify_MarkDead_def assms
    intro!: exec_keeps [where I = processed_ok] split: if_splits
    dest: done_upd.by_event_id_ok [OF assms TrueI] retry.by_event_id_ok [OF assms TrueI]
      buried.by_event_id_ok [OF assms TrueI])

section \<open>One event's row\<close>

definition row_of :: "string \<Rightarrow> processed_row list \<Rightarrow> processed_row option" where
  "row_of u tab = find (\<lambda>r. pe_event_id r = u) tab"

lemma find_sql_update:
  "(\<And>r. k (upd r) = k r) \<Longrightarrow>
   find (\<lambda>r. k r = u) (sql_update (\<lambda>r. k r = v) upd tab) =
     (if u = v then map_option upd (find (\<lambda>r. k r = u) tab) else find (\<lambda>r. k r = u) tab)"
  by (induction tab) (auto simp: sql_update_def)

lemma find_key_append:
  "find (\<lambda>r. k r = u) (tab @ [x]) =
     (case find (\<lambda>r. k r = u) tab of None \<Rightarrow> if k x = u then Some x else None | Some r \<Rightarrow> Some r)"
  by (induction tab) auto

lemmas row_of_update =
  find_sql_update [of pe_event_id, OF restart.upd_key, folded row_of_def]
  find_sql_update [of pe_event_id, OF done_upd.upd_key, folded row_of_def]
  find_sql_update [of pe_event_id, OF retry.upd_key, folded row_of_def]
  find_sql_update [of pe_event_id, OF buried.upd_key, folded row_of_def]

text \<open>An event is settled when its row is finished; nothing but its own updates moves it.\<close>

definition settled :: "string \<Rightarrow> proc_status \<Rightarrow> int \<Rightarrow> processed_row list \<Rightarrow> bool" where
  "settled u st n tab \<longleftrightarrow>
     finished st \<and> (\<exists>r. row_of u tab = Some r \<and> pe_status r = st \<and> pe_attempts r = n)"

lemma StartProcessing_snd: "snd (StartProcessing pg oc now e tab) = snd (exec oc tab (upsert pg now e tab))"
  by (auto simp: StartProcessing_def split: prod.splits sum.splits)

lemma StartProcessing_settled:
  assumes "settled u st n tab"
  shows "settled u st n (snd (StartProcessing pg oc now e tab))"
  unfolding StartProcessing_snd
proof (rule exec_keeps [where I = "settled u st n", OF assms])
  fix res tab'
  assume "upsert pg now e tab = Inr (res, tab')"
  then show "settled u st n tab'"
  proof (cases rule: upsert_cases)
    case (insert uuid payload)
    then show ?thesis using assms by (auto simp: settled_def row_of_def find_key_append)
  next
    case (update uuid r)
    then show ?thesis using assms by (auto simp: settled_def row_of_update row_defs)
  qed
qed

lemma StartProcessing_skips:
  assumes "settled u st n tab" and "uuid_in pg (p_EventID e) = Some u"
    and "fst (StartProcessing pg oc now e tab) = Inr (go, n', st')"
  shows "\<not> go"
proof -
  obtain res tab' where "exec oc tab (upsert pg now e tab) = (res, tab')" by (rule prod.exhaust)
  with assms(3) have "upsert pg now e tab = Inr ((st', n'), tab')" "go \<longleftrightarrow> \<not> finished st'"
    by (auto simp: StartProcessing_def exec_Inr finished_def split: sum.splits prod.splits if_splits)
  moreover from this(1) have "finished st'"
    by (cases rule: upsert_cases) (use assms(1,2) in \<open>auto simp: settled_def row_of_def row_defs\<close>)
  ultimately show ?thesis by simp
qed

lemma by_event_id_settled:
  assumes "settled u st n tab" and "uuid_in pg i \<noteq> Some u" and "\<And>r. pe_event_id (upd r) = pe_event_id r"
    and "by_event_id pg i upd tab = Inr (x, tab')"
  shows "settled u st n tab'"
  using assms find_sql_update [of pe_event_id upd u "the (uuid_in pg i)" tab]
  by (auto simp: by_event_id_def settled_def row_of_def split: option.splits)

lemma marks_settled:
  assumes "settled u st n tab" and "uuid_in pg i \<noteq> Some u"
  shows "settled u st n (snd (notify_MarkDone pg oc now i tab))"
    and "settled u st n (snd (notify_MarkFailed pg oc now i msg tab))"
    and "settled u st n (snd (notify_MarkDead pg oc now i msg tab))"
  unfolding notify_MarkDone_def notify_MarkFailed_def notify_MarkDead_def
  by (rule exec_keeps [where I = "settled u st n", OF assms(1)],
      auto split: if_split_asm intro: by_event_id_settled [OF assms] done_upd.upd_key retry.upd_key buried.upd_key)+

text \<open>A statement for one event leaves the rows of the others as they are.\<close>

lemma exec_row_of:
  "(\<And>r tab'. stmt = Inr (r, tab') \<Longrightarrow> row_of v tab' = row_of v tab) \<Longrightarrow>
   row_of v (snd (exec oc tab stmt)) = row_of v tab"
  by (rule exec_keeps [where I = "\<lambda>t. row_of v t = row_of v tab"]) auto

lemma StartProcessing_other:
  assumes "uuid_in pg (p_EventID e) \<noteq> Some v"
  shows "row_of v (snd (StartProcessing pg oc now e tab)) = row_of v tab"
  unfolding StartProcessing_snd
proof (rule exec_row_of)
  fix res tab'
  assume "upsert pg now e tab = Inr (res, tab')"
  then show "row_of v tab' = row_of v tab"
  proof (cases rule: upsert_cases)
    case (insert uuid payload)
    then show ?thesis using assms by (auto simp: row_of_def find_key_append row_defs split: option.splits)
  next
    case (update uuid r)
    then show ?thesis using assms by (auto simp: row_of_update)
  qed
qed

lemma marks_other:
  assumes "uuid_in pg i \<noteq> Some v"
  shows "row_of v (snd (notify_MarkDone pg oc now i tab)) = row_of v tab"
    and "row_of v (snd (notify_MarkFailed pg oc now i msg tab)) = row_of v tab"
    and "row_of v (snd (notify_MarkDead pg oc now i msg tab)) = row_of v tab"
  unfolding notify_MarkDone_def notify_MarkFailed_def notify_MarkDead_def by_event_id_def
  by (rule exec_row_of, use assms in \<open>auto simp: row_of_update split: if_split_asm option.splits\<close>)+

end
