(* ===== verification/Go_Strings.thy ===== *)
theory Go_Strings
  imports Prelude
begin

text \<open>
  The functions of Go's \<open>strings\<close>, \<open>strconv\<close> and \<open>time\<close> packages that the program
  uses. A Go string is a sequence of bytes, here a list of \<open>char\<close> (eight bits each), so
  \<open>len\<close> is \<open>length\<close> and text outside ASCII is its UTF-8 encoding.
\<close>

section \<open>Trimming white space\<close>

definition byte :: "char \<Rightarrow> nat" where
  "byte c = of_char c"

text \<open>
  The number of bytes of the white-space rune at the front of a string, 0 if there is none.
  The runes are the ones of \<open>unicode.IsSpace\<close>: tab to carriage return and space, U+0085 and
  U+00A0 (two bytes), U+1680, U+2000 to U+200A, U+2028, U+2029, U+202F, U+205F and U+3000
  (three bytes).
\<close>

definition space1 :: "nat \<Rightarrow> bool" where
  "space1 a \<longleftrightarrow> 9 \<le> a \<and> a \<le> 13 \<or> a = 32"

definition space2 :: "nat \<Rightarrow> nat \<Rightarrow> bool" where
  "space2 a b \<longleftrightarrow> a = 194 \<and> (b = 133 \<or> b = 160)"

definition space3 :: "nat \<Rightarrow> nat \<Rightarrow> nat \<Rightarrow> bool" where
  "space3 a b c \<longleftrightarrow>
     a = 225 \<and> b = 154 \<and> c = 128 \<or>
     a = 226 \<and> b = 128 \<and> (128 \<le> c \<and> c \<le> 138 \<or> c = 168 \<or> c = 169 \<or> c = 175) \<or>
     a = 226 \<and> b = 129 \<and> c = 159 \<or>
     a = 227 \<and> b = 128 \<and> c = 128"

fun space_width :: "string \<Rightarrow> nat" where
  "space_width [] = 0"
| "space_width [a] = (if space1 (byte a) then 1 else 0)"
| "space_width [a, b] =
     (if space1 (byte a) then 1 else if space2 (byte a) (byte b) then 2 else 0)"
| "space_width (a # b # c # s) =
     (if space1 (byte a) then 1 else if space2 (byte a) (byte b) then 2
      else if space3 (byte a) (byte b) (byte c) then 3 else 0)"

lemma space_width_bounds: "space_width s \<le> length s" "space_width s \<le> 3"
  by (cases s rule: space_width.cases; simp)+

lemma drop_space_shorter: "space_width s \<noteq> 0 \<Longrightarrow> length (drop (space_width s) s) < length s"
  by (cases s) auto

function TrimLeft :: "string \<Rightarrow> string" where
  "TrimLeft s = (if space_width s = 0 then s else TrimLeft (drop (space_width s) s))"
  by pat_completeness auto
termination
  by (relation "measure length") (use drop_space_shorter in auto)

declare TrimLeft.simps [simp del]

text \<open>The width of the white-space rune that ends a string.\<close>

definition ends_in_space :: "nat \<Rightarrow> string \<Rightarrow> bool" where
  "ends_in_space k s \<longleftrightarrow> k \<le> length s \<and> space_width (drop (length s - k) s) = k"

definition last_space_width :: "string \<Rightarrow> nat" where
  "last_space_width s =
     (if ends_in_space 1 s then 1 else if ends_in_space 2 s then 2
      else if ends_in_space 3 s then 3 else 0)"

function TrimRight :: "string \<Rightarrow> string" where
  "TrimRight s =
     (if last_space_width s = 0 then s else TrimRight (take (length s - last_space_width s) s))"
  by pat_completeness auto
termination
  by (relation "measure length") (auto simp: last_space_width_def ends_in_space_def split: if_splits)

declare TrimRight.simps [simp del]

definition TrimSpace :: "string \<Rightarrow> string" where
  "TrimSpace s = TrimRight (TrimLeft s)"

lemma space_width_TrimLeft: "space_width (TrimLeft s) = 0"
proof (induction s rule: TrimLeft.induct)
  case (1 s)
  then show ?case by (cases "space_width s = 0") (simp_all add: TrimLeft.simps [of s])
qed

lemma last_space_width_TrimRight: "last_space_width (TrimRight s) = 0"
proof (induction s rule: TrimRight.induct)
  case (1 s)
  then show ?case by (cases "last_space_width s = 0") (simp_all add: TrimRight.simps [of s])
qed

lemma TrimRight_prefix: "\<exists>n. TrimRight s = take n s"
proof (induction s rule: TrimRight.induct)
  case (1 s)
  show ?case
  proof (cases "last_space_width s = 0")
    case True
    then have "TrimRight s = take (length s) s" by (simp add: TrimRight.simps [of s])
    then show ?thesis ..
  next
    case False
    with 1 obtain n where "TrimRight (take (length s - last_space_width s) s) =
        take n (take (length s - last_space_width s) s)" by blast
    with False show ?thesis by (auto simp: TrimRight.simps [of s])
  qed
qed

lemma TrimLeft_suffix: "\<exists>n. TrimLeft s = drop n s"
proof (induction s rule: TrimLeft.induct)
  case (1 s)
  show ?case
  proof (cases "space_width s = 0")
    case True
    then have "TrimLeft s = drop 0 s" by (simp add: TrimLeft.simps [of s])
    then show ?thesis ..
  next
    case False
    with 1 obtain n where "TrimLeft (drop (space_width s) s) = drop n (drop (space_width s) s)"
      by blast
    with False show ?thesis by (auto simp: TrimLeft.simps [of s])
  qed
qed

text \<open>Cutting a string short cannot make a white-space rune appear at its front.\<close>

lemma space_width_take: "space_width s = 0 \<Longrightarrow> space_width (take n s) = 0"
  by (cases s rule: space_width.cases; cases n; cases "n - 1"; cases "n - 2")
     (auto simp: take_Cons split: nat.splits if_splits)

lemma space_width_TrimSpace: "space_width (TrimSpace s) = 0"
  using TrimRight_prefix [of "TrimLeft s"] space_width_TrimLeft [of s]
  by (auto simp: TrimSpace_def space_width_take)

lemma length_TrimSpace: "length (TrimSpace s) \<le> length s"
  using TrimRight_prefix [of "TrimLeft s"] TrimLeft_suffix [of s] by (auto simp: TrimSpace_def)

lemma TrimSpace_fixed: "space_width s = 0 \<Longrightarrow> last_space_width s = 0 \<Longrightarrow> TrimSpace s = s"
  by (simp add: TrimSpace_def TrimLeft.simps [of s] TrimRight.simps [of s])

lemma TrimSpace_idem [simp]: "TrimSpace (TrimSpace s) = TrimSpace s"
  by (rule TrimSpace_fixed)
     (simp_all add: space_width_TrimSpace, simp add: TrimSpace_def last_space_width_TrimRight)

lemma TrimSpace_Nil [simp]: "TrimSpace [] = []"
  using length_TrimSpace [of "[]"] by simp

section \<open>Searching and splitting\<close>

definition HasPrefix :: "string \<Rightarrow> string \<Rightarrow> bool" where
  "HasPrefix s p \<longleftrightarrow> take (length p) s = p"

definition TrimPrefix :: "string \<Rightarrow> string \<Rightarrow> string" where
  "TrimPrefix s p = (if HasPrefix s p then drop (length p) s else s)"

fun Contains :: "string \<Rightarrow> string \<Rightarrow> bool" where
  "Contains [] sub = (sub = [])"
| "Contains (c # s) sub = (HasPrefix (c # s) sub \<or> Contains s sub)"

lemma Contains_iff: "Contains s sub \<longleftrightarrow> (\<exists>u v. s = u @ sub @ v)"
proof (induction s)
  case (Cons c s)
  have "(\<exists>v. c # s = sub @ v) \<longleftrightarrow> HasPrefix (c # s) sub"
    by (metis HasPrefix_def append_eq_conv_conj append_take_drop_id)
  moreover have "(\<exists>u v. c # s = u @ sub @ v) \<longleftrightarrow>
      (\<exists>v. c # s = sub @ v) \<or> (\<exists>u v. s = u @ sub @ v)"
    by (metis append_Cons append_Nil list.inject neq_Nil_conv)
  ultimately show ?case using Cons by simp
qed auto

text \<open>\<open>strings.Cut\<close> at a one-byte separator.\<close>

definition Cut :: "string \<Rightarrow> char \<Rightarrow> string \<times> string \<times> bool" where
  "Cut s sep =
     (case dropWhile (\<lambda>c. c \<noteq> sep) s of
        [] \<Rightarrow> (s, [], False)
      | _ # rest \<Rightarrow> (takeWhile (\<lambda>c. c \<noteq> sep) s, rest, True))"

lemma Cut_found: "Cut s sep = (a, b, True) \<Longrightarrow> s = a @ sep # b \<and> sep \<notin> set a"
  by (induction s arbitrary: a) (auto simp: Cut_def split: list.splits if_splits)

text \<open>\<open>strings.Split\<close> at a one-byte separator.\<close>

fun Split :: "string \<Rightarrow> char \<Rightarrow> string list" where
  "Split [] sep = [[]]"
| "Split (c # s) sep =
     (if c = sep then [] # Split s sep
      else case Split s sep of [] \<Rightarrow> [[c]] | p # ps \<Rightarrow> (c # p) # ps)"

section \<open>Case\<close>

definition lower_byte :: "char \<Rightarrow> char" where
  "lower_byte c = (if 65 \<le> byte c \<and> byte c \<le> 90 then char_of (byte c + 32) else c)"

text \<open>
  \<open>strings.ToLower\<close> as far as a search for ASCII text can see it: ASCII letters, and the
  two runes beyond ASCII whose lower case is ASCII (U+0130 to \<open>i\<close>, U+212A to \<open>k\<close>).
  Every other rune beyond ASCII stays beyond ASCII.
\<close>

fun ToLower :: "string \<Rightarrow> string" where
  "ToLower (a # b # c # s) =
     (if byte a = 196 \<and> byte b = 176 then CHR ''i'' # ToLower (c # s)
      else if byte a = 226 \<and> byte b = 132 \<and> byte c = 170 then CHR ''k'' # ToLower s
      else lower_byte a # ToLower (b # c # s))"
| "ToLower [a, b] =
     (if byte a = 196 \<and> byte b = 176 then [CHR ''i''] else [lower_byte a, lower_byte b])"
| "ToLower [a] = [lower_byte a]"
| "ToLower [] = []"

text \<open>
  The key under which \<open>strings.EqualFold\<close> and the field lookup of \<open>encoding/json\<close>
  compare text when one side is ASCII: ASCII letters without case, the Kelvin sign U+212A as
  \<open>k\<close> and the long s U+017F as \<open>s\<close>.
\<close>

fun fold_key :: "string \<Rightarrow> string" where
  "fold_key (a # b # c # s) =
     (if byte a = 197 \<and> byte b = 191 then CHR ''s'' # fold_key (c # s)
      else if byte a = 226 \<and> byte b = 132 \<and> byte c = 170 then CHR ''k'' # fold_key s
      else lower_byte a # fold_key (b # c # s))"
| "fold_key [a, b] =
     (if byte a = 197 \<and> byte b = 191 then [CHR ''s''] else [lower_byte a, lower_byte b])"
| "fold_key [a] = [lower_byte a]"
| "fold_key [] = []"

definition EqualFold :: "string \<Rightarrow> string \<Rightarrow> bool" where
  "EqualFold s t \<longleftrightarrow> fold_key s = fold_key t"

section \<open>Numbers, truth values and durations\<close>

definition is_digit :: "char \<Rightarrow> bool" where
  "is_digit c \<longleftrightarrow> 48 \<le> byte c \<and> byte c \<le> 57"

definition digit_val :: "char \<Rightarrow> int" where
  "digit_val c = int (byte c) - 48"

definition digits_val :: "string \<Rightarrow> int" where
  "digits_val s = foldl (\<lambda>n c. 10 * n + digit_val c) 0 s"

text \<open>\<open>strconv.Atoi\<close>: an optional sign, decimal digits, and the range of \<open>int64\<close>.\<close>

definition Atoi :: "string \<Rightarrow> int option" where
  "Atoi s =
     (let neg = (take 1 s = ''-'');
          ds = (if take 1 s = ''-'' \<or> take 1 s = ''+'' then drop 1 s else s);
          v = digits_val ds
      in if ds = [] \<or> \<not> list_all is_digit ds then None
         else if neg then (if v \<le> 2 ^ 63 then Some (- v) else None)
         else (if v < 2 ^ 63 then Some v else None))"

definition ParseBool :: "string \<Rightarrow> bool option" where
  "ParseBool s =
     (if s \<in> {''1'', ''t'', ''T'', ''true'', ''TRUE'', ''True''} then Some True
      else if s \<in> {''0'', ''f'', ''F'', ''false'', ''FALSE'', ''False''} then Some False
      else None)"

text \<open>
  \<open>time.ParseDuration\<close>. A value is a sequence of decimal numbers with a unit; the sum has
  to stay within \<open>int64\<close>. The fraction of a number is computed exactly here and rounded
  down, where Go multiplies in \<open>float64\<close>. Digits of the fraction beyond the range of
  \<open>int64\<close> are ignored, as in \<open>leadingFraction\<close>.
\<close>

definition unit_of :: "string \<Rightarrow> int option" where
  "unit_of u =
     (if u = ''ns'' then Some 1
      else if u = ''us'' then Some 1000
      else if u = [char_of (194::nat), char_of (181::nat), CHR ''s''] then Some 1000
      else if u = [char_of (206::nat), char_of (188::nat), CHR ''s''] then Some 1000
      else if u = ''ms'' then Some 1000000
      else if u = ''s'' then Some 1000000000
      else if u = ''m'' then Some 60000000000
      else if u = ''h'' then Some 3600000000000
      else None)"

fun leadingFraction :: "string \<Rightarrow> int \<Rightarrow> int \<Rightarrow> bool \<Rightarrow> int \<times> int" where
  "leadingFraction [] x scale over = (x, scale)"
| "leadingFraction (c # s) x scale over =
     (let y = x * 10 + digit_val c in
      if over then leadingFraction s x scale True
      else if (2 ^ 63 - 1) div 10 < x then leadingFraction s x scale True
      else if 2 ^ 63 < y then leadingFraction s x scale True
      else leadingFraction s y (scale * 10) False)"

lemma length_split_while: "length xs = length (takeWhile P xs) + length (dropWhile P xs)"
  by (metis length_append takeWhile_dropWhile_id)

function parse_duration :: "int \<Rightarrow> string \<Rightarrow> int option" where
  "parse_duration d s =
     (if s = [] then Some d
      else
        let ip = takeWhile is_digit s; s1 = dropWhile is_digit s;
            dot = (take 1 s1 = ''.'');
            fp = (if dot then takeWhile is_digit (drop 1 s1) else []);
            s2 = (if dot then dropWhile is_digit (drop 1 s1) else s1);
            u = takeWhile (\<lambda>c. c \<noteq> CHR ''.'' \<and> \<not> is_digit c) s2;
            s3 = dropWhile (\<lambda>c. c \<noteq> CHR ''.'' \<and> \<not> is_digit c) s2
        in if ip = [] \<and> fp = [] then None
           else if u = [] then None
           else case unit_of u of
                  None \<Rightarrow> None
                | Some unit \<Rightarrow>
                    let v = digits_val ip in
                    if 2 ^ 63 < v \<or> 2 ^ 63 div unit < v then None
                    else
                      let (f, scale) = leadingFraction fp 0 1 False;
                          w = v * unit + f * unit div scale;
                          d' = d + w
                      in if 2 ^ 63 < w \<or> 2 ^ 63 < d' then None else parse_duration d' s3)"
  by pat_completeness auto

termination
proof (relation "measure (\<lambda>(d, s). length s)", goal_cases)
  case (2 d s ip s1 dot fp s2 u s3 unit v xx f scale w d')
  have "length s2 = length u + length s3"
    unfolding 2(7,8) by (rule length_split_while)
  then have "length s3 < length s2" using 2(10) by simp
  also have "length s2 \<le> length s1"
    using 2(6) length_dropWhile_le [of is_digit "drop 1 s1"] by auto
  also have "length s1 \<le> length s" using 2(3) by (simp add: length_dropWhile_le)
  finally show ?case by simp
qed simp

declare parse_duration.simps [simp del]

definition ParseDuration :: "string \<Rightarrow> duration option" where
  "ParseDuration s =
     (let neg = (take 1 s = ''-'');
          r = (if take 1 s = ''-'' \<or> take 1 s = ''+'' then drop 1 s else s)
      in if r = ''0'' then Some 0
         else if r = [] then None
         else case parse_duration 0 r of
                None \<Rightarrow> None
              | Some d \<Rightarrow> if neg then Some (- d)
                          else if 2 ^ 63 - 1 < d then None else Some d)"

end
