(* ===== verification/Go_Json.thy ===== *)
theory Go_Json
  imports Go_Strings
begin

text \<open>
  The part of \<open>encoding/json\<close> the program uses, over bytes: quoting and unquoting of
  strings with the replacement of malformed UTF-8, the grammar of JSON texts with the raw
  text of every object member (what a \<open>json.RawMessage\<close> field receives), the compact
  form a \<open>RawMessage\<close> is written in, the encoding of objects, and the lookup of object
  keys in the fields of a struct.
\<close>

section \<open>UTF-8\<close>

definition cont :: "nat \<Rightarrow> bool" where
  "cont b \<longleftrightarrow> 128 \<le> b \<and> b \<le> 191"

text \<open>The length of the well-formed encoding of a rune at the front of a string, else 0.\<close>

definition width2 :: "nat \<Rightarrow> nat \<Rightarrow> bool" where
  "width2 a b \<longleftrightarrow> 194 \<le> a \<and> a \<le> 223 \<and> cont b"

definition width3 :: "nat \<Rightarrow> nat \<Rightarrow> nat \<Rightarrow> bool" where
  "width3 a b c \<longleftrightarrow> cont c \<and>
     (a = 224 \<and> 160 \<le> b \<and> b \<le> 191 \<or> 225 \<le> a \<and> a \<le> 236 \<and> cont b \<or>
      a = 237 \<and> 128 \<le> b \<and> b \<le> 159 \<or> 238 \<le> a \<and> a \<le> 239 \<and> cont b)"

definition width4 :: "nat \<Rightarrow> nat \<Rightarrow> nat \<Rightarrow> nat \<Rightarrow> bool" where
  "width4 a b c d \<longleftrightarrow> cont c \<and> cont d \<and>
     (a = 240 \<and> 144 \<le> b \<and> b \<le> 191 \<or> 241 \<le> a \<and> a \<le> 243 \<and> cont b \<or>
      a = 244 \<and> 128 \<le> b \<and> b \<le> 143)"

fun rune_width :: "string \<Rightarrow> nat" where
  "rune_width [] = 0"
| "rune_width (a # s) =
     (if byte a < 128 then 1
      else case s of
        [] \<Rightarrow> 0
      | b # s \<Rightarrow>
          if width2 (byte a) (byte b) then 2
          else case s of
            [] \<Rightarrow> 0
          | c # s \<Rightarrow>
              if width3 (byte a) (byte b) (byte c) then 3
              else case s of
                [] \<Rightarrow> 0
              | d # s \<Rightarrow> if width4 (byte a) (byte b) (byte c) (byte d) then 4 else 0)"

text \<open>The encoding of a code point below 0x110000 that is no surrogate.\<close>

definition encode_rune :: "nat \<Rightarrow> string" where
  "encode_rune r =
     (if r < 128 then [char_of r]
      else if r < 2048 then [char_of (192 + r div 64), char_of (128 + r mod 64)]
      else if r < 65536 then
        [char_of (224 + r div 4096), char_of (128 + r div 64 mod 64), char_of (128 + r mod 64)]
      else
        [char_of (240 + r div 262144), char_of (128 + r div 4096 mod 64),
         char_of (128 + r div 64 mod 64), char_of (128 + r mod 64)])"

definition RuneError :: string where
  "RuneError = encode_rune 65533"

section \<open>Strings\<close>

definition hex_digit :: "nat \<Rightarrow> char" where
  "hex_digit n = (if n < 10 then char_of (48 + n) else char_of (87 + n))"

definition hex_val :: "char \<Rightarrow> nat option" where
  "hex_val c =
     (if 48 \<le> byte c \<and> byte c \<le> 57 then Some (byte c - 48)
      else if 97 \<le> byte c \<and> byte c \<le> 102 then Some (byte c - 87)
      else if 65 \<le> byte c \<and> byte c \<le> 70 then Some (byte c - 55)
      else None)"

text \<open>\<open>appendString\<close> with HTML escaping: how one ASCII byte is written.\<close>

definition escape_byte :: "nat \<Rightarrow> string" where
  "escape_byte b =
     (if b = 34 then [CHR 0x5C, CHR 0x22]
      else if b = 92 then [CHR 0x5C, CHR 0x5C]
      else if b = 8 then [CHR 0x5C, CHR ''b'']
      else if b = 12 then [CHR 0x5C, CHR ''f'']
      else if b = 10 then [CHR 0x5C, CHR ''n'']
      else if b = 13 then [CHR 0x5C, CHR ''r'']
      else if b = 9 then [CHR 0x5C, CHR ''t'']
      else if b < 32 \<or> b = 60 \<or> b = 62 \<or> b = 38 then
        [CHR 0x5C, CHR ''u'', CHR ''0'', CHR ''0'', hex_digit (b div 16), hex_digit (b mod 16)]
      else [char_of b])"

definition is_line_sep :: "string \<Rightarrow> bool" where
  "is_line_sep s \<longleftrightarrow> (case s of a # b # c # _ \<Rightarrow>
     byte a = 226 \<and> byte b = 128 \<and> (byte c = 168 \<or> byte c = 169) | _ \<Rightarrow> False)"

lemma rune_width_le: "rune_width s \<le> length s"
  by (cases s rule: rune_width.cases) (auto split: list.splits)

function quote_body :: "string \<Rightarrow> string" where
  "quote_body s =
     (if s = [] then []
      else if byte (hd s) < 128 then escape_byte (byte (hd s)) @ quote_body (tl s)
      else if rune_width s = 0 then CHR 0x5C # ''ufffd'' @ quote_body (tl s)
      else if is_line_sep s then
        CHR 0x5C # ''u202'' @ [hex_digit (byte (s ! 2) mod 16)] @ quote_body (drop 3 s)
      else take (rune_width s) s @ quote_body (drop (rune_width s) s))"
  by pat_completeness auto
termination
  by (relation "measure length") auto

declare quote_body.simps [simp del]

definition quote :: "string \<Rightarrow> string" where
  "quote s = CHR 0x22 # quote_body s @ [CHR 0x22]"

text \<open>\<open>getu4\<close>: four hexadecimal digits.\<close>

fun hex4 :: "string \<Rightarrow> (nat \<times> string) option" where
  "hex4 (a # b # c # d # s) =
     (case (hex_val a, hex_val b, hex_val c, hex_val d) of
        (Some w, Some x, Some y, Some z) \<Rightarrow> Some (((w * 16 + x) * 16 + y) * 16 + z, s)
      | _ \<Rightarrow> None)"
| "hex4 _ = None"

text \<open>
  The rune of an escape \<open>\u\<close> whose digits are read: a high surrogate joins with the low
  surrogate of an escape that follows at once; a surrogate alone is replaced. Gives the
  encoded rune and what follows.
\<close>

definition low_surrogate :: "string \<Rightarrow> (nat \<times> string) option" where
  "low_surrogate s =
     (case s of
        a # b # t \<Rightarrow>
          if a = CHR 0x5C \<and> b = CHR ''u'' then
            (case hex4 t of
               Some (r, u) \<Rightarrow> if 56320 \<le> r \<and> r < 57344 then Some (r, u) else None
             | None \<Rightarrow> None)
          else None
      | _ \<Rightarrow> None)"

definition unicode_escape :: "nat \<Rightarrow> string \<Rightarrow> string \<times> string" where
  "unicode_escape r s =
     (if 55296 \<le> r \<and> r < 57344 then
        (case (if r < 56320 then low_surrogate s else None) of
           Some (r2, u) \<Rightarrow> (encode_rune (65536 + (r - 55296) * 1024 + (r2 - 56320)), u)
         | None \<Rightarrow> (RuneError, s))
      else (encode_rune r, s))"

definition simple_escape :: "char \<Rightarrow> char option" where
  "simple_escape c =
     (if c = CHR 0x22 \<or> c = CHR 0x5C \<or> c = CHR ''/'' then Some c
      else if c = CHR ''b'' then Some (char_of (8::nat))
      else if c = CHR ''f'' then Some (char_of (12::nat))
      else if c = CHR ''n'' then Some (char_of (10::nat))
      else if c = CHR ''r'' then Some (char_of (13::nat))
      else if c = CHR ''t'' then Some (char_of (9::nat))
      else None)"

text \<open>
  The text after an opening quote up to the closing one: the decoded string and the rest.
  The scanner refuses control characters and unknown escapes.
\<close>

lemma hex4_shorter: "hex4 s = Some (r, t) \<Longrightarrow> length t < length s"
  by (cases s rule: hex4.cases) (auto split: option.splits)

lemma unicode_escape_shorter: "length (snd (unicode_escape r s)) \<le> length s"
  by (auto simp: unicode_escape_def low_surrogate_def split: list.splits option.splits
      dest!: hex4_shorter)

function unquote_body :: "string \<Rightarrow> (string \<times> string) option" where
  "unquote_body s =
     (case s of
        [] \<Rightarrow> None
      | c # t \<Rightarrow>
          if c = CHR 0x22 then Some ([], t)
          else if c = CHR 0x5C then
            (case t of
               [] \<Rightarrow> None
             | e # u \<Rightarrow>
                 if e = CHR ''u'' then
                   (case hex4 u of
                      None \<Rightarrow> None
                    | Some (r, v) \<Rightarrow>
                        map_option (\<lambda>(x, y). (fst (unicode_escape r v) @ x, y))
                          (unquote_body (snd (unicode_escape r v))))
                 else (case simple_escape e of
                         None \<Rightarrow> None
                       | Some d \<Rightarrow> map_option (\<lambda>(x, y). (d # x, y)) (unquote_body u)))
          else if byte c < 32 then None
          else if byte c < 128 then map_option (\<lambda>(x, y). (c # x, y)) (unquote_body t)
          else if rune_width s = 0 then
            map_option (\<lambda>(x, y). (RuneError @ x, y)) (unquote_body t)
          else map_option (\<lambda>(x, y). (take (rune_width s) s @ x, y))
                 (unquote_body (drop (rune_width s) s)))"
  by pat_completeness auto
termination
proof (relation "measure length", goal_cases)
  case (2 s c t e u xx r v)
  then show ?case
    using hex4_shorter [of u r v] unicode_escape_shorter [of r v] by (auto simp: order_le_less_trans)
qed auto

declare unquote_body.simps [simp del]

section \<open>Values\<close>

text \<open>
  A parsed value. An object keeps its members in order, duplicates included, each with the
  raw text of its value.
\<close>

datatype json =
    JNull
  | JBool bool
  | JNumber string
  | JString string
  | JArray "json list"
  | JObject "(string \<times> string \<times> json) list"

definition is_ws :: "char \<Rightarrow> bool" where
  "is_ws c \<longleftrightarrow> byte c = 32 \<or> byte c = 9 \<or> byte c = 10 \<or> byte c = 13"

definition skip_ws :: "string \<Rightarrow> string" where
  "skip_ws s = dropWhile is_ws s"

text \<open>
  \<open>-? (0 | [1-9][0-9]*) (. [0-9]+)? ([eE] [+-]? [0-9]+)?\<close>: what is left after the
  longest number at the front, if there is one.
\<close>

definition skip_digits :: "string \<Rightarrow> string option" where
  "skip_digits s = (case s of
     c # t \<Rightarrow> if is_digit c then Some (dropWhile is_digit t) else None | [] \<Rightarrow> None)"

definition skip_int :: "string \<Rightarrow> string option" where
  "skip_int s = (case s of c # t \<Rightarrow> if c = CHR ''0'' then Some t else skip_digits s | [] \<Rightarrow> None)"

definition skip_frac :: "string \<Rightarrow> string option" where
  "skip_frac s = (case s of c # t \<Rightarrow> if c = CHR ''.'' then skip_digits t else Some s | [] \<Rightarrow> Some s)"

definition skip_sign :: "string \<Rightarrow> string" where
  "skip_sign s = (case s of c # t \<Rightarrow> if c = CHR ''+'' \<or> c = CHR ''-'' then t else s | [] \<Rightarrow> s)"

definition skip_exp :: "string \<Rightarrow> string option" where
  "skip_exp s = (case s of
     c # t \<Rightarrow> if c = CHR ''e'' \<or> c = CHR ''E'' then skip_digits (skip_sign t) else Some s
   | [] \<Rightarrow> Some s)"

definition skip_minus :: "string \<Rightarrow> string" where
  "skip_minus s = (case s of c # t \<Rightarrow> if c = CHR ''-'' then t else s | [] \<Rightarrow> s)"

definition skip_number :: "string \<Rightarrow> string option" where
  "skip_number s =
     Option.bind (skip_int (skip_minus s)) (\<lambda>t. Option.bind (skip_frac t) skip_exp)"

text \<open>
  The grammar, with the depth at which the scanner gives up
  (\<open>maxNestingDepth\<close>, 10000) and fuel for the recursion. A parser gives the value and the
  rest of the text. \<open>parse_value\<close> starts at the first byte of the value.
\<close>

definition literal :: "string \<Rightarrow> (json \<times> string) option" where
  "literal s =
     (if HasPrefix s ''null'' then Some (JNull, drop 4 s)
      else if HasPrefix s ''true'' then Some (JBool True, drop 4 s)
      else if HasPrefix s ''false'' then Some (JBool False, drop 5 s)
      else map_option (\<lambda>r. (JNumber (take (length s - length r) s), r)) (skip_number s))"

fun parse_value :: "nat \<Rightarrow> int \<Rightarrow> string \<Rightarrow> (json \<times> string) option"
and parse_elems :: "nat \<Rightarrow> int \<Rightarrow> string \<Rightarrow> (json list \<times> string) option"
and parse_members :: "nat \<Rightarrow> int \<Rightarrow> string \<Rightarrow> ((string \<times> string \<times> json) list \<times> string) option" where
  "parse_value 0 depth s = None"
| "parse_value (Suc n) depth s =
     (case s of
        [] \<Rightarrow> None
      | c # t \<Rightarrow>
          if c = CHR ''{'' then
            (if depth \<le> 0 then None
             else case skip_ws t of
                    [] \<Rightarrow> None
                  | d # u \<Rightarrow>
                      if d = CHR ''}'' then Some (JObject [], u)
                      else map_option (\<lambda>(ms, r). (JObject ms, r)) (parse_members n (depth - 1) (d # u)))
          else if c = CHR ''['' then
            (if depth \<le> 0 then None
             else case skip_ws t of
                    [] \<Rightarrow> None
                  | d # u \<Rightarrow>
                      if d = CHR '']'' then Some (JArray [], u)
                      else map_option (\<lambda>(xs, r). (JArray xs, r)) (parse_elems n (depth - 1) (d # u)))
          else if c = CHR 0x22 then map_option (\<lambda>(x, r). (JString x, r)) (unquote_body t)
          else literal s)"
| "parse_elems 0 depth s = None"
| "parse_elems (Suc n) depth s =
     (case parse_value n depth s of
        None \<Rightarrow> None
      | Some (x, r) \<Rightarrow>
          (case skip_ws r of
             [] \<Rightarrow> None
           | c # t \<Rightarrow>
               if c = CHR '']'' then Some ([x], t)
               else if c = CHR '','' then
                 map_option (\<lambda>(xs, u). (x # xs, u)) (parse_elems n depth (skip_ws t))
               else None))"
| "parse_members 0 depth s = None"
| "parse_members (Suc n) depth s =
     (case s of
        [] \<Rightarrow> None
      | q # t \<Rightarrow>
          if q \<noteq> CHR 0x22 then None
          else case unquote_body t of
            None \<Rightarrow> None
          | Some (k, u) \<Rightarrow>
              (case skip_ws u of
                 [] \<Rightarrow> None
               | c # v \<Rightarrow>
                   if c \<noteq> CHR '':'' then None
                   else case parse_value n depth (skip_ws v) of
                     None \<Rightarrow> None
                   | Some (x, r) \<Rightarrow>
                       let raw = take (length (skip_ws v) - length r) (skip_ws v) in
                       (case skip_ws r of
                          [] \<Rightarrow> None
                        | e # w \<Rightarrow>
                            if e = CHR ''}'' then Some ([(k, raw, x)], w)
                            else if e = CHR '','' then
                              map_option (\<lambda>(ms, y). ((k, raw, x) # ms, y))
                                (parse_members n depth (skip_ws w))
                            else None)))"

definition maxNestingDepth :: int where
  "maxNestingDepth = 10000"

text \<open>
  Every call of the three parsers either consumes a byte or is the one call of
  \<open>parse_value\<close> at the same place, so twice the length of the text is fuel enough.
\<close>

definition json_value :: "string \<Rightarrow> (json \<times> string) option" where
  "json_value s = parse_value (2 * length s + 1) maxNestingDepth s"

text \<open>\<open>checkValid\<close> and the value: one value, white space around it, nothing else.\<close>

definition json_parse :: "string \<Rightarrow> json option" where
  "json_parse s =
     (case json_value (skip_ws s) of
        Some (v, r) \<Rightarrow> if skip_ws r = [] then Some v else None
      | None \<Rightarrow> None)"

section \<open>Writing\<close>

text \<open>
  \<open>appendCompact\<close> with HTML escaping, on text that is valid JSON: white space between
  tokens goes, and inside strings \<open><\<close>, \<open>>\<close>, \<open>&\<close>, U+2028 and U+2029 are escaped.
\<close>

fun strip_string :: "string \<Rightarrow> string"
and strip_json :: "string \<Rightarrow> string" where
  "strip_string [] = []"
| "strip_string (c # s) =
     (if c = CHR 0x22 then c # strip_json s
      else if c = CHR 0x5C then
        (case s of [] \<Rightarrow> [c] | d # t \<Rightarrow> c # d # strip_string t)
      else if byte c = 60 \<or> byte c = 62 \<or> byte c = 38 then
        [CHR 0x5C, CHR ''u'', CHR ''0'', CHR ''0'', hex_digit (byte c div 16), hex_digit (byte c mod 16)]
        @ strip_string s
      else if is_line_sep (c # s) then
        CHR 0x5C # ''u202'' @ [hex_digit (byte ((c # s) ! 2) mod 16)] @ strip_string (drop 2 s)
      else c # strip_string s)"
| "strip_json [] = []"
| "strip_json (c # s) =
     (if is_ws c then strip_json s
      else if c = CHR 0x22 then c # strip_string s
      else c # strip_json s)"

definition json_compact :: "string \<Rightarrow> string option" where
  "json_compact s = (if json_parse s = None then None else Some (strip_json s))"

text \<open>\<open>RawMessage.MarshalJSON\<close> followed by the encoder's check: nil is written \<open>null\<close>.\<close>

definition marshal_raw :: "string option \<Rightarrow> go_error + string" where
  "marshal_raw m =
     (case m of
        None \<Rightarrow> Inr ''null''
      | Some s \<Rightarrow>
          (case json_compact s of
             None \<Rightarrow> Inl (errorString ''json: error calling MarshalJSON for type json.RawMessage'')
           | Some t \<Rightarrow> Inr t))"

text \<open>A struct or map: the fields in the order the encoder meets them.\<close>

fun json_fields :: "(string \<times> string) list \<Rightarrow> string" where
  "json_fields [] = []"
| "json_fields [(k, v)] = quote k @ CHR '':'' # v"
| "json_fields ((k, v) # f # fs) = quote k @ CHR '':'' # v @ CHR '','' # json_fields (f # fs)"

definition json_object :: "(string \<times> string) list \<Rightarrow> string" where
  "json_object fs = CHR ''{'' # json_fields fs @ [CHR ''}'']"

section \<open>Reading into structs\<close>

text \<open>The field a key is stored in: the exact name first, then the name up to case.\<close>

definition json_field :: "string list \<Rightarrow> string \<Rightarrow> string option" where
  "json_field names key =
     (if key \<in> set names then Some key
      else find (\<lambda>n. fold_key n = fold_key key) names)"

text \<open>A written digit is read back.\<close>

lemma hex_val_digit [simp]: "n < 16 \<Longrightarrow> hex_val (hex_digit n) = Some n"
  by (simp add: hex_val_def hex_digit_def byte_def)

end
