(* ===== verification/Go_Time.thy ===== *)
theory Go_Time
  imports Go_Json
begin

text \<open>
  The JSON form of \<open>time.Time\<close>: RFC 3339 with up to nine digits of a second, in the
  location of the value, and the lenient reading of it by \<open>time.Parse\<close>. The offset of a
  location from UTC comes from the host's time zone data, so it is a parameter: a function
  from the instant to minutes east of UTC.
\<close>

section \<open>The calendar\<close>

definition isLeap :: "int \<Rightarrow> bool" where
  "isLeap y \<longleftrightarrow> y mod 4 = 0 \<and> (y mod 100 \<noteq> 0 \<or> y mod 400 = 0)"

text \<open>Days before each month of a year without a leap day.\<close>

definition daysBefore :: "int list" where
  "daysBefore = [0, 31, 59, 90, 120, 151, 181, 212, 243, 273, 304, 334, 365]"

definition daysIn :: "int \<Rightarrow> int \<Rightarrow> int" where
  "daysIn m y =
     (if m = 2 \<and> isLeap y then 29
      else daysBefore ! nat m - daysBefore ! nat (m - 1))"

text \<open>
  Year and day of the year (from 0) of a day counted from January 1 of year 0: cut off
  cycles of 400, 100, 4 years and one year; the last day of a 400-year and of a 4-year
  cycle would start a hundredth or a fifth part that does not exist.
\<close>

definition year_day :: "int \<Rightarrow> int \<times> int" where
  "year_day day0 =
     (let n400 = day0 div 146097; d = day0 mod 146097;
          d0 = d - 366;
          \<comment> \<open>year 0 of a cycle is a leap year; the others are counted from year 1\<close>
          n100 = d0 div 36524; n100 = n100 - n100 div 4; d1 = d0 - 36524 * n100;
          n4 = d1 div 1461; d2 = d1 - 1461 * n4;
          n1 = d2 div 365; n1 = n1 - n1 div 4; d3 = d2 - 365 * n1
      in if d < 366 then (400 * n400, d) else (400 * n400 + 1 + 100 * n100 + 4 * n4 + n1, d3))"

text \<open>Month (from 1) and day (from 1) of a day of the year.\<close>

definition month_day :: "int \<Rightarrow> int \<Rightarrow> int \<times> int" where
  "month_day y yday =
     (if isLeap y \<and> yday = 59 then (2, 29)
      else
        let day = (if isLeap y \<and> 59 < yday then yday - 1 else yday);
            m = day div 31;
            m' = (if daysBefore ! nat (m + 1) \<le> day then m + 1 else m)
        in (m' + 1, day - daysBefore ! nat m' + 1))"

text \<open>Days from January 1 of year 0 to January 1, 1970.\<close>

definition epoch_days :: int where
  "epoch_days = 719528"

definition days_since_year0 :: "int \<Rightarrow> int \<Rightarrow> int \<Rightarrow> int" where
  "days_since_year0 y m d =
     365 * y + (y + 3) div 4 - (y + 99) div 100 + (y + 399) div 400
     + daysBefore ! nat (m - 1) + (if 2 < m \<and> isLeap y then 1 else 0) + d - 1"

section \<open>Formatting\<close>

definition digit :: "int \<Rightarrow> char" where
  "digit n = char_of (nat (48 + n))"

definition two :: "int \<Rightarrow> string" where
  "two n = [digit (n div 10), digit (n mod 10)]"

definition four :: "int \<Rightarrow> string" where
  "four n = two (n div 100) @ two (n mod 100)"

text \<open>The fraction of a second: nine digits, zeros at the end cut off, nothing for a whole second.\<close>

definition nine :: "int \<Rightarrow> string" where
  "nine n = digit (n div 100000000) # four (n div 10000 mod 10000) @ four (n mod 10000)"

definition fraction :: "int \<Rightarrow> string" where
  "fraction nsec =
     (if nsec = 0 then []
      else CHR ''.'' # rev (dropWhile (\<lambda>c. c = CHR ''0'') (rev (nine nsec))))"

definition zone_text :: "int \<Rightarrow> string" where
  "zone_text off =
     (if off = 0 then ''Z''
      else (if off < 0 then CHR ''-'' else CHR ''+'') # two (\<bar>off\<bar> div 60) @ CHR '':'' # two (\<bar>off\<bar> mod 60))"

text \<open>\<open>appendStrictRFC3339\<close>: a year of four digits and a zone below a day.\<close>

definition rfc3339 :: "(time \<Rightarrow> int) \<Rightarrow> time \<Rightarrow> string option" where
  "rfc3339 zone t =
     (let off = zone t;
          local = t + off * Minute;
          nsec = local mod Second;
          sec = local div Second;
          sod = sec mod 86400;
          (y, yday) = year_day (sec div 86400 + epoch_days);
          (m, d) = month_day y yday
      in if y < 0 \<or> 9999 < y \<or> 1440 \<le> \<bar>off\<bar> then None
         else Some (four y @ CHR ''-'' # two m @ CHR ''-'' # two d @ CHR ''T'' #
                    two (sod div 3600) @ CHR '':'' # two (sod div 60 mod 60) @ CHR '':'' #
                    two (sod mod 60) @ fraction nsec @ zone_text off))"

text \<open>\<open>Time.MarshalJSON\<close>\<close>

definition marshal_time :: "(time \<Rightarrow> int) \<Rightarrow> time \<Rightarrow> go_error + string" where
  "marshal_time zone t =
     (case rfc3339 zone t of
        None \<Rightarrow> Inl (errorString ''json: error calling MarshalJSON for type time.Time'')
      | Some s \<Rightarrow> Inr (CHR 0x22 # s @ [CHR 0x22]))"

section \<open>Reading\<close>

text \<open>A fixed number of digits at the front of a text, and the value they have.\<close>

definition take_num :: "nat \<Rightarrow> string \<Rightarrow> (int \<times> string) option" where
  "take_num k s =
     (if k \<le> length s \<and> list_all is_digit (take k s)
      then Some (digits_val (take k s), drop k s) else None)"

text \<open>\<open>getnum\<close> without a fixed width: two digits if there are two, else one.\<close>

definition take_num12 :: "string \<Rightarrow> (int \<times> string) option" where
  "take_num12 s = (case take_num 2 s of None \<Rightarrow> take_num 1 s | Some r \<Rightarrow> Some r)"

definition expect :: "char \<Rightarrow> string \<Rightarrow> string option" where
  "expect c s = (case s of d # t \<Rightarrow> if d = c then Some t else None | [] \<Rightarrow> None)"

text \<open>A fraction after the seconds: a period or comma and at least one digit; nine digits count.\<close>

definition take_frac :: "string \<Rightarrow> int \<times> string" where
  "take_frac s =
     (case s of
        p # d # _ \<Rightarrow>
          if (p = CHR ''.'' \<or> p = CHR '','') \<and> is_digit d
          then (let ds = takeWhile is_digit (tl s);
                    v = take 9 (ds @ replicate 9 (CHR ''0''))
                in (digits_val v, dropWhile is_digit (tl s)))
          else (0, s)
      | _ \<Rightarrow> (0, s))"

definition take_zone :: "string \<Rightarrow> (int \<times> string) option" where
  "take_zone s =
     (case s of
        [] \<Rightarrow> None
      | c # t \<Rightarrow>
          if c = CHR ''Z'' then Some (0, t)
          else if c = CHR ''+'' \<or> c = CHR ''-'' then
            Option.bind (take_num 2 t) (\<lambda>(h, t).
            Option.bind (expect (CHR '':'') t) (\<lambda>t.
            Option.bind (take_num 2 t) (\<lambda>(m, t).
              if 24 < h \<or> 60 < m then None
              else Some ((if c = CHR ''-'' then - (h * 60 + m) else h * 60 + m), t))))
          else None)"

text \<open>\<open>time.Parse(time.RFC3339, s)\<close>\<close>

definition parse_rfc3339 :: "string \<Rightarrow> time option" where
  "parse_rfc3339 s =
     Option.bind (take_num 4 s) (\<lambda>(y, s).
     Option.bind (expect (CHR ''-'') s) (\<lambda>s.
     Option.bind (take_num 2 s) (\<lambda>(mo, s).
     Option.bind (expect (CHR ''-'') s) (\<lambda>s.
     Option.bind (take_num 2 s) (\<lambda>(d, s).
     Option.bind (expect (CHR ''T'') s) (\<lambda>s.
     Option.bind (take_num12 s) (\<lambda>(h, s).
     Option.bind (expect (CHR '':'') s) (\<lambda>s.
     Option.bind (take_num 2 s) (\<lambda>(mi, s).
     Option.bind (expect (CHR '':'') s) (\<lambda>s.
     Option.bind (take_num 2 s) (\<lambda>(sec, s).
     let (nsec, s) = take_frac s in
     Option.bind (take_zone s) (\<lambda>(off, s).
       if s \<noteq> [] \<or> mo < 1 \<or> 12 < mo \<or> d < 1 \<or> daysIn mo y < d \<or> 23 < h \<or> 59 < mi \<or> 59 < sec
       then None
       else Some ((((days_since_year0 y mo d - epoch_days) * 86400
                    + h * 3600 + mi * 60 + sec) - off * 60) * Second + nsec)))))))))))))"

text \<open>
  \<open>Time.UnmarshalJSON\<close> on the raw text of a value: \<open>null\<close> leaves the time alone, a
  string is read as it stands, without resolving escapes; anything else is an error.
\<close>

definition unmarshal_time :: "string \<Rightarrow> time \<Rightarrow> time option" where
  "unmarshal_time raw old =
     (if raw = ''null'' then Some old
      else if length raw < 2 \<or> hd raw \<noteq> CHR 0x22 \<or> last raw \<noteq> CHR 0x22 then None
      else parse_rfc3339 (butlast (tl raw)))"

end
