(* ===== verification/Ticket_Model.thy ===== *)
theory Ticket_Model
  imports Go_Time
begin

text \<open>
  Tickets and their validation: \<open>internal/ticket/model.go\<close>; the identifiers of
  \<open>newID\<close> and \<open>newRequestID\<close> (\<open>internal/ticket/store.go\<close>,
  \<open>internal/shared/httpx/request_id.go\<close>); the request id carried by a context
  (\<open>internal/shared/requestid/requestid.go\<close>).
\<close>

section \<open>Data\<close>

record Ticket =
  t_ID :: string
  t_Title :: string
  t_Description :: string
  t_Status :: string
  t_CreatedAt :: time
  t_UpdatedAt :: time

record CreateTicketRequest =
  req_Title :: string
  req_Description :: string

text \<open>The values a request context carries: the request id and the route holder.\<close>

record Context =
  ctx_request_id :: "string option"
  ctx_route_holder :: bool

definition requestid_With :: "Context \<Rightarrow> string \<Rightarrow> Context" where
  "requestid_With ctx rid = ctx\<lparr>ctx_request_id := Some rid\<rparr>"

definition requestid_Get :: "Context \<Rightarrow> string" where
  "requestid_Get ctx = (case ctx_request_id ctx of Some s \<Rightarrow> s | None \<Rightarrow> [])"

section \<open>Validation\<close>

definition Validate :: "CreateTicketRequest \<Rightarrow> go_error option" where
  "Validate r =
     (let title = TrimSpace (req_Title r) in
      if title = [] then Some (ValidationError ''title is required'')
      else if length title < 3 then Some (ValidationError ''title must be at least 3 characters'')
      else if 200 < length title then Some (ValidationError ''title must be at most 200 characters'')
      else
        let desc = TrimSpace (req_Description r) in
        if 5000 < length desc then Some (ValidationError ''description must be at most 5000 characters'')
        else None)"

section \<open>Identifiers\<close>

text \<open>
  Sixteen bytes from \<open>crypto/rand\<close> in hexadecimal; \<open>None\<close> stands for a failed read.
\<close>

definition EncodeToString :: "nat list \<Rightarrow> string" where
  "EncodeToString bs = concat (map (\<lambda>b. [hex_digit (b div 16), hex_digit (b mod 16)]) bs)"

text \<open>The array the read fills: sixteen bytes, zero where nothing was read.\<close>

definition block16 :: "nat list \<Rightarrow> nat list" where
  "block16 bs = take 16 (bs @ replicate 16 0)"

definition newID :: "nat list option \<Rightarrow> string" where
  "newID rnd =
     (case rnd of
        None \<Rightarrow> ''00000000000000000000000000000000''
      | Some bs \<Rightarrow> EncodeToString (block16 bs))"

lemma block16_full: "length bs = 16 \<Longrightarrow> block16 bs = bs"
  by (simp add: block16_def)

section \<open>Facts\<close>

text \<open>A title or description that passes is within its bounds, counted in bytes.\<close>

lemma Validate_None_iff:
  "Validate r = None \<longleftrightarrow>
     3 \<le> length (TrimSpace (req_Title r)) \<and> length (TrimSpace (req_Title r)) \<le> 200 \<and>
     length (TrimSpace (req_Description r)) \<le> 5000"
  by (auto simp: Validate_def Let_def)

lemma length_EncodeToString: "length (EncodeToString bs) = 2 * length bs"
  by (induction bs) (auto simp: EncodeToString_def)

text \<open>
  C28. Validation accepts exactly the requests whose trimmed title has 3 to 200 bytes and
  whose trimmed description has at most 5000, and is not misled by surrounding white space:
  the trimmed request gets the same answer, message included.
\<close>

theorem Validate_exact:
  "(Validate r = None \<longleftrightarrow>
     3 \<le> length (TrimSpace (req_Title r)) \<and> length (TrimSpace (req_Title r)) \<le> 200 \<and>
     length (TrimSpace (req_Description r)) \<le> 5000) \<and>
   Validate \<lparr>req_Title = TrimSpace (req_Title r), req_Description = TrimSpace (req_Description r)\<rparr> = Validate r"
  by (simp add: Validate_None_iff) (simp add: Validate_def Let_def)

text \<open>Hexadecimal digits in lower case, and back.\<close>

definition hex_digits :: string where
  "hex_digits = ''0123456789abcdef''"

definition random_block :: "nat list \<Rightarrow> bool" where
  "random_block bs \<longleftrightarrow> length bs = 16 \<and> (\<forall>b\<in>set bs. b < 256)"

definition hex32 :: "string \<Rightarrow> bool" where
  "hex32 s \<longleftrightarrow> length s = 32 \<and> set s \<subseteq> set hex_digits"

lemma hex_digit_range: "n < 16 \<Longrightarrow> hex_digit n \<in> set hex_digits"
proof -
  have "list_all (\<lambda>n. hex_digit n \<in> set hex_digits) [0..<16]" by code_simp
  then show "n < 16 \<Longrightarrow> ?thesis" unfolding list_all_iff by (metis atLeastLessThan_iff le0 set_upt)
qed

lemma EncodeToString_hex: "\<forall>b\<in>set bs. b < 256 \<Longrightarrow> set (EncodeToString bs) \<subseteq> set hex_digits"
proof (induction bs)
  case (Cons b bs)
  then have "hex_digit (b div 16) \<in> set hex_digits" "hex_digit (b mod 16) \<in> set hex_digits"
    by (auto intro: hex_digit_range)
  with Cons show ?case by (simp add: EncodeToString_def)
qed (simp add: EncodeToString_def)

lemma EncodeToString_inj:
  "EncodeToString bs = EncodeToString bs' \<Longrightarrow> \<forall>b\<in>set bs. b < 256 \<Longrightarrow> \<forall>b\<in>set bs'. b < 256 \<Longrightarrow> bs = bs'"
proof (induction bs arbitrary: bs')
  case Nil
  then show ?case by (cases bs') (auto simp: EncodeToString_def)
next
  case (Cons b bs)
  then obtain b' cs where bs': "bs' = b' # cs" by (cases bs') (auto simp: EncodeToString_def)
  from Cons.prems have "hex_digit (b div 16) = hex_digit (b' div 16)" "hex_digit (b mod 16) = hex_digit (b' mod 16)"
    "EncodeToString bs = EncodeToString cs" by (auto simp: EncodeToString_def bs')
  moreover have "b div 16 < 16" "b' div 16 < 16" using Cons.prems(2,3) by (auto simp: bs')
  ultimately have "b div 16 = b' div 16" "b mod 16 = b' mod 16"
    by (metis hex_val_digit option.inject mod_less_divisor zero_less_numeral)+
  then have "b = b'" by (metis div_mult_mod_eq)
  with Cons bs' \<open>EncodeToString bs = EncodeToString cs\<close> show ?case by simp
qed

text \<open>
  C39. A generated id is 32 lower-case hexadecimal digits, also when the random source fails,
  and different random bytes give different ids.
\<close>

theorem newID_shape:
  "newID ` (Some ` {bs. random_block bs}) \<subseteq> {s. hex32 s} \<and> hex32 (newID None) \<and>
   inj_on (\<lambda>bs. newID (Some bs)) {bs. random_block bs}"
proof (intro conjI)
  show "newID ` (Some ` {bs. random_block bs}) \<subseteq> {s. hex32 s}"
    by (auto simp: newID_def random_block_def block16_full hex32_def length_EncodeToString dest!: subsetD [OF EncodeToString_hex, rotated])
  show "hex32 (newID None)" by (simp add: newID_def hex32_def hex_digits_def)
  show "inj_on (\<lambda>bs. newID (Some bs)) {bs. random_block bs}"
    by (rule inj_onI) (auto simp: newID_def random_block_def block16_full intro: EncodeToString_inj)
qed

end
