(* ===== verification/Database.thy ===== *)
theory Database
  imports Outbox_Store Notify_Store Ticket_Model
begin

text \<open>
  The database the services share: the three tables of the migrations and the sequence
  behind \<open>outbox.id\<close> (the value \<open>nextval\<close> gave last).
\<close>

record pgdb =
  db_tickets :: "Ticket list"
  db_outbox :: "outbox_row list"
  db_outbox_seq :: int
  db_processed :: "processed_row list"

definition empty_db :: pgdb where
  "empty_db = \<lparr>db_tickets = [], db_outbox = [], db_outbox_seq = 0, db_processed = []\<rparr>"

text \<open>Constraints of the schema, and ids handed out by the sequence only.\<close>

definition db_ok :: "pgdb \<Rightarrow> bool" where
  "db_ok db \<longleftrightarrow>
     distinct (map t_ID (db_tickets db)) \<and> outbox_ok (db_outbox db) \<and>
     (\<forall>r\<in>set (db_outbox db). ob_id r \<le> db_outbox_seq db) \<and> processed_ok (db_processed db)"

lemma db_ok_empty: "db_ok empty_db"
  by (simp add: db_ok_def empty_db_def outbox_ok_def processed_ok_def)

end
