(* ===== verification/Events.thy ===== *)
theory Events
  imports Go_Time
begin

text \<open>
  The event envelope of \<open>internal/shared/events/envelope.go\<close>, with its JSON form as the
  struct tags give it: what \<open>json.Marshal\<close> writes for it and what \<open>json.Unmarshal\<close>
  stores into it.
\<close>

section \<open>Data\<close>

definition EventTypeTicketCreated :: string where
  "EventTypeTicketCreated = ''ticket.created''"

text \<open>A nil \<open>Payload\<close> is \<open>None\<close>.\<close>

record Envelope =
  env_EventID :: string
  env_EventType :: string
  env_OccurredAt :: time
  env_Aggregate :: string
  env_AggregateID :: string
  env_RequestID :: string
  env_Payload :: "string option"

definition zero_Envelope :: Envelope where
  "zero_Envelope = \<lparr>env_EventID = [], env_EventType = [], env_OccurredAt = zero_time,
     env_Aggregate = [], env_AggregateID = [], env_RequestID = [], env_Payload = None\<rparr>"

section \<open>Encoding\<close>

definition envelope_fields :: "Envelope \<Rightarrow> string \<Rightarrow> string \<Rightarrow> (string \<times> string) list" where
  "envelope_fields e occurred payload =
     [(''event_id'', quote (env_EventID e)),
      (''event_type'', quote (env_EventType e)),
      (''occurred_at'', occurred),
      (''aggregate'', quote (env_Aggregate e)),
      (''aggregate_id'', quote (env_AggregateID e))]
     @ (if env_RequestID e = [] then [] else [(''request_id'', quote (env_RequestID e))])
     @ [(''payload'', payload)]"

definition marshal_Envelope :: "(time \<Rightarrow> int) \<Rightarrow> Envelope \<Rightarrow> go_error + string" where
  "marshal_Envelope zone e =
     (case marshal_time zone (env_OccurredAt e) of
        Inl err \<Rightarrow> Inl err
      | Inr occurred \<Rightarrow>
          (case marshal_raw (env_Payload e) of
             Inl err \<Rightarrow> Inl err
           | Inr payload \<Rightarrow> Inr (json_object (envelope_fields e occurred payload))))"

section \<open>Decoding\<close>

definition envelope_names :: "string list" where
  "envelope_names = [''event_id'', ''event_type'', ''occurred_at'', ''aggregate'',
     ''aggregate_id'', ''request_id'', ''payload'']"

text \<open>
  The errors of \<open>json.Unmarshal\<close>. Bad syntax is found before anything is stored. A value
  of the wrong type leaves its field alone and is reported at the end; a bad time ends the
  decoding at once.
\<close>

definition syntax_error :: go_error where
  "syntax_error = errorString ''invalid JSON''"

definition type_error :: go_error where
  "type_error = errorString ''json: cannot unmarshal''"

definition time_error :: go_error where
  "time_error = errorString ''parsing time''"

definition store_string :: "json \<Rightarrow> (string \<Rightarrow> 'e \<Rightarrow> 'e) \<Rightarrow> 'e \<Rightarrow> go_error option \<times> 'e" where
  "store_string v upd e =
     (case v of
        JString s \<Rightarrow> (None, upd s e)
      | JNull \<Rightarrow> (None, e)
      | _ \<Rightarrow> (Some type_error, e))"

fun decode_envelope ::
  "(string \<times> string \<times> json) list \<Rightarrow> go_error option \<Rightarrow> Envelope \<Rightarrow> go_error option \<times> Envelope" where
  "decode_envelope [] saved e = (saved, e)"
| "decode_envelope ((k, raw, v) # ms) saved e =
     (let keep = (\<lambda>(err, e'). decode_envelope ms (if saved = None then err else saved) e') in
      case json_field envelope_names k of
        None \<Rightarrow> decode_envelope ms saved e
      | Some f \<Rightarrow>
          if f = ''event_id'' then keep (store_string v (\<lambda>s. env_EventID_update (\<lambda>_. s)) e)
          else if f = ''event_type'' then keep (store_string v (\<lambda>s. env_EventType_update (\<lambda>_. s)) e)
          else if f = ''occurred_at'' then
            (case unmarshal_time raw (env_OccurredAt e) of
               None \<Rightarrow> (Some time_error, e)
             | Some t \<Rightarrow> decode_envelope ms saved (e\<lparr>env_OccurredAt := t\<rparr>))
          else if f = ''aggregate'' then keep (store_string v (\<lambda>s. env_Aggregate_update (\<lambda>_. s)) e)
          else if f = ''aggregate_id'' then keep (store_string v (\<lambda>s. env_AggregateID_update (\<lambda>_. s)) e)
          else if f = ''request_id'' then keep (store_string v (\<lambda>s. env_RequestID_update (\<lambda>_. s)) e)
          else decode_envelope ms saved (e\<lparr>env_Payload := Some raw\<rparr>))"

definition unmarshal_Envelope :: "string \<Rightarrow> go_error option \<times> Envelope" where
  "unmarshal_Envelope data =
     (case json_parse data of
        None \<Rightarrow> (Some syntax_error, zero_Envelope)
      | Some JNull \<Rightarrow> (None, zero_Envelope)
      | Some (JObject ms) \<Rightarrow> decode_envelope ms None zero_Envelope
      | Some _ \<Rightarrow> (Some type_error, zero_Envelope))"

end
