(* ===== verification/Ticket_Store.thy ===== *)
theory Ticket_Store
  imports Database Events
begin

text \<open>
  The two implementations of the interface \<open>ticket.Store\<close>:
  \<open>internal/ticket/store.go\<close> (in memory) and \<open>internal/ticket/store_postgres.go\<close>, whose
  \<open>Create\<close> writes the ticket and its event in one transaction. The contract their
  client relies on is the locale \<open>ticket_store\<close>, interpreted on both.
\<close>

section \<open>In memory\<close>

record InMemoryStore =
  byID :: "string \<rightharpoonup> Ticket"

definition NewInMemoryStore :: InMemoryStore where
  "NewInMemoryStore = \<lparr>byID = Map.empty\<rparr>"

text \<open>Both methods run under the store's mutex, so each is one step. The first argument is
  what \<open>crypto/rand\<close> would give.\<close>

definition mem_Create ::
  "nat list option \<Rightarrow> Ticket \<Rightarrow> InMemoryStore \<Rightarrow> (go_error + Ticket) \<times> InMemoryStore" where
  "mem_Create rnd t s =
     (let t = (if t_ID t = [] then t\<lparr>t_ID := newID rnd\<rparr> else t)
      in (Inr t, s\<lparr>byID := (byID s)(t_ID t \<mapsto> t)\<rparr>))"

definition mem_Get :: "string \<Rightarrow> InMemoryStore \<Rightarrow> go_error + Ticket" where
  "mem_Get i s = (case byID s i of None \<Rightarrow> Inl ErrNotFound | Some t \<Rightarrow> Inr t)"

section \<open>Postgres\<close>

text \<open>The event payload: \<open>json.Marshal\<close> writes the keys of a map in order.\<close>

definition ticket_payload :: "(time \<Rightarrow> int) \<Rightarrow> string \<Rightarrow> Ticket \<Rightarrow> go_error + string" where
  "ticket_payload zone request_id t =
     (case marshal_time zone (t_CreatedAt t) of
        Inl e \<Rightarrow> Inl e
      | Inr created_at \<Rightarrow>
          Inr (json_object
            [(''created_at'', created_at), (''request_id'', quote request_id),
             (''status'', quote (t_Status t)), (''ticket_id'', quote (t_ID t)),
             (''title'', quote (t_Title t))]))"

text \<open>\<open>INSERT INTO tickets ... RETURNING\<close>\<close>

definition insert_ticket ::
  "outbox_row postgres \<Rightarrow> Ticket \<Rightarrow> pgdb \<Rightarrow> go_error + Ticket \<times> pgdb" where
  "insert_ticket pg t db =
     (let row = t\<lparr>t_CreatedAt := timestamptz pg (t_CreatedAt t),
                  t_UpdatedAt := timestamptz pg (t_UpdatedAt t)\<rparr>
      in if \<not> (text_ok pg (t_ID t) \<and> text_ok pg (t_Title t) \<and>
               text_ok pg (t_Description t) \<and> text_ok pg (t_Status t)) then Inl invalid_text
         else if t_ID t \<in> t_ID ` set (db_tickets db) then Inl unique_violation
         else Inr (row, db\<lparr>db_tickets := db_tickets db @ [row]\<rparr>))"

text \<open>
  \<open>INSERT INTO outbox\<close>: the columns it does not name take their defaults. \<open>now()\<close> is
  the start of the transaction, \<open>uuid\<close> what \<open>gen_random_uuid()\<close> gives.
\<close>

definition new_outbox_row ::
  "time \<Rightarrow> string \<Rightarrow> int \<Rightarrow> string \<Rightarrow> string \<Rightarrow> string \<Rightarrow> string \<Rightarrow> outbox_row" where
  "new_outbox_row now uuid seq aggregate aggregate_id event_type payload =
     \<lparr>ob_id = seq, ob_event_id = uuid, ob_aggregate = aggregate, ob_aggregate_id = aggregate_id,
      ob_event_type = event_type, ob_payload = payload, ob_status = Pending,
      ob_created_at = now, ob_sent_at = None, ob_processing_started_at = None,
      ob_attempts = 0, ob_next_retry_at = now, ob_last_error = None, ob_updated_at = now,
      ob_failed_at = None\<rparr>"

definition insert_outbox ::
  "outbox_row postgres \<Rightarrow> time \<Rightarrow> string \<Rightarrow> string \<Rightarrow> string \<Rightarrow> string \<Rightarrow> string \<Rightarrow> pgdb \<Rightarrow>
   go_error + unit \<times> pgdb" where
  "insert_outbox pg now uuid aggregate aggregate_id event_type payload db =
     (case jsonb_in pg payload of
        None \<Rightarrow> Inl invalid_json
      | Some p \<Rightarrow>
          if uuid \<in> ob_event_id ` set (db_outbox db) then Inl unique_violation
          else Inr ((), db\<lparr>db_outbox := db_outbox db @
                 [new_outbox_row now uuid (db_outbox_seq db + 1) aggregate aggregate_id event_type p]\<rparr>))"

text \<open>
  What the outside decides in one \<open>Create\<close>: how the four round trips end (begin, the two
  statements, commit), the server's clock, the generated event id, the zone of the process.
\<close>

record create_env =
  ce_begin :: outcome
  ce_ticket :: outcome
  ce_outbox :: outcome
  ce_commit :: outcome
  ce_now :: time
  ce_uuid :: string
  ce_zone :: "time \<Rightarrow> int"

text \<open>
  The transaction works on its own copy of the tables (\<open>tx\<close>); only the commit makes the
  copy the database. Every early return goes through the deferred rollback. A sequence is
  not transactional: the number the second statement was given stays used.
\<close>

definition use_seq :: "pgdb \<Rightarrow> pgdb" where
  "use_seq db = db\<lparr>db_outbox_seq := db_outbox_seq db + 1\<rparr>"

definition pg_Create ::
  "outbox_row postgres \<Rightarrow> create_env \<Rightarrow> Context \<Rightarrow> Ticket \<Rightarrow> pgdb \<Rightarrow> (go_error + Ticket) \<times> pgdb" where
  "pg_Create pg ce ctx t db =
     (case exec (ce_begin ce) () (Inr ((), ())) of
        (Inl e, _) \<Rightarrow> (Inl e, db)
      | (Inr _, _) \<Rightarrow>
          (case exec (ce_ticket ce) db (insert_ticket pg t db) of
             (Inl e, _) \<Rightarrow> (Inl e, db)
           | (Inr out, tx) \<Rightarrow>
               (case ticket_payload (ce_zone ce) (requestid_Get ctx) out of
                  Inl e \<Rightarrow> (Inl e, db)
                | Inr payload \<Rightarrow>
                    (case exec (ce_outbox ce) tx
                        (insert_outbox pg (ce_now ce) (ce_uuid ce) ''ticket'' (t_ID out)
                           EventTypeTicketCreated payload tx) of
                       (Inl e, _) \<Rightarrow>
                         (Inl e, case ce_outbox ce of Refused _ \<Rightarrow> db | _ \<Rightarrow> use_seq db)
                     | (Inr _, tx) \<Rightarrow>
                         (case exec (ce_commit ce) (use_seq db) (Inr ((), use_seq tx)) of
                            (Inl e, db') \<Rightarrow> (Inl e, db')
                          | (Inr _, db') \<Rightarrow> (Inr out, db'))))))"

definition pg_Get :: "outbox_row postgres \<Rightarrow> outcome \<Rightarrow> string \<Rightarrow> pgdb \<Rightarrow> go_error + Ticket" where
  "pg_Get pg oc i db =
     (case fst (exec oc db
        (if text_ok pg i then
           (case find (\<lambda>t. t_ID t = i) (db_tickets db) of
              None \<Rightarrow> Inl ErrNoRows
            | Some t \<Rightarrow> Inr (t, db))
         else Inl invalid_text)) of
        Inl e \<Rightarrow> Inl (if e = ErrNoRows then ErrNotFound else e)
      | Inr t \<Rightarrow> Inr t)"

section \<open>Atomicity of the Postgres store\<close>

text \<open>The ticket as it is stored, and the database after the commit.\<close>

definition stored_ticket :: "outbox_row postgres \<Rightarrow> Ticket \<Rightarrow> Ticket" where
  "stored_ticket pg t = t\<lparr>t_CreatedAt := timestamptz pg (t_CreatedAt t),
     t_UpdatedAt := timestamptz pg (t_UpdatedAt t)\<rparr>"

definition created :: "outbox_row postgres \<Rightarrow> create_env \<Rightarrow> string \<Rightarrow> Ticket \<Rightarrow> pgdb \<Rightarrow> pgdb" where
  "created pg ce payload t db = db\<lparr>
     db_tickets := db_tickets db @ [stored_ticket pg t],
     db_outbox := db_outbox db @ [new_outbox_row (ce_now ce) (ce_uuid ce) (db_outbox_seq db + 1)
        ''ticket'' (t_ID t) EventTypeTicketCreated payload],
     db_outbox_seq := db_outbox_seq db + 1\<rparr>"

lemma stored_ticket_simps [simp]:
  "t_ID (stored_ticket pg t) = t_ID t" "t_Title (stored_ticket pg t) = t_Title t"
  "t_Description (stored_ticket pg t) = t_Description t" "t_Status (stored_ticket pg t) = t_Status t"
  by (simp_all add: stored_ticket_def)

lemma insert_ticket_Inr:
  "insert_ticket pg t db = Inr (out, tx) \<longleftrightarrow>
     text_ok pg (t_ID t) \<and> text_ok pg (t_Title t) \<and> text_ok pg (t_Description t) \<and>
     text_ok pg (t_Status t) \<and> t_ID t \<notin> t_ID ` set (db_tickets db) \<and>
     out = stored_ticket pg t \<and> tx = db\<lparr>db_tickets := db_tickets db @ [stored_ticket pg t]\<rparr>"
  by (auto simp: insert_ticket_def stored_ticket_def Let_def)

text \<open>
  A \<open>Create\<close> either leaves tickets and outbox as they were and reports an error, or adds
  the ticket together with its event; it reports success only in the second case.
\<close>

lemma pg_Create_cases:
  obtains (rolled_back) e where
      "fst (pg_Create pg ce ctx t db) = Inl e"
      "snd (pg_Create pg ce ctx t db) = db \<or> snd (pg_Create pg ce ctx t db) = use_seq db"
    | (committed) raw payload where
      "ticket_payload (ce_zone ce) (requestid_Get ctx) (stored_ticket pg t) = Inr raw"
      "jsonb_in pg raw = Some payload" "t_ID t \<notin> t_ID ` set (db_tickets db)"
      "ce_uuid ce \<notin> ob_event_id ` set (db_outbox db)" "text_ok pg (t_ID t)"
      "snd (pg_Create pg ce ctx t db) = created pg ce payload t db"
      "fst (pg_Create pg ce ctx t db) =
         (case ce_commit ce of Lost e \<Rightarrow> Inl e | _ \<Rightarrow> Inr (stored_ticket pg t))"
proof -
  let ?C = "pg_Create pg ce ctx t db"
  have failed: thesis if "?C = (Inl e, d)" "d = db \<or> d = use_seq db" for e d
    using that rolled_back by auto
  obtain r1 u1 where b: "exec (ce_begin ce) () (Inr ((), ())) = (r1, u1)" by (rule prod.exhaust)
  obtain r2 tx where i1: "exec (ce_ticket ce) db (insert_ticket pg t db) = (r2, tx)" by fastforce
  show thesis
  proof (cases "\<exists>e. r1 = Inl e \<or> r2 = Inl e")
    case True
    then show thesis by (elim exE disjE; cases r1) (auto simp: pg_Create_def b i1 intro: failed)
  next
    case False
    then obtain out u0 where r: "r2 = Inr out" "r1 = Inr u0" by (cases r1; cases r2) auto
    show thesis
    proof (cases "ticket_payload (ce_zone ce) (requestid_Get ctx) out")
      case (Inl e)
      with r show thesis by (auto simp: pg_Create_def b i1 intro: failed)
    next
      case (Inr raw)
      obtain r3 tx' where i2: "exec (ce_outbox ce) tx (insert_outbox pg (ce_now ce) (ce_uuid ce)
        ''ticket'' (t_ID out) EventTypeTicketCreated raw tx) = (r3, tx')" by fastforce
      have C: "?C = (case r3 of Inl e \<Rightarrow> (Inl e, case ce_outbox ce of Refused _ \<Rightarrow> db | _ \<Rightarrow> use_seq db)
         | Inr _ \<Rightarrow> (case exec (ce_commit ce) (use_seq db) (Inr ((), use_seq tx')) of
             (Inl e, db') \<Rightarrow> (Inl e, db') | (Inr _, db') \<Rightarrow> (Inr out, db')))"
        using r Inr by (simp add: pg_Create_def b i1 i2 split: sum.splits)
      show thesis
      proof (cases r3)
        case (Inl e)
        with C show thesis by (auto intro: failed split: outcome.splits)
      next
        case (Inr u)
        from i1 r have out: "out = stored_ticket pg t" "t_ID t \<notin> t_ID ` set (db_tickets db)"
          "text_ok pg (t_ID t)" "tx = db\<lparr>db_tickets := db_tickets db @ [stored_ticket pg t]\<rparr>"
          by (auto simp: exec_Inr insert_ticket_Inr)
        from i2 Inr out obtain payload where p: "jsonb_in pg raw = Some payload"
          "ce_uuid ce \<notin> ob_event_id ` set (db_outbox db)" "use_seq tx' = created pg ce payload t db"
          by (auto simp: exec_Inr insert_outbox_def created_def use_seq_def split: option.splits if_splits)
        show thesis
        proof (cases "ce_commit ce")
          case (Refused e)
          with C Inr show thesis by (auto intro: failed)
        qed (use C Inr out p \<open>ticket_payload _ _ out = Inr raw\<close> in \<open>auto intro: committed\<close>)
      qed
    qed
  qed
qed

text \<open>With a server that answers and accepts the values, \<open>Create\<close> succeeds.\<close>

lemma pg_Create_up:
  assumes "ce_begin ce = Success" "ce_ticket ce = Success" "ce_outbox ce = Success" "ce_commit ce = Success"
    and "text_ok pg (t_ID t)" "text_ok pg (t_Title t)" "text_ok pg (t_Description t)" "text_ok pg (t_Status t)"
    and "t_ID t \<notin> t_ID ` set (db_tickets db)" and "ce_uuid ce \<notin> ob_event_id ` set (db_outbox db)"
    and "ticket_payload (ce_zone ce) (requestid_Get ctx) (stored_ticket pg t) = Inr raw" and "jsonb_in pg raw = Some payload"
  shows "pg_Create pg ce ctx t db = (Inr (stored_ticket pg t), created pg ce payload t db)"
proof -
  have "insert_ticket pg t db = Inr (stored_ticket pg t, db\<lparr>db_tickets := db_tickets db @ [stored_ticket pg t]\<rparr>)"
    using assms by (simp add: insert_ticket_Inr)
  with assms show ?thesis
    by (simp add: pg_Create_def insert_outbox_def created_def use_seq_def)
qed

lemma new_outbox_row_ok: "row_ok (new_outbox_row now uuid seq agg aid et payload)"
  by (simp add: new_outbox_row_def row_ok_def int4_max_def)

lemma db_ok_use_seq: "db_ok db \<Longrightarrow> db_ok (use_seq db)"
  by (auto simp: db_ok_def use_seq_def)

lemma db_ok_created:
  assumes "db_ok db" and "t_ID t \<notin> t_ID ` set (db_tickets db)"
    and "ce_uuid ce \<notin> ob_event_id ` set (db_outbox db)"
  shows "db_ok (created pg ce payload t db)"
proof -
  have "db_outbox_seq db + 1 \<notin> ob_id ` set (db_outbox db)"
    using assms(1) by (force simp: db_ok_def)
  with assms show ?thesis
    using new_outbox_row_ok [of "ce_now ce" "ce_uuid ce" "db_outbox_seq db + 1" "''ticket''"
        "t_ID t" EventTypeTicketCreated payload]
    by (auto simp: db_ok_def created_def outbox_ok_def new_outbox_row_def)
qed

lemma pg_Create_db_ok: "db_ok db \<Longrightarrow> db_ok (snd (pg_Create pg ce ctx t db))"
  by (cases rule: pg_Create_cases [of pg ce ctx t db]) (auto simp: db_ok_use_seq db_ok_created)

section \<open>The contract of a ticket store\<close>

text \<open>
  What the handler relies on: a ticket that was created is the one a later read gives, until
  the store is asked to create a ticket with the same id; creating a ticket leaves the others
  readable; a read gives the ticket with the id asked for. \<open>good\<close> holds of the environments
  of a read in which the server answers, and \<open>invar\<close> of the states in use.
\<close>

locale ticket_store =
  fixes create :: "'c \<Rightarrow> Ticket \<Rightarrow> 's \<Rightarrow> (go_error + Ticket) \<times> 's"
    and get :: "'g \<Rightarrow> string \<Rightarrow> 's \<Rightarrow> go_error + Ticket"
    and good :: "'g \<Rightarrow> bool" and invar :: "'s \<Rightarrow> bool"
  assumes create_invar: "invar s \<Longrightarrow> invar (snd (create c t s))"
    and create_ID: "create c t s = (Inr out, s') \<Longrightarrow> t_ID t \<noteq> [] \<Longrightarrow> t_ID out = t_ID t"
    and create_content: "create c t s = (Inr out, s') \<Longrightarrow>
      t_Title out = t_Title t \<and> t_Description out = t_Description t \<and> t_Status out = t_Status t"
    and get_created: "invar s \<Longrightarrow> create c t s = (Inr out, s') \<Longrightarrow> good g \<Longrightarrow> get g (t_ID out) s' = Inr out"
    and get_other: "invar s \<Longrightarrow> t_ID t \<noteq> [] \<Longrightarrow> i \<noteq> t_ID t \<Longrightarrow> get g i (snd (create c t s)) = get g i s"
    and get_found_ID: "good g \<Longrightarrow> get g i s = Inr t \<Longrightarrow> invar s \<Longrightarrow> t_ID t = i"
begin

text \<open>Reading back a whole sequence of creations with distinct ids.\<close>

fun create_all :: "('c \<times> Ticket) list \<Rightarrow> 's \<Rightarrow> 's" where
  "create_all [] s = s"
| "create_all ((c, t) # cts) s = create_all cts (snd (create c t s))"

lemma create_all_invar: "invar s \<Longrightarrow> invar (create_all cts s)"
  by (induction cts arbitrary: s) (auto simp: create_invar)

lemma get_after_all:
  assumes "invar s" and "\<forall>(c, t)\<in>set cts. t_ID t \<noteq> [] \<and> t_ID t \<noteq> i"
  shows "get g i (create_all cts s) = get g i s"
  using assms by (induction cts arbitrary: s) (auto simp: create_invar get_other)

theorem read_your_writes:
  assumes "invar s" and "create c t s = (Inr out, s')" and "t_ID t \<noteq> []" and "good g"
    and "\<forall>(c, t')\<in>set cts. t_ID t' \<noteq> [] \<and> t_ID t' \<noteq> t_ID t"
  shows "get g (t_ID t) (create_all cts s') = Inr out"
proof -
  have "invar s'" using create_invar [OF assms(1), of c t] assms(2) by simp
  then show ?thesis
    using get_after_all [OF _ assms(5)] get_created [OF assms(1,2,4)] create_ID [OF assms(2,3)] by simp
qed

end

interpretation mem: ticket_store mem_Create "\<lambda>_::unit. mem_Get" "\<lambda>_. True"
  "\<lambda>s. \<forall>i t. byID s i = Some t \<longrightarrow> t_ID t = i"
  by unfold_locales
     (auto simp: mem_Create_def mem_Get_def Let_def split: option.splits if_splits)

lemma find_append: "find P (xs @ ys) = (case find P xs of None \<Rightarrow> find P ys | Some x \<Rightarrow> Some x)"
  by (induction xs) auto

lemma find_new_key: "k x \<notin> k ` set xs \<Longrightarrow> find (\<lambda>y. k y = k x) (xs @ [x]) = Some x"
  by (induction xs) auto

lemma pg_Create_Inr:
  assumes "pg_Create pg ce ctx t db = (Inr out, db')"
  obtains payload where "out = stored_ticket pg t" "db' = created pg ce payload t db"
    "t_ID t \<notin> t_ID ` set (db_tickets db)" "text_ok pg (t_ID t)"
  using assms by (cases rule: pg_Create_cases [of pg ce ctx t db]) (auto split: outcome.splits)

lemma pg_Get_db_tickets: "db_tickets db = db_tickets db' \<Longrightarrow> pg_Get pg oc i db = pg_Get pg oc i db'"
  by (cases oc) (auto simp: pg_Get_def split: option.splits)

lemma pg_Get_created:
  "t_ID t \<noteq> i \<Longrightarrow> pg_Get pg oc i (created pg ce payload t db) = pg_Get pg oc i db"
  by (cases oc) (auto simp: pg_Get_def created_def find_append split: option.splits)

lemma pg_Get_other:
  assumes "i \<noteq> t_ID t"
  shows "pg_Get pg oc i (snd (pg_Create pg ce ctx t db)) = pg_Get pg oc i db"
proof (cases rule: pg_Create_cases [of pg ce ctx t db])
  case (rolled_back e)
  then show ?thesis by (auto simp: use_seq_def intro: pg_Get_db_tickets)
next
  case (committed raw payload)
  then show ?thesis using assms by (simp add: pg_Get_created)
qed

lemma pg_Get_new:
  assumes "pg_Create pg ce ctx t db = (Inr out, db')"
  shows "pg_Get pg Success (t_ID out) db' = Inr out"
  using assms
proof (rule pg_Create_Inr)
  fix payload
  assume "out = stored_ticket pg t" "db' = created pg ce payload t db"
    "t_ID t \<notin> t_ID ` set (db_tickets db)" "text_ok pg (t_ID t)"
  then show ?thesis
    using find_new_key [of t_ID "stored_ticket pg t" "db_tickets db"]
    by (simp add: pg_Get_def created_def)
qed

lemma pg_Get_found_ID: "pg_Get pg Success i db = Inr t \<Longrightarrow> t_ID t = i"
  by (auto simp: pg_Get_def split: option.splits if_splits dest: find_key_in)

interpretation pgs: ticket_store "\<lambda>(ce, ctx). pg_Create pg ce ctx" "pg_Get pg" "\<lambda>oc. oc = Success" db_ok
  for pg
proof unfold_locales
  show "db_ok (snd ((\<lambda>(ce, ctx). pg_Create pg ce ctx) c t s))" if "db_ok s" for s c t
    using that by (auto simp: pg_Create_db_ok split: prod.splits)
next
  fix c t s out s'
  assume "(\<lambda>(ce, ctx). pg_Create pg ce ctx) c t s = (Inr out, s')"
  then have *: "pg_Create pg (fst c) (snd c) t s = (Inr out, s')" by (simp add: split_beta)
  show "t_ID out = t_ID t" by (rule pg_Create_Inr [OF *]) simp
  show "t_Title out = t_Title t \<and> t_Description out = t_Description t \<and> t_Status out = t_Status t"
    by (rule pg_Create_Inr [OF *]) simp
  show "pg_Get pg g (t_ID out) s' = Inr out" if "g = Success" for g
    using pg_Get_new [OF *] that by simp
next
  show "pg_Get pg g i (snd ((\<lambda>(ce, ctx). pg_Create pg ce ctx) c t s)) = pg_Get pg g i s"
    if "i \<noteq> t_ID t" for g i c t s
    using that by (simp add: split_beta pg_Get_other)
qed (auto simp: pg_Get_found_ID)

section \<open>Properties\<close>

text \<open>
  C5. \<open>Create\<close> is atomic under every pattern of failures of its four round trips: the
  database afterwards either holds the tickets and events it held before (only the sequence
  may have moved), or one more ticket and its one event, added together and sharing the
  ticket's id. Success is reported only in the second case; an error may be reported in
  either, since the answer to the commit can be lost.
\<close>

theorem Create_atomic:
  "(snd (pg_Create pg ce ctx t db) \<in> {db, use_seq db} \<and> (\<exists>e. fst (pg_Create pg ce ctx t db) = Inl e)) \<or>
   (\<exists>payload. snd (pg_Create pg ce ctx t db) = created pg ce payload t db \<and>
      (fst (pg_Create pg ce ctx t db) = Inr (stored_ticket pg t) \<or>
       (\<exists>e. ce_commit ce = Lost e \<and> fst (pg_Create pg ce ctx t db) = Inl e)))"
  by (cases rule: pg_Create_cases [of pg ce ctx t db]) (auto split: outcome.splits)

text \<open>
  \<open>Create\<close> keeps the invariant of the whole database: keys stay unique, ids come from
  the sequence, and every outbox row is well formed.
\<close>

theorem Create_keeps_db_ok:
  assumes "db_ok db"
  shows "db_ok (snd (pg_Create pg ce ctx t db))"
  by (rule pg_Create_db_ok [OF assms])

definition example_ticket :: Ticket where
  "example_ticket = \<lparr>t_ID = ''t1'', t_Title = ''Printer'', t_Description = [], t_Status = ''open'',
     t_CreatedAt = 1000, t_UpdatedAt = 1000\<rparr>"

definition example_env :: create_env where
  "example_env = \<lparr>ce_begin = Success, ce_ticket = Success, ce_outbox = Success, ce_commit = Success,
     ce_now = 2000, ce_uuid = ''u1'', ce_zone = (\<lambda>_. 0)\<rparr>"

definition example_ctx :: Context where
  "example_ctx = \<lparr>ctx_request_id = Some ''r1'', ctx_route_holder = False\<rparr>"

text \<open>The example ticket, or any other of the same time, is accepted by the example server.\<close>

lemma example_Create:
  assumes "t_CreatedAt t = 1000" and "t_ID t \<notin> t_ID ` set (db_tickets db)" and "''u1'' \<notin> ob_event_id ` set (db_outbox db)"
  shows "\<exists>payload. pg_Create plain_postgres example_env ctx t db =
    (Inr (stored_ticket plain_postgres t), created plain_postgres example_env payload t db)"
proof -
  have "case marshal_time (\<lambda>_. 0) (timestamptz (plain_postgres :: outbox_row postgres) 1000) of Inr _ \<Rightarrow> True | Inl _ \<Rightarrow> False"
    by code_simp
  then obtain c where "marshal_time (\<lambda>_. 0) (t_CreatedAt (stored_ticket plain_postgres t)) = Inr c"
    using assms(1) by (auto simp: stored_ticket_def split: sum.splits)
  then obtain raw where "ticket_payload (\<lambda>_. 0) (requestid_Get ctx) (stored_ticket plain_postgres t) = Inr raw"
    by (simp add: ticket_payload_def)
  with assms(2,3) show ?thesis
    by (intro exI [of _ raw] pg_Create_up) (simp_all add: example_env_def plain_postgres_def)
qed

theorem Create_keeps_db_ok_witness:
  "db_ok (snd (pg_Create plain_postgres example_env example_ctx example_ticket empty_db))"
  by (rule Create_keeps_db_ok [OF db_ok_empty])

text \<open>
  Read your writes, for the store in Postgres: a ticket that was created is what a
  later read returns, whatever other tickets were created in between, with whatever
  failures.
\<close>

theorem pg_read_your_writes:
  assumes "db_ok db" and "pg_Create pg ce ctx t db = (Inr out, db')" and "t_ID t \<noteq> []"
    and "\<forall>(c, t')\<in>set cts. t_ID t' \<noteq> [] \<and> t_ID t' \<noteq> t_ID t"
  shows "pg_Get pg Success (t_ID t)
      (fold (\<lambda>((ce, ctx), t') db. snd (pg_Create pg ce ctx t' db)) cts db') = Inr out"
proof -
  have "fold (\<lambda>((ce, ctx), t') db. snd (pg_Create pg ce ctx t' db)) cts db' = pgs.create_all pg cts db'"
    by (induction cts arbitrary: db') auto
  then show ?thesis
    using pgs.read_your_writes [of db pg "(ce, ctx)" t out db' Success cts] assms by simp
qed

theorem pg_read_your_writes_witness:
  "\<exists>out db'. pg_Create plain_postgres example_env example_ctx example_ticket empty_db = (Inr out, db') \<and>
     pg_Get plain_postgres Success ''t1'' db' = Inr out"
proof -
  obtain payload where c: "pg_Create plain_postgres example_env example_ctx example_ticket empty_db =
      (Inr (stored_ticket plain_postgres example_ticket), created plain_postgres example_env payload example_ticket empty_db)"
    using example_Create [of example_ticket empty_db example_ctx] by (auto simp: example_ticket_def empty_db_def)
  have "t_ID example_ticket = ''t1''" by (simp add: example_ticket_def)
  with c pg_read_your_writes [OF db_ok_empty c, of "[]"] show ?thesis by simp
qed

text \<open>
  Read your writes, for the store in memory; here a ticket without an id is given one.
\<close>

theorem mem_read_your_writes:
  assumes "\<forall>i t. byID s i = Some t \<longrightarrow> t_ID t = i" and "mem_Create rnd t s = (Inr out, s')" and "t_ID t \<noteq> []"
    and "\<forall>(c, t')\<in>set cts. t_ID t' \<noteq> [] \<and> t_ID t' \<noteq> t_ID t"
  shows "mem_Get (t_ID t) (fold (\<lambda>(rnd, t') s. snd (mem_Create rnd t' s)) cts s') = Inr out"
proof -
  have "fold (\<lambda>(rnd, t') s. snd (mem_Create rnd t' s)) cts s' = mem.create_all cts s'"
    by (induction cts arbitrary: s') auto
  then show ?thesis using mem.read_your_writes [OF assms(1-3) TrueI assms(4)] by simp
qed

theorem mem_read_your_writes_witness:
  "mem_Get ''t1'' (snd (mem_Create None example_ticket NewInMemoryStore)) = Inr example_ticket"
  using mem_read_your_writes [of NewInMemoryStore None example_ticket example_ticket
      "snd (mem_Create None example_ticket NewInMemoryStore)" "[]"]
  by (simp add: mem_Create_def NewInMemoryStore_def example_ticket_def Let_def)







end
