(* ===== verification/Ticket_Handler.thy ===== *)
theory Ticket_Handler
  imports Ticket_Store
begin

text \<open>
  \<open>internal/ticket/handler.go\<close> and \<open>errors.go\<close>: the two handlers, with the reading of the
  request body (\<open>http.MaxBytesReader\<close> and a \<open>json.Decoder\<close> that allows no unknown fields)
  and the JSON of the answers. A handler takes a request and the state of the store and gives
  the response and the state; the store's operations are its arguments, as the field
  \<open>Store\<close> of \<open>Handler\<close> is an interface.
\<close>

section \<open>Requests and responses\<close>

record Request =
  r_Method :: string
  r_RequestURI :: string
  r_Path :: string
  r_EscapedPath :: string
  r_RequestIDHeader :: string
  r_Body :: string
  r_Context :: Context

record Response =
  rs_Status :: int
  rs_Header :: "string \<rightharpoonup> string"
  rs_Body :: string

definition json_type :: string where
  "json_type = ''application/json; charset=utf-8''"

text \<open>What the handlers write; \<open>Encoder.Encode\<close> ends the text with a line feed.\<close>

definition lf :: char where "lf = char_of (10::nat)"

definition error_json :: "string \<Rightarrow> string \<Rightarrow> string \<Rightarrow> string" where
  "error_json code message rid =
     json_object [(''error'', json_object ([(''code'', quote code), (''message'', quote message)] @
        (if rid = [] then [] else [(''request_id'', quote rid)])))] @ [lf]"

definition WriteErrorR :: "Request \<Rightarrow> int \<Rightarrow> string \<Rightarrow> string \<Rightarrow> Response" where
  "WriteErrorR r status code message =
     \<lparr>rs_Status = status, rs_Header = [''Content-Type'' \<mapsto> json_type],
      rs_Body = error_json code message (requestid_Get (r_Context r))\<rparr>"

definition ticket_json :: "(time \<Rightarrow> int) \<Rightarrow> Ticket \<Rightarrow> go_error + string" where
  "ticket_json zone t =
     (case (marshal_time zone (t_CreatedAt t), marshal_time zone (t_UpdatedAt t)) of
        (Inr c_at, Inr u_at) \<Rightarrow>
          Inr (json_object ([(''id'', quote (t_ID t)), (''title'', quote (t_Title t))] @
            (if t_Description t = [] then [] else [(''description'', quote (t_Description t))]) @
            [(''status'', quote (t_Status t)), (''created_at'', c_at), (''updated_at'', u_at)]) @ [lf])
      | (Inl e, _) \<Rightarrow> Inl e
      | (_, Inl e) \<Rightarrow> Inl e)"

text \<open>The status is written first; if the ticket cannot be encoded the body stays empty.\<close>

definition writeJSON :: "(time \<Rightarrow> int) \<Rightarrow> int \<Rightarrow> Ticket \<Rightarrow> Response" where
  "writeJSON zone status t =
     \<lparr>rs_Status = status, rs_Header = [''Content-Type'' \<mapsto> json_type],
      rs_Body = (case ticket_json zone t of Inl _ \<Rightarrow> [] | Inr b \<Rightarrow> b)\<rparr>"

section \<open>Reading the body\<close>

definition max_body :: nat where
  "max_body = 2 ^ 20"

definition body_too_large :: go_error where
  "body_too_large = errorString ''http: request body too large''"

text \<open>What \<open>MaxBytesReader\<close> lets through, and the error that ends the reading.\<close>

definition limit_body :: "string \<Rightarrow> string \<times> go_error" where
  "limit_body body =
     (if length body \<le> max_body then (body, EOF) else (take max_body body, body_too_large))"

text \<open>
  Storing an object into a \<open>CreateTicketRequest\<close>: an unknown field and a value of the wrong
  type are remembered as an error and the decoding goes on.
\<close>

definition unknown_field :: go_error where
  "unknown_field = errorString ''json: unknown field''"

fun decode_request ::
  "(string \<times> string \<times> json) list \<Rightarrow> go_error option \<Rightarrow> CreateTicketRequest \<Rightarrow> go_error option \<times> CreateTicketRequest" where
  "decode_request [] saved q = (saved, q)"
| "decode_request ((k, raw, v) # ms) saved q =
     (let keep = (\<lambda>(err, q'). decode_request ms (if saved = None then err else saved) q') in
      case json_field [''title'', ''description''] k of
        None \<Rightarrow> keep (Some unknown_field, q)
      | Some f \<Rightarrow>
          if f = ''title'' then keep (store_string v (\<lambda>s. req_Title_update (\<lambda>_. s)) q)
          else keep (store_string v (\<lambda>s. req_Description_update (\<lambda>_. s)) q))"

definition zero_request :: CreateTicketRequest where
  "zero_request = \<lparr>req_Title = [], req_Description = []\<rparr>"

definition store_request :: "json \<Rightarrow> go_error option \<times> CreateTicketRequest" where
  "store_request v =
     (case v of
        JNull \<Rightarrow> (None, zero_request)
      | JObject ms \<Rightarrow> decode_request ms None zero_request
      | _ \<Rightarrow> (Some type_error, zero_request))"

text \<open>
  The first \<open>Decode\<close> reads one value, and gives the request and the bytes after it. Only a
  body of nothing but white space, within the limit, ends in \<open>EOF\<close>.
\<close>

definition Decode_first :: "string \<Rightarrow> go_error + CreateTicketRequest \<times> string" where
  "Decode_first body =
     (let (text, end_err) = limit_body body in
      if skip_ws text = [] then Inl end_err
      else case json_value (skip_ws text) of
             None \<Rightarrow> Inl syntax_error
           | Some (v, rest) \<Rightarrow>
               (case store_request v of
                  (Some err, _) \<Rightarrow> Inl err
                | (None, q) \<Rightarrow> Inr (q, rest)))"

text \<open>The second \<open>Decode\<close> is to find the end: \<open>EOF\<close> if only white space is left.\<close>

definition Decode_second_EOF :: "string \<Rightarrow> string \<Rightarrow> bool" where
  "Decode_second_EOF body rest \<longleftrightarrow> skip_ws rest = [] \<and> snd (limit_body body) = EOF"

section \<open>Handlers\<close>

definition CreateTicket ::
  "(Context \<Rightarrow> Ticket \<Rightarrow> 's \<Rightarrow> (go_error + Ticket) \<times> 's) \<Rightarrow> (time \<Rightarrow> int) \<Rightarrow> string \<Rightarrow> time \<Rightarrow> time \<Rightarrow>
   Request \<Rightarrow> 's \<Rightarrow> Response \<times> 's" where
  "CreateTicket create zone uuid now1 now2 r s =
     (if r_Method r \<noteq> ''POST'' then (WriteErrorR r 405 ''method_not_allowed'' ''method not allowed'', s)
      else case Decode_first (r_Body r) of
        Inl err \<Rightarrow>
          (WriteErrorR r 400 ''validation_error'' (if errors_Is err EOF then ''empty body'' else ''invalid json''), s)
      | Inr (req, rest) \<Rightarrow>
          if \<not> Decode_second_EOF (r_Body r) rest then (WriteErrorR r 400 ''validation_error'' ''invalid json'', s)
          else case Validate req of
            Some err \<Rightarrow> (WriteErrorR r 400 ''validation_error'' (Error err), s)
          | None \<Rightarrow>
              let t = \<lparr>t_ID = uuid, t_Title = TrimSpace (req_Title req),
                       t_Description = TrimSpace (req_Description req), t_Status = ''open'',
                       t_CreatedAt = now1, t_UpdatedAt = now2\<rparr>
              in (case create (r_Context r) t s of
                    (Inl err, s') \<Rightarrow> (WriteErrorR r 500 ''internal_error'' ''internal error'', s')
                  | (Inr out, s') \<Rightarrow> (writeJSON zone 201 out, s')))"

definition GetTicket ::
  "(Context \<Rightarrow> string \<Rightarrow> 's \<Rightarrow> go_error + Ticket) \<Rightarrow> (time \<Rightarrow> int) \<Rightarrow> Request \<Rightarrow> string \<Rightarrow> 's \<Rightarrow> Response" where
  "GetTicket get zone r i s =
     (if r_Method r \<noteq> ''GET'' then WriteErrorR r 405 ''method_not_allowed'' ''method not allowed''
      else
        let i = TrimSpace i in
        if i = [] then WriteErrorR r 404 ''not_found'' ''not found''
        else case get (r_Context r) i s of
          Inl err \<Rightarrow>
            if errors_Is err ErrNotFound then WriteErrorR r 404 ''not_found'' ''not found''
            else WriteErrorR r 500 ''internal_error'' ''internal error''
        | Inr t \<Rightarrow> writeJSON zone 200 t)"

section \<open>Facts\<close>

text \<open>The ticket the handler asks the store to create.\<close>

definition new_ticket :: "string \<Rightarrow> time \<Rightarrow> time \<Rightarrow> CreateTicketRequest \<Rightarrow> Ticket" where
  "new_ticket uuid now1 now2 req =
     \<lparr>t_ID = uuid, t_Title = TrimSpace (req_Title req), t_Description = TrimSpace (req_Description req),
      t_Status = ''open'', t_CreatedAt = now1, t_UpdatedAt = now2\<rparr>"

text \<open>The three ways a call of \<open>CreateTicket\<close> can end.\<close>

lemma CreateTicket_cases:
  obtains (rejected) code message where
      "CreateTicket create zone uuid now1 now2 r s = (WriteErrorR r code (if code = 405 then ''method_not_allowed'' else ''validation_error'') message, s)"
      "code = 405 \<and> r_Method r \<noteq> ''POST'' \<or> code = 400 \<and> r_Method r = ''POST''"
    | (stored) req rest out s' where "r_Method r = ''POST''" "Decode_first (r_Body r) = Inr (req, rest)"
      "Decode_second_EOF (r_Body r) rest" "Validate req = None"
      "create (r_Context r) (new_ticket uuid now1 now2 req) s = (Inr out, s')"
      "CreateTicket create zone uuid now1 now2 r s = (writeJSON zone 201 out, s')"
    | (failed) req rest err s' where "r_Method r = ''POST''" "Decode_first (r_Body r) = Inr (req, rest)"
      "Decode_second_EOF (r_Body r) rest" "Validate req = None"
      "create (r_Context r) (new_ticket uuid now1 now2 req) s = (Inl err, s')"
      "CreateTicket create zone uuid now1 now2 r s = (WriteErrorR r 500 ''internal_error'' ''internal error'', s')"
proof (cases "r_Method r = ''POST''")
  case False
  then show thesis by (intro rejected [of 405]) (simp_all add: CreateTicket_def)
next
  case post: True
  show thesis
  proof (cases "Decode_first (r_Body r)")
    case (Inl err)
    with post show thesis by (intro rejected [of 400]) (simp_all add: CreateTicket_def)
  next
    case (Inr p)
    then obtain req rest where d: "Decode_first (r_Body r) = Inr (req, rest)" by (cases p) auto
    show thesis
    proof (cases "Decode_second_EOF (r_Body r) rest \<and> Validate req = None")
      case False
      then consider "\<not> Decode_second_EOF (r_Body r) rest"
        | err where "Decode_second_EOF (r_Body r) rest" "Validate req = Some err" by (cases "Validate req") auto
      then show thesis
        by cases (use post d in \<open>auto simp: CreateTicket_def intro: rejected [of 400]\<close>)
    next
      case True
      obtain res s' where c: "create (r_Context r) (new_ticket uuid now1 now2 req) s = (res, s')" by (rule prod.exhaust)
      show thesis
      proof (cases res)
        case (Inl err)
        with post d True c show thesis
          by (intro failed [of req rest err s']) (simp_all add: CreateTicket_def new_ticket_def Let_def)
      next
        case (Inr out)
        with post d True c show thesis
          by (intro stored [of req rest out s']) (simp_all add: CreateTicket_def new_ticket_def Let_def)
      qed
    qed
  qed
qed

lemma WriteErrorR_Status [simp]: "rs_Status (WriteErrorR r status code message) = status"
  by (simp add: WriteErrorR_def)

lemma writeJSON_Status [simp]: "rs_Status (writeJSON zone status t) = status"
  by (simp add: writeJSON_def)

text \<open>
  The handlers over any store that keeps the contract: what was answered with 201 is what
  later reads answer, whatever other tickets have been created in between.
\<close>

context ticket_store
begin

lemma posted_ticket_is_served:
  assumes "invar s" and "good g" and "uuid \<noteq> []" and "TrimSpace uuid = uuid"
    and post: "CreateTicket (\<lambda>ctx. create (c ctx)) zone uuid now1 now2 r s = (resp, s')"
    and "rs_Status resp = 201" and "\<forall>(c, t')\<in>set cts. t_ID t' \<noteq> [] \<and> t_ID t' \<noteq> uuid"
    and "r_Method r' = ''GET''"
  shows "GetTicket (\<lambda>ctx. get g) zone r' uuid (create_all cts s') = resp\<lparr>rs_Status := 200\<rparr>"
proof (rule CreateTicket_cases [of "\<lambda>ctx. create (c ctx)" zone uuid now1 now2 r s])
  fix req rest out s1
  assume cr: "create (c (r_Context r)) (new_ticket uuid now1 now2 req) s = (Inr out, s1)"
    and "CreateTicket (\<lambda>ctx. create (c ctx)) zone uuid now1 now2 r s = (writeJSON zone 201 out, s1)"
  with post have resp: "resp = writeJSON zone 201 out" "s' = s1" by simp_all
  have "t_ID (new_ticket uuid now1 now2 req) = uuid" by (simp add: new_ticket_def)
  then have "get g uuid (create_all cts s1) = Inr out"
    using read_your_writes [OF assms(1) cr _ assms(2)] assms(3,7) by simp
  then show ?thesis using assms(3,4,8) resp by (simp add: GetTicket_def writeJSON_def)
qed (use post assms(6) in auto)

end

section \<open>Properties\<close>

text \<open>
  C21. The store is asked for a ticket only on a POST whose body is one JSON object of known
  string fields that passes validation; the ticket it is asked for is open, trimmed and
  within the bounds. The answer is 201 with the stored ticket exactly when the store
  succeeds, 500 when it fails; on every other request the store is not touched and the
  answer is 405 or 400.
\<close>

theorem CreateTicket_contract:
  fixes create :: "Context \<Rightarrow> Ticket \<Rightarrow> 's \<Rightarrow> (go_error + Ticket) \<times> 's"
  shows "(\<exists>req rest t res s'. r_Method r = ''POST'' \<and> Decode_first (r_Body r) = Inr (req, rest) \<and>
       Decode_second_EOF (r_Body r) rest \<and> t = new_ticket uuid now1 now2 req \<and>
       3 \<le> length (t_Title t) \<and> length (t_Title t) \<le> 200 \<and> length (t_Description t) \<le> 5000 \<and>
       create (r_Context r) t s = (res, s') \<and>
       CreateTicket create zone uuid now1 now2 r s =
         (case res of Inr out \<Rightarrow> writeJSON zone 201 out
          | Inl _ \<Rightarrow> WriteErrorR r 500 ''internal_error'' ''internal error'', s')) \<or>
     (\<exists>resp. CreateTicket create zone uuid now1 now2 r s = (resp, s) \<and>
        rs_Status resp = (if r_Method r = ''POST'' then 400 else 405))"
  by (rule CreateTicket_cases [of create zone uuid now1 now2 r s])
     (fastforce simp: Validate_None_iff new_ticket_def)+

text \<open>
  C35. A body of more than one mebibyte never reaches the store, not even when what exceeds
  the limit is white space after a valid request.
\<close>

theorem oversized_body_rejected:
  assumes "2 ^ 20 < length (r_Body r)"
  shows "\<exists>resp. CreateTicket create zone uuid now1 now2 r s = (resp, s) \<and> rs_Status resp \<in> {400, 405}"
proof -
  have "\<not> Decode_second_EOF (r_Body r) rest" for rest
    using assms by (simp add: Decode_second_EOF_def limit_body_def max_body_def body_too_large_def)
  then show ?thesis by (cases rule: CreateTicket_cases [of create zone uuid now1 now2 r s]) auto
qed

definition example_request :: "string \<Rightarrow> string \<Rightarrow> Request" where
  "example_request meth body =
     \<lparr>r_Method = meth, r_RequestURI = ''/tickets'', r_Path = ''/tickets'', r_EscapedPath = ''/tickets'',
      r_RequestIDHeader = [], r_Body = body, r_Context = \<lparr>ctx_request_id = None, ctx_route_holder = False\<rparr>\<rparr>"

theorem oversized_body_rejected_witness:
  "\<exists>resp. CreateTicket (\<lambda>_. mem_Create None) (\<lambda>_. 0) ''t1'' 1 2 (example_request ''POST'' (replicate (2 ^ 20 + 1) CHR 0x20))
      NewInMemoryStore = (resp, NewInMemoryStore) \<and> rs_Status resp \<in> {400, 405}"
  by (rule oversized_body_rejected) (simp add: example_request_def)

text \<open>
  What a POST answered with 201 is what a later GET of its id answers with 200, byte for
  byte, whatever other tickets were created in between: with the store in Postgres, and an
  answering database for the read.
\<close>

theorem pg_post_then_get:
  assumes "db_ok db" and "uuid \<noteq> []" and "TrimSpace uuid = uuid"
    and "CreateTicket (pg_Create pg ce) zone uuid now1 now2 r db = (resp, db')" and "rs_Status resp = 201"
    and "\<forall>(c, t')\<in>set cts. t_ID t' \<noteq> [] \<and> t_ID t' \<noteq> uuid" and "r_Method r' = ''GET''"
  shows "GetTicket (\<lambda>_. pg_Get pg Success) zone r' uuid
      (fold (\<lambda>((ce, ctx), t') db. snd (pg_Create pg ce ctx t' db)) cts db') = resp\<lparr>rs_Status := 200\<rparr>"
proof -
  have "fold (\<lambda>((ce, ctx), t') db. snd (pg_Create pg ce ctx t' db)) cts db' = pgs.create_all pg cts db'"
    by (induction cts arbitrary: db') auto
  then show ?thesis
    using pgs.posted_ticket_is_served [of db Success uuid pg "\<lambda>ctx. (ce, ctx)" zone now1 now2 r resp db' cts r'] assms
    by simp
qed

definition example_body :: string where
  "example_body = [CHR ''{'', CHR 0x22] @ ''title'' @ [CHR 0x22, CHR '':'', CHR 0x22] @ ''abc'' @ [CHR 0x22, CHR ''}'']"

text \<open>The parts of the example that are evaluated: the body decodes, the ids and times can be written.\<close>

lemma example_limit: "limit_body example_body = (example_body, EOF)"
  by (simp add: limit_body_def example_body_def max_body_def)

lemma example_body_decoded:
  "Decode_first example_body = Inr (\<lparr>req_Title = ''abc'', req_Description = []\<rparr>, [])"
  "Validate \<lparr>req_Title = ''abc'', req_Description = []\<rparr> = None" "TrimSpace ''t1'' = ''t1''"
proof -
  have "skip_ws example_body \<noteq> []"
    and "map_option (\<lambda>(v, rest). (store_request v, rest)) (json_value (skip_ws example_body)) =
      Some ((None, \<lparr>req_Title = ''abc'', req_Description = []\<rparr>), [])" by code_simp+
  then show "Decode_first example_body = Inr (\<lparr>req_Title = ''abc'', req_Description = []\<rparr>, [])"
    by (auto simp: Decode_first_def example_limit split: option.splits)
qed code_simp+

lemma example_POST:
  "rs_Status (fst (CreateTicket create zone ''t1'' 1000 1000 (example_request ''POST'' example_body) s)) = 201 \<longleftrightarrow>
   (\<exists>out s'. create \<lparr>ctx_request_id = None, ctx_route_holder = False\<rparr>
      (new_ticket ''t1'' 1000 1000 \<lparr>req_Title = ''abc'', req_Description = []\<rparr>) s = (Inr out, s'))"
proof -
  have "Decode_second_EOF example_body []"
    by (simp add: Decode_second_EOF_def example_limit skip_ws_def)
  then show ?thesis
    by (simp add: CreateTicket_def example_request_def example_body_decoded new_ticket_def Let_def split: prod.split sum.split)
qed

theorem pg_post_then_get_witness:
  "\<exists>resp db'. CreateTicket (pg_Create plain_postgres example_env) (\<lambda>_. 0) ''t1'' 1000 1000
       (example_request ''POST'' example_body) empty_db = (resp, db') \<and> rs_Status resp = 201 \<and>
     GetTicket (\<lambda>_. pg_Get plain_postgres Success) (\<lambda>_. 0) (example_request ''GET'' []) ''t1'' db' = resp\<lparr>rs_Status := 200\<rparr>"
proof -
  let ?r = "example_request ''POST'' example_body"
  obtain resp db' where post: "CreateTicket (pg_Create plain_postgres example_env) (\<lambda>_. 0) ''t1'' 1000 1000 ?r empty_db
      = (resp, db')" by (rule prod.exhaust)
  have ok: "rs_Status resp = 201"
    using example_POST [of "pg_Create plain_postgres example_env" "\<lambda>_. 0" empty_db] post
      example_Create [of "new_ticket ''t1'' 1000 1000 \<lparr>req_Title = ''abc'', req_Description = []\<rparr>" empty_db
        "\<lparr>ctx_request_id = None, ctx_route_holder = False\<rparr>"]
    by (auto simp: new_ticket_def empty_db_def)
  have "r_Method (example_request ''GET'' []) = ''GET''" by (simp add: example_request_def)
  from pg_post_then_get [OF db_ok_empty _ example_body_decoded(3) post ok, of "[]", OF _ _ this] post ok
  show ?thesis by simp
qed

text \<open>The same with the store in memory.\<close>

theorem mem_post_then_get:
  assumes "\<forall>i t. byID s i = Some t \<longrightarrow> t_ID t = i" and "uuid \<noteq> []" and "TrimSpace uuid = uuid"
    and "CreateTicket (\<lambda>_. mem_Create rnd) zone uuid now1 now2 r s = (resp, s')" and "rs_Status resp = 201"
    and "\<forall>(c, t')\<in>set cts. t_ID t' \<noteq> [] \<and> t_ID t' \<noteq> uuid" and "r_Method r' = ''GET''"
  shows "GetTicket (\<lambda>_. mem_Get) zone r' uuid (fold (\<lambda>(rnd, t') s. snd (mem_Create rnd t' s)) cts s') =
    resp\<lparr>rs_Status := 200\<rparr>"
proof -
  have "fold (\<lambda>(rnd, t') s. snd (mem_Create rnd t' s)) cts s' = mem.create_all cts s'"
    by (induction cts arbitrary: s') auto
  then show ?thesis
    using mem.posted_ticket_is_served [OF assms(1) TrueI assms(2,3), of "\<lambda>_. rnd" zone now1 now2 r resp s' cts r'] assms(4-7)
    by simp
qed

theorem mem_post_then_get_witness:
  "\<exists>resp s'. CreateTicket (\<lambda>_. mem_Create None) (\<lambda>_. 0) ''t1'' 1000 1000
       (example_request ''POST'' example_body) NewInMemoryStore = (resp, s') \<and> rs_Status resp = 201 \<and>
     GetTicket (\<lambda>_. mem_Get) (\<lambda>_. 0) (example_request ''GET'' []) ''t1'' s' = resp\<lparr>rs_Status := 200\<rparr>"
proof -
  obtain resp s' where post: "CreateTicket (\<lambda>_. mem_Create None) (\<lambda>_. 0) ''t1'' 1000 1000
      (example_request ''POST'' example_body) NewInMemoryStore = (resp, s')" by (rule prod.exhaust)
  have ok: "rs_Status resp = 201"
    using example_POST [of "\<lambda>_. mem_Create None" "\<lambda>_. 0" NewInMemoryStore] post by (simp add: mem_Create_def Let_def)
  have inv: "\<forall>i t. byID NewInMemoryStore i = Some t \<longrightarrow> t_ID t = i" by (simp add: NewInMemoryStore_def)
  have "r_Method (example_request ''GET'' []) = ''GET''" by (simp add: example_request_def)
  from mem_post_then_get [OF inv _ example_body_decoded(3) post ok, of "[]", OF _ _ this] post ok
  show ?thesis by simp
qed

end
