(* ===== verification/Httpx.thy ===== *)
theory Httpx
  imports Ticket_Handler
begin

text \<open>
  \<open>internal/shared/httpx\<close>: the middlewares (\<open>request_id.go\<close>, \<open>access_log.go\<close>,
  \<open>metrics.go\<close>) and the router (\<open>router.go\<close>), with the part of \<open>http.ServeMux\<close> the
  router uses. A handler turns a request and the server's state into a response and a state;
  the headers of a response are those the handlers set. All handlers of the program write
  the status once, so the status the recorders keep is the status of the response.
\<close>

section \<open>State\<close>

record access_line =
  al_request_id :: string
  al_method :: string
  al_path :: string
  al_status :: int
  al_duration_ms :: int

text \<open>
  The server: its ticket store, the route holder of the request at hand (a pointer in the
  request's context in Go), the HTTP metrics and the access log.
\<close>

record 's http =
  h_store :: 's
  h_route :: string
  h_reqTotal :: "string \<times> string \<times> int \<Rightarrow> nat"
  h_reqLatency :: "(string \<times> string \<times> duration) list"
  h_req5xxTotal :: nat
  h_log :: "access_line list"

text \<open>The server as \<open>NewRouter\<close> builds it, with fresh metrics (\<open>NewMetrics\<close>).\<close>

definition new_http :: "'s \<Rightarrow> 's http" where
  "new_http s = \<lparr>h_store = s, h_route = [], h_reqTotal = (\<lambda>_. 0), h_reqLatency = [], h_req5xxTotal = 0, h_log = []\<rparr>"

type_synonym 's handler = "Request \<Rightarrow> 's http \<Rightarrow> Response \<times> 's http"

text \<open>
  What one request meets from outside: the store's operations with their environments, the
  clock, the random bytes, the generated ticket id, the durations the two middlewares
  measure, and the two answers that library code writes (the redirect of \<open>ServeMux\<close> and
  the page of \<open>promhttp\<close>).
\<close>

record 's req_env =
  re_create :: "Context \<Rightarrow> Ticket \<Rightarrow> 's \<Rightarrow> (go_error + Ticket) \<times> 's"
  re_get :: "Context \<Rightarrow> string \<Rightarrow> 's \<Rightarrow> go_error + Ticket"
  re_readyz :: "(Context \<Rightarrow> go_error option) option"
  re_zone :: "time \<Rightarrow> int"
  re_uuid :: string
  re_now1 :: time
  re_now2 :: time
  re_rand :: "nat list option"
  re_latency :: duration
  re_duration :: duration
  re_redirect :: "string \<Rightarrow> Response"
  re_metrics :: "'s http \<Rightarrow> Response"

section \<open>Middlewares\<close>

definition newRequestID :: "nat list option \<Rightarrow> string" where
  "newRequestID rnd =
     (case rnd of
        None \<Rightarrow> ''00000000000000000000000000000000''
      | Some bs \<Rightarrow> EncodeToString bs)"

definition request_id :: "nat list option \<Rightarrow> Request \<Rightarrow> string" where
  "request_id rnd r =
     (let rid = TrimSpace (r_RequestIDHeader r) in if rid = [] then newRequestID rnd else rid)"

definition RequestID :: "nat list option \<Rightarrow> 's handler \<Rightarrow> 's handler" where
  "RequestID rnd next r h =
     (let rid = request_id rnd r;
          (resp, h') = next (r\<lparr>r_Context := requestid_With (r_Context r) rid\<rparr>) h
      in (resp\<lparr>rs_Header := [''X-Request-Id'' \<mapsto> rid] ++ rs_Header resp\<rparr>, h'))"

text \<open>\<open>Milliseconds\<close> divides towards zero.\<close>

definition milliseconds :: "duration \<Rightarrow> int" where
  "milliseconds d = (if d < 0 then - (- d div Millisecond) else d div Millisecond)"

definition AccessLog :: "duration \<Rightarrow> 's handler \<Rightarrow> 's handler" where
  "AccessLog dur next r h =
     (let (resp, h') = next r h;
          line = \<lparr>al_request_id = requestid_Get (r_Context r), al_method = r_Method r, al_path = r_Path r,
                  al_status = rs_Status resp, al_duration_ms = milliseconds dur\<rparr>
      in (resp, h'\<lparr>h_log := h_log h' @ [line]\<rparr>))"

text \<open>Without a holder in the context the route goes to one that nobody reads.\<close>

definition WithRoute :: "string \<Rightarrow> 's handler \<Rightarrow> 's handler" where
  "WithRoute route next r h =
     (if ctx_route_holder (r_Context r) then next r (h\<lparr>h_route := route\<rparr>)
      else next (r\<lparr>r_Context := (r_Context r)\<lparr>ctx_route_holder := True\<rparr>\<rparr>) h)"

definition Middleware :: "duration \<Rightarrow> 's handler \<Rightarrow> 's handler" where
  "Middleware dur next r h =
     (if r_Path r = ''/metrics'' then next r h
      else
        let (resp, h') = next (r\<lparr>r_Context := (r_Context r)\<lparr>ctx_route_holder := True\<rparr>\<rparr>) (h\<lparr>h_route := r_Path r\<rparr>);
            key = (h_route h', r_Method r, rs_Status resp)
        in (resp, h'\<lparr>h_reqTotal := (h_reqTotal h')(key := Suc (h_reqTotal h' key)),
                     h_reqLatency := h_reqLatency h' @ [(h_route h', r_Method r, dur)],
                     h_req5xxTotal := (if 500 \<le> rs_Status resp then Suc (h_req5xxTotal h') else h_req5xxTotal h')\<rparr>))"

section \<open>ServeMux\<close>

text \<open>\<open>path.Clean\<close> of a rooted path, segment by segment, and \<open>cleanPath\<close>.\<close>

fun clean_segments :: "string list \<Rightarrow> string list \<Rightarrow> string list" where
  "clean_segments acc [] = rev acc"
| "clean_segments acc (p # ps) =
     (if p = [] \<or> p = ''.'' then clean_segments acc ps
      else if p = ''..'' then clean_segments (tl acc) ps
      else clean_segments (p # acc) ps)"

definition path_Clean :: "string \<Rightarrow> string" where
  "path_Clean p =
     (case clean_segments [] (Split p (CHR ''/'')) of
        [] \<Rightarrow> ''/''
      | ps \<Rightarrow> concat (map (\<lambda>s. CHR ''/'' # s) ps))"

definition cleanPath :: "string \<Rightarrow> string" where
  "cleanPath p =
     (if p = [] then ''/''
      else
        let q = (if hd p \<noteq> CHR ''/'' then CHR ''/'' # p else p);
            np = path_Clean q
        in if last q = CHR ''/'' \<and> np \<noteq> ''/'' then np @ ''/'' else np)"

text \<open>\<open>pathUnescape\<close>: percent-decoding; a segment with a bad escape stands for itself.\<close>

fun unescape :: "string \<Rightarrow> string option" where
  "unescape [] = Some []"
| "unescape (c # s) =
     (if c = CHR ''%'' then
        (case s of
           a # b # t \<Rightarrow>
             (case (hex_val a, hex_val b, unescape t) of
                (Some x, Some y, Some u) \<Rightarrow> Some (char_of (16 * x + y) # u)
              | _ \<Rightarrow> None)
         | _ \<Rightarrow> None)
      else map_option (\<lambda>u. c # u) (unescape s))"

definition pathUnescape :: "string \<Rightarrow> string" where
  "pathUnescape s = (case unescape s of Some u \<Rightarrow> u | None \<Rightarrow> s)"

text \<open>The five patterns the router registers; the last one is the whole subtree.\<close>

datatype pattern = PMetrics | PHealthz | PReadyz | PTickets | PTicketsTree

definition mux_match :: "string \<Rightarrow> pattern option" where
  "mux_match p =
     (case p of
        [] \<Rightarrow> None
      | _ # q \<Rightarrow>
          let seg = pathUnescape (takeWhile (\<lambda>c. c \<noteq> CHR ''/'') q);
              rest = dropWhile (\<lambda>c. c \<noteq> CHR ''/'') q
          in if rest \<noteq> [] then (if seg = ''tickets'' then Some PTicketsTree else None)
             else if seg = ''metrics'' then Some PMetrics
             else if seg = ''healthz'' then Some PHealthz
             else if seg = ''readyz'' then Some PReadyz
             else if seg = ''tickets'' then Some PTickets
             else None)"

definition text_plain :: "string \<rightharpoonup> string" where
  "text_plain = [''Content-Type'' \<mapsto> ''text/plain; charset=utf-8'', ''X-Content-Type-Options'' \<mapsto> ''nosniff'']"

definition http_Error :: "string \<Rightarrow> int \<Rightarrow> Response" where
  "http_Error msg code = \<lparr>rs_Status = code, rs_Header = text_plain, rs_Body = msg @ [lf]\<rparr>"

definition plain :: "string \<Rightarrow> Response" where
  "plain body = \<lparr>rs_Status = 200, rs_Header = Map.empty, rs_Body = body\<rparr>"

section \<open>Router\<close>

definition healthz :: "'s handler" where
  "healthz r h = (plain ''ok'', h)"

definition readyz_handler :: "(Context \<Rightarrow> go_error option) option \<Rightarrow> 's handler" where
  "readyz_handler readyz r h =
     (case readyz of
        None \<Rightarrow> (plain ''ready'', h)
      | Some check \<Rightarrow>
          (case check (r_Context r) of
             Some err \<Rightarrow> (http_Error (''not ready: '' @ Error err) 503, h)
           | None \<Rightarrow> (plain ''ready'', h)))"

definition create_handler :: "'s req_env \<Rightarrow> 's handler" where
  "create_handler e r h =
     (let (resp, s) = CreateTicket (re_create e) (re_zone e) (re_uuid e) (re_now1 e) (re_now2 e) r (h_store h)
      in (resp, h\<lparr>h_store := s\<rparr>))"

definition get_handler :: "'s req_env \<Rightarrow> 's handler" where
  "get_handler e r h =
     (let i = TrimPrefix (r_Path r) ''/tickets/'' in
      if i = [] \<or> Contains i ''/'' then (WriteErrorR r 404 ''not_found'' ''not found'', h)
      else (GetTicket (re_get e) (re_zone e) r i (h_store h), h))"

definition mux_handler :: "'s req_env \<Rightarrow> pattern option \<Rightarrow> 's handler" where
  "mux_handler e pat =
     (case pat of
        None \<Rightarrow> (\<lambda>r h. (http_Error ''404 page not found'' 404, h))
      | Some PMetrics \<Rightarrow> (\<lambda>r h. (re_metrics e h, h))
      | Some PHealthz \<Rightarrow> WithRoute ''/healthz'' healthz
      | Some PReadyz \<Rightarrow> WithRoute ''/readyz'' (readyz_handler (re_readyz e))
      | Some PTickets \<Rightarrow> WithRoute ''/tickets'' (create_handler e)
      | Some PTicketsTree \<Rightarrow> WithRoute ''/tickets/:id'' (get_handler e))"

text \<open>\<open>ServeHTTP\<close>: a path that is not clean is redirected; \<open>CONNECT\<close> is taken as it is.\<close>

definition mux :: "'s req_env \<Rightarrow> 's handler" where
  "mux e r h =
     (if r_RequestURI r = ''*'' then
        (\<lparr>rs_Status = 400, rs_Header = [''Connection'' \<mapsto> ''close''], rs_Body = []\<rparr>, h)
      else if r_Method r \<noteq> ''CONNECT'' \<and> cleanPath (r_EscapedPath r) \<noteq> r_EscapedPath r then
        (re_redirect e (cleanPath (r_EscapedPath r)), h)
      else mux_handler e (mux_match (r_EscapedPath r)) r h)"

definition NewRouter :: "'s req_env \<Rightarrow> 's handler" where
  "NewRouter e = RequestID (re_rand e) (AccessLog (re_duration e) (Middleware (re_latency e) (mux e)))"

section \<open>What the router keeps\<close>

text \<open>The multiplexer and the handlers below it change the store and the route holder only.\<close>

definition same_but_store :: "'s http \<Rightarrow> 's http \<Rightarrow> bool" where
  "same_but_store h h' \<longleftrightarrow> h_reqTotal h' = h_reqTotal h \<and> h_reqLatency h' = h_reqLatency h \<and>
     h_req5xxTotal h' = h_req5xxTotal h \<and> h_log h' = h_log h"

lemmas handler_defs = healthz_def readyz_handler_def create_handler_def get_handler_def WithRoute_def

lemma mux_handler_frame: "mux_handler e pat r h = (resp, h') \<Longrightarrow> same_but_store h h'"
  by (auto simp: mux_handler_def handler_defs same_but_store_def Let_def
      split: option.splits pattern.splits if_splits prod.splits)

lemma mux_frame: "mux e r h = (resp, h') \<Longrightarrow> same_but_store h h'"
  by (auto simp: mux_def same_but_store_def dest: mux_handler_frame [unfolded same_but_store_def] split: if_splits)

text \<open>The headers the program's own answers carry.\<close>

lemma program_headers [simp]:
  "rs_Header (WriteErrorR r status code message) = [''Content-Type'' \<mapsto> json_type]"
  "rs_Header (writeJSON zone status t) = [''Content-Type'' \<mapsto> json_type]"
  "rs_Header (plain body) = Map.empty" "rs_Header (http_Error msg status) = text_plain"
  by (simp_all add: WriteErrorR_def writeJSON_def plain_def http_Error_def)

lemma CreateTicket_header:
  "CreateTicket create zone uuid now1 now2 r s = (resp, s') \<Longrightarrow> rs_Header resp = [''Content-Type'' \<mapsto> json_type]"
  by (rule CreateTicket_cases [of create zone uuid now1 now2 r s]) auto

lemma GetTicket_header: "rs_Header (GetTicket get zone r i s) = [''Content-Type'' \<mapsto> json_type]"
  by (simp add: GetTicket_def Let_def split: sum.split)

lemma mux_no_request_id:
  assumes "\<And>p. rs_Header (re_redirect e p) ''X-Request-Id'' = None" and "\<And>h. rs_Header (re_metrics e h) ''X-Request-Id'' = None"
    and "mux e r h = (resp, h')"
  shows "rs_Header resp ''X-Request-Id'' = None"
  using assms
  by (auto simp: mux_def mux_handler_def handler_defs text_plain_def GetTicket_header Let_def
      split: if_splits option.splits pattern.splits prod.splits dest!: CreateTicket_header)

text \<open>The request id is never empty, given the sixteen random bytes.\<close>

lemma request_id_nonempty: "(\<forall>bs. rnd = Some bs \<longrightarrow> bs \<noteq> []) \<Longrightarrow> request_id rnd r \<noteq> []"
  by (auto simp: request_id_def newRequestID_def EncodeToString_def Let_def neq_Nil_conv split: option.splits)

lemma request_id_hex:
  "TrimSpace (r_RequestIDHeader r) = [] \<Longrightarrow> (\<forall>bs. rnd = Some bs \<longrightarrow> length bs = 16) \<Longrightarrow>
   length (request_id rnd r) = 32"
  by (auto simp: request_id_def newRequestID_def length_EncodeToString split: option.splits)

text \<open>One request through the middlewares: the answer of the multiplexer, one line of log, one count.\<close>

lemma NewRouter_run:
  obtains rq resp h1 where
    "rq = (if r_Path r = ''/metrics'' then r\<lparr>r_Context := requestid_With (r_Context r) (request_id (re_rand e) r)\<rparr>
       else r\<lparr>r_Context := (requestid_With (r_Context r) (request_id (re_rand e) r))\<lparr>ctx_route_holder := True\<rparr>\<rparr>)"
    "mux e rq (if r_Path r = ''/metrics'' then h else h\<lparr>h_route := r_Path r\<rparr>) = (resp, h1)"
    "fst (NewRouter e r h) = resp\<lparr>rs_Header := [''X-Request-Id'' \<mapsto> request_id (re_rand e) r] ++ rs_Header resp\<rparr>"
    "h_store (snd (NewRouter e r h)) = h_store h1"
    "h_log (snd (NewRouter e r h)) = h_log h @ [\<lparr>al_request_id = request_id (re_rand e) r, al_method = r_Method r,
       al_path = r_Path r, al_status = rs_Status resp, al_duration_ms = milliseconds (re_duration e)\<rparr>]"
    "r_Path r \<noteq> ''/metrics'' \<Longrightarrow> h_reqTotal (snd (NewRouter e r h)) =
       (h_reqTotal h)((h_route h1, r_Method r, rs_Status resp) := Suc (h_reqTotal h (h_route h1, r_Method r, rs_Status resp)))"
    "r_Path r \<noteq> ''/metrics'' \<Longrightarrow> h_req5xxTotal (snd (NewRouter e r h)) =
       h_req5xxTotal h + (if 500 \<le> rs_Status resp then 1 else 0)"
    "r_Path r = ''/metrics'' \<Longrightarrow> h_reqTotal (snd (NewRouter e r h)) = h_reqTotal h \<and>
       h_req5xxTotal (snd (NewRouter e r h)) = h_req5xxTotal h"
proof -
  let ?rid = "request_id (re_rand e) r"
  let ?rq = "if r_Path r = ''/metrics'' then r\<lparr>r_Context := requestid_With (r_Context r) ?rid\<rparr>
       else r\<lparr>r_Context := (requestid_With (r_Context r) ?rid)\<lparr>ctx_route_holder := True\<rparr>\<rparr>"
  let ?h = "if r_Path r = ''/metrics'' then h else h\<lparr>h_route := r_Path r\<rparr>"
  obtain resp h1 where m: "mux e ?rq ?h = (resp, h1)" by (rule prod.exhaust)
  have "same_but_store ?h h1" using mux_frame [OF m] .
  then have frame: "h_reqTotal h1 = h_reqTotal h" "h_req5xxTotal h1 = h_req5xxTotal h" "h_log h1 = h_log h"
    by (simp_all add: same_but_store_def split: if_splits)
  show thesis
    by (rule that [OF refl m])
       (use m frame in \<open>simp_all add: NewRouter_def RequestID_def AccessLog_def Middleware_def Let_def
          requestid_With_def requestid_Get_def split: if_splits prod.splits\<close>)
qed

section \<open>Routing of ticket paths\<close>

text \<open>An id that is one plain path segment.\<close>

definition plain_segment :: "string \<Rightarrow> bool" where
  "plain_segment i \<longleftrightarrow> i \<noteq> [] \<and> CHR ''/'' \<notin> set i \<and> i \<noteq> ''.'' \<and> i \<noteq> ''..''"

lemma Split_single: "sep \<notin> set s \<Longrightarrow> Split s sep = [s]"
  by (induction s) auto

lemma cleanPath_ticket:
  assumes "plain_segment i"
  shows "cleanPath (''/tickets/'' @ i) = ''/tickets/'' @ i"
proof -
  have "last i \<noteq> CHR ''/''" using assms last_in_set [of i] by (metis plain_segment_def)
  with assms show ?thesis
    by (simp add: plain_segment_def cleanPath_def path_Clean_def Split_single Let_def)
qed

lemma mux_match_ticket: "mux_match (''/tickets/'' @ i) = Some PTicketsTree" "mux_match ''/tickets'' = Some PTickets"
  by (simp_all add: mux_match_def pathUnescape_def Let_def)

lemma cleanPath_tickets: "cleanPath ''/tickets'' = ''/tickets''"
  by code_simp

text \<open>
  A request that goes to one of the two ticket routes by its plain path, and what the router
  does with it: the handler's answer and store, under the request id.
\<close>

definition for_path :: "string \<Rightarrow> Request \<Rightarrow> bool" where
  "for_path p r \<longleftrightarrow> r_Path r = p \<and> r_EscapedPath r = p \<and> r_RequestURI r \<noteq> ''*''"

definition seen_request :: "'s req_env \<Rightarrow> Request \<Rightarrow> Request" where
  "seen_request e r =
     r\<lparr>r_Context := (requestid_With (r_Context r) (request_id (re_rand e) r))\<lparr>ctx_route_holder := True\<rparr>\<rparr>"

definition stamped :: "'s req_env \<Rightarrow> Request \<Rightarrow> Response \<Rightarrow> Response" where
  "stamped e r resp = resp\<lparr>rs_Header := [''X-Request-Id'' \<mapsto> request_id (re_rand e) r] ++ rs_Header resp\<rparr>"

lemma NewRouter_tickets:
  assumes "for_path ''/tickets'' r"
    and "CreateTicket (re_create e) (re_zone e) (re_uuid e) (re_now1 e) (re_now2 e) (seen_request e r) (h_store h) = (resp, s)"
  shows "fst (NewRouter e r h) = stamped e r resp" and "h_store (snd (NewRouter e r h)) = s"
  using assms
  by (simp_all add: NewRouter_def RequestID_def AccessLog_def Middleware_def mux_def for_path_def cleanPath_tickets
      mux_match_ticket mux_handler_def WithRoute_def create_handler_def seen_request_def stamped_def Let_def)

lemma NewRouter_ticket:
  assumes "for_path (''/tickets/'' @ i) r" and "plain_segment i"
  shows "fst (NewRouter e r h) = stamped e r (GetTicket (re_get e) (re_zone e) (seen_request e r) i (h_store h))"
    and "h_store (snd (NewRouter e r h)) = h_store h"
proof -
  have "TrimPrefix (''/tickets/'' @ i) ''/tickets/'' = i" by (simp add: TrimPrefix_def HasPrefix_def)
  moreover have "\<not> Contains i ''/''" using assms(2) by (auto simp: Contains_iff plain_segment_def)
  ultimately show "fst (NewRouter e r h) = stamped e r (GetTicket (re_get e) (re_zone e) (seen_request e r) i (h_store h))"
    and "h_store (snd (NewRouter e r h)) = h_store h"
    using assms cleanPath_ticket [OF assms(2)] mux_match_ticket(1) [of i]
    by (simp_all add: NewRouter_def RequestID_def AccessLog_def Middleware_def mux_def for_path_def
        mux_handler_def WithRoute_def get_handler_def seen_request_def stamped_def plain_segment_def Let_def)
qed

section \<open>Properties\<close>

definition example_req_env :: "pgdb req_env" where
  "example_req_env =
     \<lparr>re_create = pg_Create plain_postgres example_env, re_get = (\<lambda>_. pg_Get plain_postgres Success),
      re_readyz = None, re_zone = (\<lambda>_. 0), re_uuid = ''t1'', re_now1 = 1000, re_now2 = 1000, re_rand = None,
      re_latency = 5, re_duration = 5, re_redirect = (\<lambda>p. http_Error p 301), re_metrics = (\<lambda>_. plain [])\<rparr>"

definition example_get :: Request where
  "example_get = (example_request ''GET'' [])\<lparr>r_Path := ''/tickets/t1'', r_EscapedPath := ''/tickets/t1'',
     r_RequestURI := ''/tickets/t1''\<rparr>"

text \<open>
  C36. Every answer carries a request id, the client's own when it sent one and 32 hexadecimal
  digits otherwise, and every request leaves exactly one line in the access log, with that
  id, its method and path and the status it was answered with. The two answers that library
  code writes are taken not to set the header themselves.
\<close>

theorem request_id_traced:
  assumes "\<forall>p. rs_Header (re_redirect e p) ''X-Request-Id'' = None" and "\<forall>h. rs_Header (re_metrics e h) ''X-Request-Id'' = None"
    and "\<forall>bs. re_rand e = Some bs \<longrightarrow> length bs = 16"
  shows "\<exists>rid line. rs_Header (fst (NewRouter e r h)) ''X-Request-Id'' = Some rid \<and>
    (if TrimSpace (r_RequestIDHeader r) \<noteq> [] then rid = TrimSpace (r_RequestIDHeader r) else length rid = 32) \<and>
    h_log (snd (NewRouter e r h)) = h_log h @ [line] \<and> al_request_id line = rid \<and>
    al_method line = r_Method r \<and> al_path line = r_Path r \<and> al_status line = rs_Status (fst (NewRouter e r h))"
proof (rule NewRouter_run [of r e h])
  fix rq resp h1
  assume m: "mux e rq (if r_Path r = ''/metrics'' then h else h\<lparr>h_route := r_Path r\<rparr>) = (resp, h1)"
    and out: "fst (NewRouter e r h) = resp\<lparr>rs_Header := [''X-Request-Id'' \<mapsto> request_id (re_rand e) r] ++ rs_Header resp\<rparr>"
    and log: "h_log (snd (NewRouter e r h)) = h_log h @ [\<lparr>al_request_id = request_id (re_rand e) r, al_method = r_Method r,
       al_path = r_Path r, al_status = rs_Status resp, al_duration_ms = milliseconds (re_duration e)\<rparr>]"
  have "rs_Header resp ''X-Request-Id'' = None" by (rule mux_no_request_id [OF _ _ m]) (use assms in auto)
  then have "rs_Header (fst (NewRouter e r h)) ''X-Request-Id'' = Some (request_id (re_rand e) r)"
    by (simp add: out map_add_def)
  moreover have "if TrimSpace (r_RequestIDHeader r) \<noteq> [] then request_id (re_rand e) r = TrimSpace (r_RequestIDHeader r)
      else length (request_id (re_rand e) r) = 32"
    using request_id_hex [of r "re_rand e"] assms(3) by (simp add: request_id_def Let_def)
  ultimately show ?thesis using log out by simp
qed

theorem request_id_traced_witness:
  "\<exists>rid. rs_Header (fst (NewRouter example_req_env example_get (new_http empty_db))) ''X-Request-Id'' = Some rid \<and>
     length rid = 32"
proof -
  have "TrimSpace (r_RequestIDHeader example_get) = []" by (simp add: example_get_def example_request_def)
  with request_id_traced [of example_req_env example_get "new_http empty_db"] show ?thesis
    by (auto simp: example_req_env_def text_plain_def)
qed

text \<open>
  C37. Every request outside \<open>/metrics\<close> raises exactly one cell of the request counter by
  one, under its method, its status and its route label, and the counter of server errors
  exactly when the status is 500 or more. The label is one of the four route names, or the
  raw path of the request when no route took it.
\<close>

theorem request_counted_once:
  assumes "r_Path r \<noteq> ''/metrics''"
  shows "\<exists>route. route \<in> {''/healthz'', ''/readyz'', ''/tickets'', ''/tickets/:id'', r_Path r} \<and>
    (let key = (route, r_Method r, rs_Status (fst (NewRouter e r h))) in
       h_reqTotal (snd (NewRouter e r h)) = (h_reqTotal h)(key := Suc (h_reqTotal h key))) \<and>
    h_req5xxTotal (snd (NewRouter e r h)) =
      h_req5xxTotal h + (if 500 \<le> rs_Status (fst (NewRouter e r h)) then 1 else 0)"
proof (rule NewRouter_run [of r e h])
  fix rq resp h1
  assume rq: "rq = (if r_Path r = ''/metrics'' then r\<lparr>r_Context := requestid_With (r_Context r) (request_id (re_rand e) r)\<rparr>
       else r\<lparr>r_Context := (requestid_With (r_Context r) (request_id (re_rand e) r))\<lparr>ctx_route_holder := True\<rparr>\<rparr>)"
    and m: "mux e rq (if r_Path r = ''/metrics'' then h else h\<lparr>h_route := r_Path r\<rparr>) = (resp, h1)"
    and out: "fst (NewRouter e r h) = resp\<lparr>rs_Header := [''X-Request-Id'' \<mapsto> request_id (re_rand e) r] ++ rs_Header resp\<rparr>"
    and total: "r_Path r \<noteq> ''/metrics'' \<Longrightarrow> h_reqTotal (snd (NewRouter e r h)) =
       (h_reqTotal h)((h_route h1, r_Method r, rs_Status resp) := Suc (h_reqTotal h (h_route h1, r_Method r, rs_Status resp)))"
    and five: "r_Path r \<noteq> ''/metrics'' \<Longrightarrow> h_req5xxTotal (snd (NewRouter e r h)) =
       h_req5xxTotal h + (if 500 \<le> rs_Status resp then 1 else 0)"
  have "h_route h1 \<in> {''/healthz'', ''/readyz'', ''/tickets'', ''/tickets/:id'', r_Path r}"
    using m assms by (auto simp: rq mux_def mux_handler_def handler_defs Let_def
        split: if_splits option.splits pattern.splits prod.splits)
  then show ?thesis
    using total five assms out by (intro exI [of _ "h_route h1"]) (simp add: Let_def)
qed

theorem request_counted_once_witness:
  "\<exists>route. h_reqTotal (snd (NewRouter example_req_env example_get (new_http empty_db)))
     (route, ''GET'', rs_Status (fst (NewRouter example_req_env example_get (new_http empty_db)))) = 1"
proof -
  have "r_Path example_get \<noteq> ''/metrics''" "r_Method example_get = ''GET''"
    by (simp_all add: example_get_def example_request_def)
  with request_counted_once [of example_get example_req_env "new_http empty_db"] show ?thesis
    by (auto simp: new_http_def Let_def)
qed

text \<open>
  C16. Through the whole router: what \<open>POST /tickets\<close> answered with 201, a later
  \<open>GET /tickets/<id>\<close> answers with 200 and the same body, with the store in Postgres.
\<close>

theorem router_post_then_get:
  assumes "db_ok (h_store h)" and "plain_segment (re_uuid e)" and "TrimSpace (re_uuid e) = re_uuid e"
    and "re_create e = pg_Create pg ce" and "re_get e' = (\<lambda>_. pg_Get pg Success)" and "re_zone e' = re_zone e"
    and "for_path ''/tickets'' r" and "rs_Status (fst (NewRouter e r h)) = 201"
    and "for_path (''/tickets/'' @ re_uuid e) r'" and "r_Method r' = ''GET''"
    and "h_store h' = h_store (snd (NewRouter e r h))"
  shows "rs_Status (fst (NewRouter e' r' h')) = 200 \<and>
    rs_Body (fst (NewRouter e' r' h')) = rs_Body (fst (NewRouter e r h))"
proof -
  obtain resp s where c: "CreateTicket (pg_Create pg ce) (re_zone e) (re_uuid e) (re_now1 e) (re_now2 e) (seen_request e r)
      (h_store h) = (resp, s)" by (rule prod.exhaust)
  note post = NewRouter_tickets [OF assms(7), of e h, unfolded assms(4), OF c]
  have 201: "rs_Status resp = 201" using assms(8) post(1) by (simp add: stamped_def)
  have "r_Method (seen_request e' r') = ''GET''" "re_uuid e \<noteq> []"
    using assms(2,10) by (simp_all add: seen_request_def plain_segment_def)
  then have "GetTicket (\<lambda>_. pg_Get pg Success) (re_zone e) (seen_request e' r') (re_uuid e) s = resp\<lparr>rs_Status := 200\<rparr>"
    using pgs.posted_ticket_is_served [of "h_store h" Success "re_uuid e" pg "\<lambda>ctx. (ce, ctx)" "re_zone e" "re_now1 e" "re_now2 e"
        "seen_request e r" resp s "[]" "seen_request e' r'"] assms(1,3) c 201 by simp
  then show ?thesis
    using NewRouter_ticket(1) [OF assms(9,2), of e' h'] post assms(5,6,11) by (simp add: stamped_def)
qed

theorem router_post_then_get_witness:
  "let post = NewRouter example_req_env (example_request ''POST'' example_body) (new_http empty_db);
       get = NewRouter example_req_env example_get (snd post)
   in rs_Status (fst post) = 201 \<and> rs_Status (fst get) = 200 \<and> rs_Body (fst get) = rs_Body (fst post)"
proof -
  let ?e = "example_req_env" and ?r = "example_request ''POST'' example_body" and ?h = "new_http empty_db"
  let ?post = "NewRouter ?e ?r ?h"
  have paths: "for_path ''/tickets'' ?r" "for_path (''/tickets/'' @ re_uuid ?e) example_get" "plain_segment (re_uuid ?e)"
    "r_Method example_get = ''GET''" "db_ok (h_store ?h)"
    by (simp_all add: for_path_def example_request_def example_get_def plain_segment_def example_req_env_def
        new_http_def db_ok_empty)
  obtain out s where create: "pg_Create plain_postgres example_env
        \<lparr>ctx_request_id = Some ''00000000000000000000000000000000'', ctx_route_holder = True\<rparr>
        (new_ticket ''t1'' 1000 1000 \<lparr>req_Title = ''abc'', req_Description = []\<rparr>) empty_db = (Inr out, s)"
    using example_Create [of "new_ticket ''t1'' 1000 1000 \<lparr>req_Title = ''abc'', req_Description = []\<rparr>" empty_db
        "\<lparr>ctx_request_id = Some ''00000000000000000000000000000000'', ctx_route_holder = True\<rparr>"]
    by (auto simp: new_ticket_def empty_db_def)
  have seen: "seen_request ?e ?r = ?r\<lparr>r_Context := \<lparr>ctx_request_id = Some ''00000000000000000000000000000000'', ctx_route_holder = True\<rparr>\<rparr>"
    by (simp add: seen_request_def example_request_def request_id_def newRequestID_def requestid_With_def example_req_env_def)
  have "Decode_second_EOF example_body []" by (simp add: Decode_second_EOF_def example_limit skip_ws_def)
  then have "CreateTicket (re_create ?e) (re_zone ?e) (re_uuid ?e) (re_now1 ?e) (re_now2 ?e) (seen_request ?e ?r) (h_store ?h)
      = (writeJSON (\<lambda>_. 0) 201 out, s)"
    unfolding seen using create
    by (simp add: CreateTicket_def example_request_def example_body_decoded new_ticket_def example_req_env_def new_http_def Let_def)
  from NewRouter_tickets(1) [OF paths(1) this] have 201: "rs_Status (fst ?post) = 201"
    by (simp add: stamped_def)
  have uuid: "TrimSpace (re_uuid ?e) = re_uuid ?e" "re_create ?e = pg_Create plain_postgres example_env"
    "re_get ?e = (\<lambda>_. pg_Get plain_postgres Success)"
    using example_body_decoded(3) by (simp_all add: example_req_env_def)
  show ?thesis
    using router_post_then_get [OF paths(5,3) uuid(1,2,3) refl paths(1) 201 paths(2,4) refl] 201
    by (simp add: Let_def)
qed

end
