(* ===== verification/Recorders.thy ===== *)
theory Recorders
  imports Httpx
begin

text \<open>
  How the middlewares learn the status of an answer: \<open>statusRecorder\<close> of
  \<open>access_log.go\<close> around the connection, \<open>metricsRecorder\<close> of \<open>metrics.go\<close> around
  that. Theory \<open>Httpx\<close> takes the status from the response; here the handlers are seen as
  the calls they make on their \<open>http.ResponseWriter\<close>, and the recorders are shown to keep
  the status the client is sent.
\<close>

section \<open>Writers\<close>

datatype write_call = WriteHeader int | Write string

text \<open>
  The writer of \<open>net/http\<close>: the first \<open>WriteHeader\<close> counts, later ones are superfluous, and
  a \<open>Write\<close> without one sends 200. (The informational codes below 200, after which
  \<open>net/http\<close> still waits for the final one, are taken as final too; no handler of the services
  sends one.)
\<close>

record conn =
  cn_status :: "int option"
  cn_body :: string

definition conn_WriteHeader :: "int \<Rightarrow> conn \<Rightarrow> conn" where
  "conn_WriteHeader code w = (if cn_status w = None then w\<lparr>cn_status := Some code\<rparr> else w)"

definition conn_Write :: "string \<Rightarrow> conn \<Rightarrow> conn" where
  "conn_Write b w = (let w = conn_WriteHeader 200 w in w\<lparr>cn_body := cn_body w @ b\<rparr>)"

text \<open>The recorders embed their writer: \<open>Write\<close> is the one of the embedded writer.\<close>

record 'w statusRecorder =
  sr_ResponseWriter :: 'w
  sr_status :: int

definition statusRecorder_WriteHeader :: "(int \<Rightarrow> 'w \<Rightarrow> 'w) \<Rightarrow> int \<Rightarrow> 'w statusRecorder \<Rightarrow> 'w statusRecorder" where
  "statusRecorder_WriteHeader write_header code w =
     w\<lparr>sr_status := code, sr_ResponseWriter := write_header code (sr_ResponseWriter w)\<rparr>"

definition statusRecorder_Write :: "(string \<Rightarrow> 'w \<Rightarrow> 'w) \<Rightarrow> string \<Rightarrow> 'w statusRecorder \<Rightarrow> 'w statusRecorder" where
  "statusRecorder_Write write_body b w = w\<lparr>sr_ResponseWriter := write_body b (sr_ResponseWriter w)\<rparr>"

record 'w metricsRecorder =
  mr_ResponseWriter :: 'w
  mr_status :: int

definition metricsRecorder_WriteHeader :: "(int \<Rightarrow> 'w \<Rightarrow> 'w) \<Rightarrow> int \<Rightarrow> 'w metricsRecorder \<Rightarrow> 'w metricsRecorder" where
  "metricsRecorder_WriteHeader write_header code w =
     w\<lparr>mr_status := code, mr_ResponseWriter := write_header code (mr_ResponseWriter w)\<rparr>"

definition metricsRecorder_Write :: "(string \<Rightarrow> 'w \<Rightarrow> 'w) \<Rightarrow> string \<Rightarrow> 'w metricsRecorder \<Rightarrow> 'w metricsRecorder" where
  "metricsRecorder_Write write_body b w = w\<lparr>mr_ResponseWriter := write_body b (mr_ResponseWriter w)\<rparr>"

text \<open>The calls of a handler, one after the other.\<close>

primrec call :: "(int \<Rightarrow> 'w \<Rightarrow> 'w) \<Rightarrow> (string \<Rightarrow> 'w \<Rightarrow> 'w) \<Rightarrow> write_call \<Rightarrow> 'w \<Rightarrow> 'w" where
  "call write_header write_body (WriteHeader code) = write_header code"
| "call write_header write_body (Write b) = write_body b"

text \<open>A handler that sets the status, if at all, before everything else.\<close>

primrec is_Write :: "write_call \<Rightarrow> bool" where
  "is_Write (WriteHeader _) = False"
| "is_Write (Write _) = True"

definition orderly :: "write_call list \<Rightarrow> bool" where
  "orderly cs \<longleftrightarrow> list_all is_Write (tl cs)"

text \<open>
  The handlers of the program, \<open>WriteErrorR\<close>, \<open>writeJSON\<close> and \<open>http.Error\<close> included,
  write a response by its status and then its body.
\<close>

definition response_calls :: "Response \<Rightarrow> write_call list" where
  "response_calls resp = [WriteHeader (rs_Status resp), Write (rs_Body resp)]"

section \<open>The contracts\<close>

text \<open>What a handler may rely on of a writer, and a middleware of a recorder.\<close>

locale response_writer =
  fixes write_header :: "int \<Rightarrow> 'w \<Rightarrow> 'w" and write_body :: "string \<Rightarrow> 'w \<Rightarrow> 'w" and sent :: "'w \<Rightarrow> int option"
  assumes header_sent: "sent (write_header code w) = Some (case sent w of None \<Rightarrow> code | Some s \<Rightarrow> s)"
    and body_sent: "sent (write_body b w) = Some (case sent w of None \<Rightarrow> 200 | Some s \<Rightarrow> s)"
begin

lemma writes_keep_status:
  "list_all is_Write cs \<Longrightarrow> sent w = Some s \<Longrightarrow> sent (fold (call write_header write_body) cs w) = Some s"
proof (induction cs arbitrary: w)
  case (Cons c cs)
  then show ?case by (cases c) (simp_all add: body_sent)
qed simp

end

locale recorder = response_writer write_header write_body sent
  for write_header :: "int \<Rightarrow> 'w \<Rightarrow> 'w" and write_body :: "string \<Rightarrow> 'w \<Rightarrow> 'w" and sent :: "'w \<Rightarrow> int option" +
  fixes rec_header :: "int \<Rightarrow> 'r \<Rightarrow> 'r" and rec_write :: "string \<Rightarrow> 'r \<Rightarrow> 'r" and status :: "'r \<Rightarrow> int" and inner :: "'r \<Rightarrow> 'w"
  assumes header_recorded: "status (rec_header code r) = code" "inner (rec_header code r) = write_header code (inner r)"
    and body_passed: "status (rec_write b r) = status r" "inner (rec_write b r) = write_body b (inner r)"
begin

lemma writes_recorded:
  "list_all is_Write cs \<Longrightarrow> status (fold (call rec_header rec_write) cs r) = status r"
proof (induction cs arbitrary: r)
  case (Cons c cs)
  then show ?case by (cases c) (simp_all add: body_passed)
qed simp

lemma passed_on: "inner (fold (call rec_header rec_write) cs r) = fold (call write_header write_body) cs (inner r)"
proof (induction cs arbitrary: r)
  case (Cons c cs)
  then show ?case by (cases c) (simp_all add: header_recorded body_passed)
qed simp

text \<open>A recorder that starts with 200 ends with what the client is sent.\<close>

lemma recorded:
  assumes "orderly cs" and "sent (inner r) = None" and "status r = 200"
  shows "status (fold (call rec_header rec_write) cs r) =
    (case sent (inner (fold (call rec_header rec_write) cs r)) of None \<Rightarrow> 200 | Some s \<Rightarrow> s)"
proof (cases cs)
  case (Cons c cs')
  with assms(1) have ws: "list_all is_Write cs'" by (simp add: orderly_def)
  show ?thesis
  proof (cases c)
    case (WriteHeader code)
    have "sent (write_header code (inner r)) = Some code" using assms(2) by (simp add: header_sent)
    from writes_keep_status [OF ws this] show ?thesis
      by (simp add: Cons WriteHeader passed_on writes_recorded [OF ws] header_recorded)
  next
    case (Write b)
    have "sent (write_body b (inner r)) = Some 200" using assms(2) by (simp add: body_sent)
    from writes_keep_status [OF ws this] show ?thesis
      by (simp add: Cons Write passed_on writes_recorded [OF ws] body_passed assms(3))
  qed
qed (use assms in simp)

end

text \<open>A recorder is a writer again, so recorders can be stacked.\<close>

sublocale recorder \<subseteq> outer: response_writer rec_header rec_write "\<lambda>r. sent (inner r)"
  by unfold_locales (simp_all add: header_recorded body_passed header_sent body_sent)

interpretation cw: response_writer conn_WriteHeader conn_Write cn_status
  by unfold_locales (simp_all add: conn_WriteHeader_def conn_Write_def Let_def split: option.split)

abbreviation access_WriteHeader :: "int \<Rightarrow> conn statusRecorder \<Rightarrow> conn statusRecorder" where
  "access_WriteHeader \<equiv> statusRecorder_WriteHeader conn_WriteHeader"

abbreviation access_Write :: "string \<Rightarrow> conn statusRecorder \<Rightarrow> conn statusRecorder" where
  "access_Write \<equiv> statusRecorder_Write conn_Write"

interpretation sr: recorder conn_WriteHeader conn_Write cn_status access_WriteHeader access_Write sr_status sr_ResponseWriter
  by unfold_locales (simp_all add: statusRecorder_WriteHeader_def statusRecorder_Write_def)

interpretation mr: recorder access_WriteHeader access_Write "\<lambda>w. cn_status (sr_ResponseWriter w)"
  "metricsRecorder_WriteHeader access_WriteHeader" "metricsRecorder_Write access_Write" mr_status mr_ResponseWriter
  by unfold_locales (simp_all add: metricsRecorder_WriteHeader_def metricsRecorder_Write_def)

section \<open>Properties\<close>

text \<open>The writer a handler gets, behind both middlewares, and what is left of it when it returns.\<close>

definition new_writer :: "conn statusRecorder metricsRecorder" where
  "new_writer = \<lparr>mr_ResponseWriter = \<lparr>sr_ResponseWriter = \<lparr>cn_status = None, cn_body = []\<rparr>, sr_status = 200\<rparr>, mr_status = 200\<rparr>"

definition served :: "write_call list \<Rightarrow> conn statusRecorder metricsRecorder" where
  "served cs = fold (call (metricsRecorder_WriteHeader access_WriteHeader) (metricsRecorder_Write access_Write)) cs new_writer"

definition client_status :: "write_call list \<Rightarrow> int" where
  "client_status cs = (case cn_status (sr_ResponseWriter (mr_ResponseWriter (served cs))) of None \<Rightarrow> 200 | Some s \<Rightarrow> s)"

lemma served_metrics: "orderly cs \<Longrightarrow> mr_status (served cs) = client_status cs"
  unfolding served_def client_status_def by (rule mr.recorded) (simp_all add: new_writer_def)

lemma served_access:
  assumes "orderly cs"
  shows "sr_status (mr_ResponseWriter (served cs)) = client_status cs"
  unfolding served_def client_status_def mr.passed_on by (rule sr.recorded [OF assms]) (simp_all add: new_writer_def)

text \<open>
  C40. The access log and the metrics report the status that was sent: for every handler that
  sets its status before writing the body, or not at all, the recorders of both middlewares
  end with the status the client gets. In particular the status in the access log line of a
  request is the one its calls put on the wire.
\<close>

theorem recorded_status_is_sent:
  assumes "orderly cs"
  shows "mr_status (served cs) = client_status cs \<and> sr_status (mr_ResponseWriter (served cs)) = client_status cs \<and>
    (cs = response_calls (fst (NewRouter e r h)) \<longrightarrow>
       client_status cs = al_status (last (h_log (snd (NewRouter e r h)))))"
proof -
  have "client_status (response_calls resp) = rs_Status resp" for resp
    by (simp add: response_calls_def client_status_def served_def new_writer_def metricsRecorder_WriteHeader_def
        metricsRecorder_Write_def statusRecorder_WriteHeader_def statusRecorder_Write_def conn_WriteHeader_def conn_Write_def
        Let_def)
  moreover have "al_status (last (h_log (snd (NewRouter e r h)))) = rs_Status (fst (NewRouter e r h))"
    by (rule NewRouter_run [of r e h]) simp
  ultimately show ?thesis using served_metrics [OF assms] served_access [OF assms] by simp
qed

theorem recorded_status_is_sent_witness:
  "mr_status (served [WriteHeader 503, Write ''not ready'']) = 503 \<and> mr_status (served [Write ''ok'']) = 200"
proof -
  have "orderly [WriteHeader 503, Write ''not ready'']" "orderly [Write ''ok'']"
    and "client_status [WriteHeader 503, Write ''not ready''] = 503" "client_status [Write ''ok''] = 200" by code_simp+
  with recorded_status_is_sent show ?thesis by metis
qed

text \<open>
  A handler that set its status twice would be recorded with the second one, which the client
  never sees.
\<close>

lemma second_status_recorded: "client_status [WriteHeader 200, WriteHeader 500] = 200 \<and> mr_status (served [WriteHeader 200, WriteHeader 500]) = 500"
  by code_simp

end
