(* ===== verification/World.thy ===== *)
theory World
  imports Database
begin

text \<open>
  The world the services run in: the database, the Kafka topics, and the script of
  everything the outside decides. Each interaction with the outside (a round trip to the
  server, a write to Kafka, a look at the clock) consumes one event of the script, which
  says how the call ends, what time it is where it is served, and which rows other
  statements hold locked just then (\<open>ev_db\<close> is how a round trip to Postgres ends,
  \<open>ev_kafka\<close> how one to Kafka does, \<open>ev_again\<close> how often the Kafka writer repeated a
  write by itself), and whether the process has been told to stop
  (\<open>ev_done\<close>). A theorem for every script covers every pattern of
  failures, delays and clock readings.
\<close>

section \<open>State\<close>

record event =
  ev_db :: outcome
  ev_kafka :: outcome
  ev_again :: nat
  ev_time :: time
  ev_locked :: "int \<Rightarrow> bool"
  ev_done :: bool

record message =
  m_Key :: string
  m_Value :: string

text \<open>\<open>internal/outbox/metrics.go\<close>: counters by event type, and the lag.\<close>

record Metrics =
  PublishedTotal :: "string \<Rightarrow> nat"
  FailedTotal :: "string \<Rightarrow> nat"
  DeadTotal :: "string \<Rightarrow> nat"
  LagGauge :: duration

text \<open>A fresh registry: every counter reads 0, the pre-created label sets included.\<close>

definition NewMetrics :: Metrics where
  "NewMetrics = \<lparr>PublishedTotal = (\<lambda>_. 0), FailedTotal = (\<lambda>_. 0), DeadTotal = (\<lambda>_. 0),
     LagGauge = 0\<rparr>"

text \<open>The counters of the notification service, by event type and status or reason.\<close>

record NotifyMetrics =
  nm_processed :: "string \<Rightarrow> string \<Rightarrow> nat"
  nm_errors :: "string \<Rightarrow> string \<Rightarrow> nat"
  nm_fetched :: nat
  nm_committed :: nat
  nm_last_processed :: time

definition NewNotifyMetrics :: NotifyMetrics where
  "NewNotifyMetrics = \<lparr>nm_processed = (\<lambda>_ _. 0), nm_errors = (\<lambda>_ _. 0), nm_fetched = 0,
     nm_committed = 0, nm_last_processed = 0\<rparr>"

text \<open>
  A topic is the list of messages written to it. \<open>w_commits\<close> lists the messages whose
  offset the consumer group has committed, and \<open>w_notified\<close> the ids of the events for
  which a notification was issued, in order.
\<close>

record world =
  w_script :: "nat \<Rightarrow> event"
  w_cursor :: nat
  w_db :: pgdb
  w_topics :: "string \<Rightarrow> message list"
  w_commits :: "message list"
  w_notified :: "string list"
  w_met :: Metrics
  w_nmet :: NotifyMetrics

section \<open>Interactions\<close>

definition next_event :: "(world, event) state" where
  "next_event = State (\<lambda>w. (w_script w (w_cursor w), w\<lparr>w_cursor := Suc (w_cursor w)\<rparr>))"

definition time_Now :: "(world, time) state" where
  "time_Now = do { ev \<leftarrow> next_event; return (ev_time ev) }"

definition db_call :: "(event \<Rightarrow> pgdb \<Rightarrow> 'r \<times> pgdb) \<Rightarrow> (world, 'r) state" where
  "db_call f = do {
     ev \<leftarrow> next_event;
     db \<leftarrow> gets w_db;
     modify (\<lambda>w. w\<lparr>w_db := snd (f ev db)\<rparr>);
     return (fst (f ev db))
   }"

text \<open>A statement that works on the outbox table, or on \<open>processed_events\<close>, alone.\<close>

definition outbox_call :: "(event \<Rightarrow> outbox_row list \<Rightarrow> 'r \<times> outbox_row list) \<Rightarrow> (world, 'r) state" where
  "outbox_call f =
     db_call (\<lambda>ev db. (fst (f ev (db_outbox db)), db\<lparr>db_outbox := snd (f ev (db_outbox db))\<rparr>))"

definition processed_call :: "(event \<Rightarrow> processed_row list \<Rightarrow> 'r \<times> processed_row list) \<Rightarrow> (world, 'r) state" where
  "processed_call f =
     db_call (\<lambda>ev db. (fst (f ev (db_processed db)), db\<lparr>db_processed := snd (f ev (db_processed db))\<rparr>))"

text \<open>
  \<open>kafka.Writer.WriteMessages\<close> with one message, acknowledged by the leader. A reported
  failure may still have written the message. The writer repeats a write whose
  acknowledgement it misses, up to its \<open>MaxAttempts\<close>, which kafka-go documents as 10 when it
  is not set; so a message that was written at all is there one to ten times.
\<close>

definition copies :: "event \<Rightarrow> nat" where
  "copies ev = Suc (min (ev_again ev) 9)"

lemma copies_bounds: "1 \<le> copies ev" "copies ev \<le> 10"
  by (simp_all add: copies_def)

definition write_messages :: "string \<Rightarrow> message \<Rightarrow> (world, go_error + unit) state" where
  "write_messages topic m = do {
     ev \<leftarrow> next_event;
     ts \<leftarrow> gets w_topics;
     let res = exec (ev_kafka ev) (ts topic) (Inr ((), ts topic @ replicate (copies ev) m));
     modify (\<lambda>w. w\<lparr>w_topics := ts(topic := snd res)\<rparr>);
     return (fst res)
   }"

text \<open>A world in which the database answers every call.\<close>

definition db_up :: "world \<Rightarrow> bool" where
  "db_up w \<longleftrightarrow> (\<forall>n. ev_db (w_script w n) = Success)"

section \<open>Running an interaction\<close>

abbreviation cur_event :: "world \<Rightarrow> event" where
  "cur_event w \<equiv> w_script w (w_cursor w)"

lemma run_next_event [simp]:
  "run_state next_event w = (cur_event w, w\<lparr>w_cursor := Suc (w_cursor w)\<rparr>)"
  by (simp add: next_event_def)

lemma run_time_Now [simp]:
  "run_state time_Now w = (ev_time (cur_event w), w\<lparr>w_cursor := Suc (w_cursor w)\<rparr>)"
  by (simp add: time_Now_def)

lemma run_outbox_call [simp]:
  "run_state (outbox_call f) w =
     (fst (f (cur_event w) (db_outbox (w_db w))),
      w\<lparr>w_cursor := Suc (w_cursor w),
        w_db := (w_db w)\<lparr>db_outbox := snd (f (cur_event w) (db_outbox (w_db w)))\<rparr>\<rparr>)"
  by (simp add: outbox_call_def db_call_def)

lemma run_processed_call [simp]:
  "run_state (processed_call f) w =
     (fst (f (cur_event w) (db_processed (w_db w))),
      w\<lparr>w_cursor := Suc (w_cursor w),
        w_db := (w_db w)\<lparr>db_processed := snd (f (cur_event w) (db_processed (w_db w)))\<rparr>\<rparr>)"
  by (simp add: processed_call_def db_call_def)

lemma run_write_messages [simp]:
  "run_state (write_messages topic m) w =
     (let res = exec (ev_kafka (cur_event w)) (w_topics w topic)
            (Inr ((), w_topics w topic @ replicate (copies (cur_event w)) m))
      in (fst res, w\<lparr>w_cursor := Suc (w_cursor w), w_topics := (w_topics w)(topic := snd res)\<rparr>))"
  by (simp add: write_messages_def Let_def)

text \<open>
  How each kind of interaction acts on a property of the world: the shared proof rules of
  the services. A property that does not look at the cursor survives a look at the clock.
\<close>

lemma valid_time_Now:
  "(\<And>w t. P w \<Longrightarrow> Q t (w\<lparr>w_cursor := Suc (w_cursor w)\<rparr>)) \<Longrightarrow> valid P time_Now Q"
  by (simp add: valid_def)

lemma valid_outbox_call:
  "(\<And>w ev. P w \<Longrightarrow> Q (fst (f ev (db_outbox (w_db w))))
      (w\<lparr>w_cursor := Suc (w_cursor w),
         w_db := (w_db w)\<lparr>db_outbox := snd (f ev (db_outbox (w_db w)))\<rparr>\<rparr>)) \<Longrightarrow>
   valid P (outbox_call f) Q"
  by (simp add: valid_def)

lemma valid_processed_call:
  "(\<And>w ev. P w \<Longrightarrow> Q (fst (f ev (db_processed (w_db w))))
      (w\<lparr>w_cursor := Suc (w_cursor w),
         w_db := (w_db w)\<lparr>db_processed := snd (f ev (db_processed (w_db w)))\<rparr>\<rparr>)) \<Longrightarrow>
   valid P (processed_call f) Q"
  by (simp add: valid_def)

end
