(* ===== verification/Kafkax.thy ===== *)
theory Kafkax
  imports World Go_Strings
begin

text \<open>
  \<open>internal/shared/kafkax/producer.go\<close> and \<open>consumer.go\<close>: the producer that recreates its
  writer once and retries when an error looks like a broken connection, and the consumer's
  reader with its configuration. \<open>kafka.Writer\<close> and \<open>kafka.Reader\<close> themselves belong to
  the library: of the writer the model knows its settings, that a write ends in one of
  the three ways of \<open>outcome\<close>, and that it may repeat itself.
\<close>

section \<open>Producer\<close>

record ProducerConfig =
  pc_Brokers :: "string list"
  pc_Topic :: string
  pc_ClientID :: string
  pc_WriteTimeout :: duration

datatype RequiredAcks = RequireNone | RequireOne | RequireAll

record Writer =
  wr_Addr :: "string list"
  wr_Topic :: string
  wr_HashBalancer :: bool
  wr_RequiredAcks :: RequiredAcks
  wr_Async :: bool
  wr_BatchTimeout :: duration
  wr_ClientID :: string
  wr_MetadataTTL :: duration

record Producer =
  p_w :: "Writer option"
  p_cfg :: ProducerConfig
  p_lastReset :: time

definition newWriter :: "ProducerConfig \<Rightarrow> Writer" where
  "newWriter cfg =
     \<lparr>wr_Addr = pc_Brokers cfg, wr_Topic = pc_Topic cfg, wr_HashBalancer = True,
      wr_RequiredAcks = RequireOne, wr_Async = False, wr_BatchTimeout = 50 * Millisecond,
      wr_ClientID = pc_ClientID cfg, wr_MetadataTTL = 10 * Second\<rparr>"

definition NewProducer :: "ProducerConfig \<Rightarrow> Producer" where
  "NewProducer cfg = \<lparr>p_w = Some (newWriter cfg), p_cfg = cfg, p_lastReset = zero_time\<rparr>"

text \<open>\<open>Close\<close>: the writer's own error, if it had a writer, and no writer afterwards.\<close>

definition Producer_Close :: "go_error option \<Rightarrow> Producer \<Rightarrow> go_error option \<times> Producer" where
  "Producer_Close closeErr p =
     (case p_w p of None \<Rightarrow> (None, p) | Some _ \<Rightarrow> (closeErr, p\<lparr>p_w := None\<rparr>))"

definition suspects :: "string list" where
  "suspects = [''dial tcp'', ''connection refused'', ''i/o timeout'', ''eof'', ''broken pipe'',
     ''transport is closing'', ''not leader'', ''unknown broker'', ''failed to dial'']"

definition shouldReset :: "go_error option \<Rightarrow> bool" where
  "shouldReset err =
     (case err of
        None \<Rightarrow> False
      | Some e \<Rightarrow> list_ex (\<lambda>sub. Contains (ToLower (Error e)) sub) suspects)"

definition resetOnce :: "Producer \<Rightarrow> (world, Producer) state" where
  "resetOnce p = do {
     t \<leftarrow> time_Now;
     if time_sub t (p_lastReset p) < 2 * Second then return p
     else do {
       now \<leftarrow> time_Now;
       return (p\<lparr>p_w := Some (newWriter (p_cfg p)), p_lastReset := now\<rparr>)
     }
   }"

definition write_timeout :: "Producer \<Rightarrow> duration \<Rightarrow> duration" where
  "write_timeout p timeout =
     (if timeout \<le> 0
      then (if 0 < pc_WriteTimeout (p_cfg p) then pc_WriteTimeout (p_cfg p) else 5 * Second)
      else timeout)"

text \<open>The closure \<open>write\<close>; the timeout bounds how long the write may take to fail.\<close>

definition write_once :: "Producer \<Rightarrow> message \<Rightarrow> duration \<Rightarrow> (world, go_error option) state" where
  "write_once p m timeout =
     (case p_w p of
        None \<Rightarrow> return (Some Canceled)
      | Some w \<Rightarrow> do {
          r \<leftarrow> write_messages (wr_Topic w) m;
          return (case r of Inl e \<Rightarrow> Some e | Inr _ \<Rightarrow> None)
        })"

definition Produce ::
  "Producer \<Rightarrow> string \<Rightarrow> string \<Rightarrow> duration \<Rightarrow> (world, go_error option \<times> Producer) state" where
  "Produce p key value timeout = do {
     let t = write_timeout p timeout;
     let m = \<lparr>m_Key = key, m_Value = value\<rparr>;
     err \<leftarrow> write_once p m t;
     case err of
       None \<Rightarrow> return (None, p)
     | Some e \<Rightarrow>
         if shouldReset (Some e) then do {
           p' \<leftarrow> resetOnce p;
           err' \<leftarrow> write_once p' m t;
           return (err', p')
         } else return (Some e, p)
   }"

section \<open>Consumer\<close>

record ConsumerConfig =
  cc_Brokers :: "string list"
  cc_Topic :: string
  cc_GroupID :: string
  cc_StartOffset :: string
  cc_MinBytes :: int
  cc_MaxBytes :: int

datatype start_offset = FirstOffset | LastOffset

record Reader =
  rd_Brokers :: "string list"
  rd_Topic :: string
  rd_GroupID :: string
  rd_StartOffset :: start_offset
  rd_MinBytes :: int
  rd_MaxBytes :: int
  rd_MaxWait :: duration
  rd_ReadBackoffMin :: duration
  rd_ReadBackoffMax :: duration

record Consumer =
  c_r :: "Reader option"
  c_cfg :: ConsumerConfig

definition newReader :: "ConsumerConfig \<Rightarrow> Reader" where
  "newReader cfg =
     \<lparr>rd_Brokers = cc_Brokers cfg, rd_Topic = cc_Topic cfg, rd_GroupID = cc_GroupID cfg,
      rd_StartOffset = (if EqualFold (cc_StartOffset cfg) ''first'' then FirstOffset else LastOffset),
      rd_MinBytes = (if cc_MinBytes cfg = 0 then 1 else cc_MinBytes cfg),
      rd_MaxBytes = (if cc_MaxBytes cfg = 0 then 10000000 else cc_MaxBytes cfg),
      rd_MaxWait = 500 * Millisecond, rd_ReadBackoffMin = 100 * Millisecond,
      rd_ReadBackoffMax = 1 * Second\<rparr>"

definition NewConsumer :: "ConsumerConfig \<Rightarrow> Consumer" where
  "NewConsumer cfg = \<lparr>c_r = Some (newReader cfg), c_cfg = cfg\<rparr>"

definition Consumer_Close :: "go_error option \<Rightarrow> Consumer \<Rightarrow> go_error option \<times> Consumer" where
  "Consumer_Close closeErr c =
     (case c_r c of None \<Rightarrow> (None, c) | Some _ \<Rightarrow> (closeErr, c\<lparr>c_r := None\<rparr>))"

definition Reopen :: "Consumer \<Rightarrow> Consumer" where
  "Reopen c = c\<lparr>c_r := Some (newReader (c_cfg c))\<rparr>"

text \<open>
  \<open>FetchMessage\<close> asks the reader of the moment, whose answer is kafka-go's; \<open>None\<close>: the
  consumer was closed and the call on its nil reader panics.
\<close>

definition FetchMessage :: "(Reader \<Rightarrow> go_error + message) \<Rightarrow> Consumer \<Rightarrow> (go_error + message) option" where
  "FetchMessage fetch c = (case c_r c of None \<Rightarrow> None | Some r \<Rightarrow> Some (fetch r))"

text \<open>\<open>CommitMessages\<close> with one message: the reader commits its offset.\<close>

definition CommitMessages :: "message \<Rightarrow> (world, go_error + unit) state" where
  "CommitMessages m = do {
     ev \<leftarrow> next_event;
     cs \<leftarrow> gets w_commits;
     let res = exec (ev_kafka ev) cs (Inr ((), cs @ [m]));
     modify (\<lambda>w. w\<lparr>w_commits := snd res\<rparr>);
     return (fst res)
   }"

lemma run_CommitMessages [simp]:
  "run_state (CommitMessages m) w =
     (let res = exec (ev_kafka (cur_event w)) (w_commits w) (Inr ((), w_commits w @ [m]))
      in (fst res, w\<lparr>w_cursor := Suc (w_cursor w), w_commits := snd res\<rparr>))"
  by (simp add: CommitMessages_def Let_def)

section \<open>What producing does\<close>

text \<open>The writer, if there is one, is the one the configuration describes.\<close>

definition producer_ok :: "Producer \<Rightarrow> bool" where
  "producer_ok p \<longleftrightarrow> (\<forall>w. p_w p = Some w \<longrightarrow> w = newWriter (p_cfg p))"

lemma producer_ok_New [simp]: "producer_ok (NewProducer cfg)" "p_cfg (NewProducer cfg) = cfg"
  by (simp_all add: producer_ok_def NewProducer_def)

abbreviation topic_of :: "Producer \<Rightarrow> string" where
  "topic_of p \<equiv> pc_Topic (p_cfg p)"

text \<open>A world after some messages were written to a topic and some events consumed.\<close>

definition wrote :: "string \<Rightarrow> message list \<Rightarrow> nat \<Rightarrow> world \<Rightarrow> world" where
  "wrote topic ms c w = w\<lparr>w_cursor := c, w_topics := (w_topics w)(topic := w_topics w topic @ ms)\<rparr>"

lemma wrote_wrote: "wrote t ms c (wrote t ms' c' w) = wrote t (ms' @ ms) c w"
  by (simp add: wrote_def)

lemma wrote_cursor [simp]: "wrote t ms c (w\<lparr>w_cursor := c'\<rparr>) = wrote t ms c w"
  "(wrote t ms c w)\<lparr>w_cursor := c'\<rparr> = wrote t ms c' w"
  by (simp_all add: wrote_def)

lemma wrote_sel [simp]:
  "w_db (wrote t ms c w) = w_db w" "w_script (wrote t ms c w) = w_script w"
  "w_commits (wrote t ms c w) = w_commits w" "w_notified (wrote t ms c w) = w_notified w"
  "w_met (wrote t ms c w) = w_met w" "w_nmet (wrote t ms c w) = w_nmet w"
  "w_topics (wrote t ms c w) = (w_topics w)(t := w_topics w t @ ms)" "w_cursor (wrote t ms c w) = c"
  by (simp_all add: wrote_def)

lemma write_once_wrote:
  assumes "producer_ok p" and "run_state (write_once p m t) w = (r, w')"
  obtains n c where "w' = wrote (topic_of p) (replicate n m) c w" "n \<le> 10" "r = None \<Longrightarrow> 1 \<le> n"
proof (cases "p_w p")
  case None
  with assms(2) have "w' = wrote (topic_of p) (replicate 0 m) (w_cursor w) w" "r = Some Canceled"
    by (auto simp: write_once_def wrote_def)
  then show thesis using that [of 0] by simp
next
  case (Some wr)
  with assms(1) have "wr_Topic wr = topic_of p" by (simp add: producer_ok_def newWriter_def)
  with Some assms(2) that [of 0] that [of "copies (cur_event w)"] copies_bounds [of "cur_event w"] show thesis
    by (cases "ev_kafka (cur_event w)") (auto simp: write_once_def wrote_def Let_def)
qed

lemma resetOnce_cases:
  assumes "producer_ok p" and "run_state (resetOnce p) w = (p', w')"
  shows "producer_ok p'" "p_cfg p' = p_cfg p" "\<exists>c. w' = w\<lparr>w_cursor := c\<rparr>"
  using assms by (auto simp: resetOnce_def producer_ok_def split: if_splits)

text \<open>
  A call of \<open>Produce\<close> makes one or two writes of up to ten copies each, to the producer's own
  topic and nowhere else, and leaves at least one copy if it reports success.
\<close>

lemma Produce_wrote:
  assumes ok: "producer_ok p" and run: "run_state (Produce p k v t) w = ((r, p'), w')"
  obtains n c where "w' = wrote (topic_of p) (replicate n \<lparr>m_Key = k, m_Value = v\<rparr>) c w"
    "n \<le> 20" "r = None \<Longrightarrow> 1 \<le> n" "producer_ok p'" "p_cfg p' = p_cfg p"
proof -
  let ?m = "\<lparr>m_Key = k, m_Value = v\<rparr>" and ?t = "write_timeout p t"
  obtain r1 w1 where 1: "run_state (write_once p ?m ?t) w = (r1, w1)" by fastforce
  obtain n1 c1 where w1: "w1 = wrote (topic_of p) (replicate n1 ?m) c1 w" "n1 \<le> 10"
    "r1 = None \<Longrightarrow> 1 \<le> n1" using write_once_wrote [OF ok 1] by blast
  show thesis
  proof (cases "r1 \<noteq> None \<and> shouldReset r1")
    case False
    then have "(r, p') = (r1, p)" "w' = w1"
      using run 1 by (auto simp: Produce_def Let_def split: option.splits)
    then show thesis using w1 ok that [of n1 c1] by simp
  next
    case True
    obtain p2 w2 where 2: "run_state (resetOnce p) w1 = (p2, w2)" by fastforce
    note r2 = resetOnce_cases [OF ok 2]
    obtain r3 w3 where 3: "run_state (write_once p2 ?m ?t) w2 = (r3, w3)" by fastforce
    obtain n3 c3 where w3: "w3 = wrote (topic_of p2) (replicate n3 ?m) c3 w2" "n3 \<le> 10"
      "r3 = None \<Longrightarrow> 1 \<le> n3" using write_once_wrote [OF r2(1) 3] by blast
    have res: "(r, p') = (r3, p2)" "w' = w3"
      using run 1 2 3 True by (auto simp: Produce_def Let_def split: option.splits)
    have "w' = wrote (topic_of p) (replicate (n1 + n3) ?m) c3 w"
      using res(2) w3(1) r2(2,3) w1(1) by (auto simp: wrote_wrote replicate_add)
    then show thesis by (rule that) (use res(1) r2 w1(2) w3(2,3) in \<open>auto simp: add_increasing\<close>)
  qed
qed

text \<open>Producing touches the topics and the script's position only.\<close>

definition same_but_topics :: "world \<Rightarrow> world \<Rightarrow> bool" where
  "same_but_topics w w' \<longleftrightarrow> w_db w' = w_db w \<and> w_script w' = w_script w \<and> w_met w' = w_met w \<and>
     w_nmet w' = w_nmet w \<and> w_commits w' = w_commits w \<and> w_notified w' = w_notified w"

lemma same_but_topics_refl [simp]: "same_but_topics w w"
  by (simp add: same_but_topics_def)

lemma same_but_topics_trans: "same_but_topics a b \<Longrightarrow> same_but_topics b c \<Longrightarrow> same_but_topics a c"
  by (simp add: same_but_topics_def)

lemma write_once_frame: "run_state (write_once p m t) w = (r, w') \<Longrightarrow> same_but_topics w w'"
  by (cases "ev_kafka (cur_event w)") (auto simp: write_once_def same_but_topics_def Let_def split: option.splits)

lemma resetOnce_frame: "run_state (resetOnce p) w = (p', w') \<Longrightarrow> same_but_topics w w'"
  by (auto simp: resetOnce_def same_but_topics_def split: if_splits)

lemma Produce_frame: "run_state (Produce p k v t) w = (r, w') \<Longrightarrow> same_but_topics w w'"
  by (auto simp: Produce_def Let_def split: option.splits if_splits prod.splits
      dest!: write_once_frame resetOnce_frame intro: same_but_topics_trans)

section \<open>Properties\<close>

text \<open>
  C27. \<open>Produce\<close> delivers at least once when it reports success. It asks the writer at most
  twice, a second time only when the first did not succeed, and the writer may repeat a message
  up to ten times by itself, so at most twenty copies end up in the topic, all of them in the
  producer's own and after what is already there; the writer it leaves behind is the one its
  configuration describes, so the producer heals itself in place.
\<close>

theorem Produce_at_least_once:
  assumes "producer_ok p" and "run_state (Produce p k v t) w = ((r, p'), w')"
  shows "(\<exists>n\<le>20. w_topics w' = (w_topics w)
      (topic_of p := w_topics w (topic_of p) @ replicate n \<lparr>m_Key = k, m_Value = v\<rparr>) \<and>
      (r = None \<longrightarrow> 1 \<le> n) \<and>
      (ev_kafka (cur_event w) = Success \<and> p_w p \<noteq> None \<longrightarrow> r = None \<and> n = copies (cur_event w))) \<and>
    w_db w' = w_db w \<and> producer_ok p' \<and> p_cfg p' = p_cfg p"
proof (rule Produce_wrote [OF assms])
  fix n c
  assume w': "w' = wrote (topic_of p) (replicate n \<lparr>m_Key = k, m_Value = v\<rparr>) c w" and n: "n \<le> 20" "r = None \<Longrightarrow> 1 \<le> n"
    and p': "producer_ok p'" "p_cfg p' = p_cfg p"
  have "r = None \<and> n = copies (cur_event w)" if up: "ev_kafka (cur_event w) = Success" "p_w p \<noteq> None"
  proof -
    obtain wr where wr: "p_w p = Some wr" using up(2) by blast
    have "r = None" and "length (w_topics w' (wr_Topic wr)) = length (w_topics w (wr_Topic wr)) + copies (cur_event w)"
      using assms(2) up(1) wr by (auto simp: Produce_def write_once_def Let_def)
    moreover have "wr_Topic wr = topic_of p" using assms(1) wr by (simp add: producer_ok_def newWriter_def)
    ultimately show ?thesis by (simp add: w' wrote_def)
  qed
  with w' n p' show ?thesis by (auto simp: wrote_def)
qed

definition example_world :: world where
  "example_world = \<lparr>w_script = (\<lambda>n. \<lparr>ev_db = Success, ev_kafka = (if n = 0 then Lost EOF else Success), ev_again = 0,
       ev_time = 1000, ev_locked = (\<lambda>_. False), ev_done = False\<rparr>),
     w_cursor = 0, w_db = empty_db, w_topics = (\<lambda>_. []), w_commits = [], w_notified = [],
     w_met = NewMetrics, w_nmet = NewNotifyMetrics\<rparr>"

definition example_producer :: Producer where
  "example_producer = NewProducer \<lparr>pc_Brokers = [''localhost:9092''], pc_Topic = ''tickets.events'',
     pc_ClientID = ''outbox-relay'', pc_WriteTimeout = 5 * Second\<rparr>"

text \<open>More than one copy does occur: a write whose acknowledgement is lost is followed by a second copy.\<close>

theorem Produce_at_least_once_witness:
  "\<exists>r p' w'. run_state (Produce example_producer ''t1'' ''{}'' 0) example_world = ((r, p'), w') \<and> r = None \<and>
     length (w_topics w' ''tickets.events'') = 2 \<and> producer_ok p'"
proof -
  obtain r p' w' where run: "run_state (Produce example_producer ''t1'' ''{}'' 0) example_world = ((r, p'), w')"
    by (metis prod.exhaust)
  have "shouldReset (Some EOF)" by code_simp
  then have "r = None" "length (w_topics w' ''tickets.events'') = 2"
    using run by (auto simp: Produce_def example_producer_def NewProducer_def write_once_def newWriter_def
        resetOnce_def example_world_def copies_def Let_def split: if_splits)
  moreover have "producer_ok p'"
    using Produce_at_least_once [OF _ run] by (simp add: example_producer_def)
  ultimately show ?thesis using run by blast
qed

end
