(* ===== verification/Backoff.thy ===== *)
theory Backoff
  imports Prelude
begin

text \<open>
  The two \<open>backoff\<close> functions (\<open>cmd/outbox-relay/main.go\<close>,
  \<open>cmd/notification-service/main.go\<close>): a short first delay, then powers of two seconds up to
  a cap. Their common properties are proved once, in the locale \<open>backoff_policy\<close>.
\<close>

definition relay_backoff :: "int \<Rightarrow> duration" where
  "relay_backoff attempt =
     (if attempt \<le> 1 then 500 * Millisecond
      else
        let d = 2 ^ nat (min (attempt - 1) 6) * Second
        in if 60 * Second < d then 60 * Second else d)"

definition notify_backoff :: "int \<Rightarrow> duration" where
  "notify_backoff attempt =
     (if attempt \<le> 1 then 200 * Millisecond
      else
        let d = 2 ^ nat (min (attempt - 1) 6) * Second
        in if 30 * Second < d then 30 * Second else d)"

locale backoff_policy =
  fixes initial cap :: duration and delay :: "int \<Rightarrow> duration"
  assumes first_delay: "attempt \<le> 1 \<Longrightarrow> delay attempt = initial"
    and later_delay: "1 < attempt \<Longrightarrow> delay attempt = min cap (2 ^ nat (min (attempt - 1) 6) * Second)"
    and initial_pos: "0 < initial" and initial_small: "initial < 2 * Second"
    and cap_large: "2 * Second \<le> cap" and cap_small: "cap \<le> 64 * Second"
begin

lemma shift_ge: "1 < attempt \<Longrightarrow> (2::int) \<le> 2 ^ nat (min (attempt - 1) 6)"
  using power_increasing [of 1 "nat (min (attempt - 1) 6)" "2::int"] by simp

lemma shift_mono:
  "1 < a \<Longrightarrow> a \<le> b \<Longrightarrow> (2::int) ^ nat (min (a - 1) 6) \<le> 2 ^ nat (min (b - 1) 6)"
  by (intro power_increasing) auto

lemma delay_bounds: "initial \<le> delay attempt \<and> delay attempt \<le> cap"
proof (cases "attempt \<le> 1")
  case True
  then show ?thesis using first_delay initial_small cap_large by simp
next
  case False
  then show ?thesis using later_delay [of attempt] shift_ge [of attempt] initial_small cap_large by simp
qed

lemma delay_mono: "a \<le> b \<Longrightarrow> delay a \<le> delay b"
proof (cases "a \<le> 1")
  case True
  then show ?thesis using first_delay delay_bounds [of b] by simp
next
  case False
  assume "a \<le> b"
  with False have "min cap (2 ^ nat (min (a - 1) 6) * Second) \<le> min cap (2 ^ nat (min (b - 1) 6) * Second)"
    using shift_mono [of a b] by (intro min.mono) auto
  with False \<open>a \<le> b\<close> show ?thesis by (simp add: later_delay)
qed

text \<open>The shift is clamped before the cap is, without effect: the cap is reached first.\<close>

lemma delay_exact:
  assumes "1 < attempt"
  shows "delay attempt = min cap (2 ^ nat (attempt - 1) * Second)"
proof (cases "attempt - 1 \<le> 6")
  case True
  then have "min (attempt - 1) 6 = attempt - 1" by simp
  then show ?thesis using later_delay [OF assms] by simp
next
  case False
  then have "(2::int) ^ 6 \<le> 2 ^ nat (attempt - 1)" by (intro power_increasing) auto
  then have "cap \<le> 2 ^ nat (attempt - 1) * Second" using cap_small by simp
  moreover have "delay attempt = min cap (64 * Second)" using later_delay [OF assms] False by (simp add: min_def)
  ultimately show ?thesis using cap_small by simp
qed

text \<open>Between two delays that are both below the cap, the later is the larger.\<close>

lemma delay_reaches:
  assumes "2 ^ k * Second < cap" and "cap \<le> 2 ^ Suc k * Second"
  shows "delay attempt = cap \<longleftrightarrow> int k + 2 \<le> attempt"
proof (cases "attempt \<le> 1")
  case True
  then have "delay attempt < cap" using first_delay [OF True] initial_small cap_large by simp
  with True show ?thesis by simp
next
  case False
  have "cap \<le> 2 ^ nat (attempt - 1) * Second \<longleftrightarrow> Suc k \<le> nat (attempt - 1)"
  proof
    assume "Suc k \<le> nat (attempt - 1)"
    then have "(2::int) ^ Suc k * Second \<le> 2 ^ nat (attempt - 1) * Second" by (intro mult_right_mono power_increasing) auto
    with assms(2) show "cap \<le> 2 ^ nat (attempt - 1) * Second" by linarith
  next
    assume le: "cap \<le> 2 ^ nat (attempt - 1) * Second"
    show "Suc k \<le> nat (attempt - 1)"
    proof (rule ccontr)
      assume "\<not> Suc k \<le> nat (attempt - 1)"
      then have "(2::int) ^ nat (attempt - 1) * Second \<le> 2 ^ k * Second" by (intro mult_right_mono power_increasing) auto
      with le assms(1) show False by linarith
    qed
  qed
  then show ?thesis using delay_exact [of attempt] False by (auto simp: min_def)
qed

end

interpretation relay_bo: backoff_policy "500 * Millisecond" "60 * Second" relay_backoff
  by unfold_locales (auto simp: relay_backoff_def Let_def min_def)

interpretation notify_bo: backoff_policy "200 * Millisecond" "30 * Second" notify_backoff
  by unfold_locales (auto simp: notify_backoff_def Let_def min_def)

text \<open>
  C30. Both services back off exponentially: after attempt \<open>n > 1\<close> the delay is exactly
  \<open>2 ^ (n - 1)\<close> seconds, cut off at 60 s for the relay and at 30 s for the consumer, although
  the code clamps its shift before; the first delays are 0.5 s and 0.2 s; delays never shrink
  from one attempt to a later one; and the cap is reached exactly from the seventh attempt on
  for the relay, from the sixth on for the consumer.
\<close>

theorem backoff_exact:
  "relay_backoff n = (if n \<le> 1 then 500 * Millisecond else min (60 * Second) (2 ^ nat (n - 1) * Second)) \<and>
   notify_backoff n = (if n \<le> 1 then 200 * Millisecond else min (30 * Second) (2 ^ nat (n - 1) * Second)) \<and>
   (relay_backoff n = 60 * Second \<longleftrightarrow> 7 \<le> n) \<and> (notify_backoff n = 30 * Second \<longleftrightarrow> 6 \<le> n) \<and>
   relay_backoff n \<le> relay_backoff (n + int k) \<and> notify_backoff n \<le> notify_backoff (n + int k)"
proof -
  have "relay_backoff n = 60 * Second \<longleftrightarrow> int 5 + 2 \<le> n" by (rule relay_bo.delay_reaches) simp_all
  moreover have "notify_backoff n = 30 * Second \<longleftrightarrow> int 4 + 2 \<le> n" by (rule notify_bo.delay_reaches) simp_all
  moreover have "relay_backoff n \<le> relay_backoff (n + int k)" "notify_backoff n \<le> notify_backoff (n + int k)"
    by (rule relay_bo.delay_mono notify_bo.delay_mono; simp)+
  ultimately show ?thesis
    using relay_bo.first_delay [of n] relay_bo.delay_exact [of n] notify_bo.first_delay [of n] notify_bo.delay_exact [of n]
    by simp
qed

end
