(* ===== verification/Env_Config.thy ===== *)
theory Env_Config
  imports Go_Strings
begin

text \<open>
  Configuration: \<open>internal/shared/env/env.go\<close>, \<open>internal/shared/config/dotenv.go\<close> and
  \<open>internal/shared/config/config.go\<close>. The process environment is a map from names to
  values; \<open>os.Getenv\<close> of an unset name is the empty string.
\<close>

type_synonym environ = "string \<rightharpoonup> string"

definition Getenv :: "environ \<Rightarrow> string \<Rightarrow> string" where
  "Getenv env key = (case env key of None \<Rightarrow> [] | Some v \<Rightarrow> v)"

section \<open>Reading typed values\<close>

definition env_String :: "environ \<Rightarrow> string \<Rightarrow> string \<Rightarrow> string" where
  "env_String env key def = (let v = TrimSpace (Getenv env key) in if v \<noteq> [] then v else def)"

definition env_StringsCSV :: "environ \<Rightarrow> string \<Rightarrow> string list \<Rightarrow> string list" where
  "env_StringsCSV env key def =
     (let v = TrimSpace (Getenv env key) in
      if v = [] then def
      else let out = filter (\<lambda>p. p \<noteq> []) (map TrimSpace (Split v (CHR '','')))
           in if out = [] then def else out)"

definition env_Int :: "environ \<Rightarrow> string \<Rightarrow> int \<Rightarrow> int" where
  "env_Int env key def =
     (let v = TrimSpace (Getenv env key) in
      if v = [] then def else case Atoi v of None \<Rightarrow> def | Some n \<Rightarrow> n)"

definition env_Bool :: "environ \<Rightarrow> string \<Rightarrow> bool \<Rightarrow> bool" where
  "env_Bool env key def =
     (let v = TrimSpace (Getenv env key) in
      if v = [] then def else case ParseBool v of None \<Rightarrow> def | Some b \<Rightarrow> b)"

definition env_Duration :: "environ \<Rightarrow> string \<Rightarrow> duration \<Rightarrow> duration" where
  "env_Duration env key def =
     (let v = TrimSpace (Getenv env key) in
      if v = [] then def else case ParseDuration v of None \<Rightarrow> def | Some d \<Rightarrow> d)"

section \<open>The .env file\<close>

text \<open>
  \<open>bufio.Scanner\<close> with its default split function: lines without their end, and without
  a carriage return before it. A line that does not fit the scanner's buffer of 65536 bytes
  ends the scan; what follows it is not read.
\<close>

definition newline :: char where "newline = char_of (10::nat)"
definition creturn :: char where "creturn = char_of (13::nat)"
definition nul :: char where "nul = char_of (0::nat)"

definition dropCR :: "string \<Rightarrow> string" where
  "dropCR l = (if l \<noteq> [] \<and> last l = creturn then butlast l else l)"

definition scan_lines :: "string \<Rightarrow> string list" where
  "scan_lines content =
     (let ls = Split content newline;
          ls = (if last ls = [] then butlast ls else ls)
      in map dropCR (takeWhile (\<lambda>l. length l < 65536) ls))"

text \<open>\<open>os.Setenv\<close> refuses an empty name, a name with \<open>=\<close>, and zero bytes.\<close>

definition Setenv :: "string \<Rightarrow> string \<Rightarrow> environ \<Rightarrow> environ" where
  "Setenv key val env =
     (if key = [] \<or> CHR ''='' \<in> set key \<or> nul \<in> set key \<or> nul \<in> set val then env
      else env(key \<mapsto> val))"

definition unquote_val :: "string \<Rightarrow> string" where
  "unquote_val val =
     (if 2 \<le> length val \<and>
         (hd val = CHR 0x22 \<and> last val = CHR 0x22 \<or> hd val = CHR 0x27 \<and> last val = CHR 0x27)
      then butlast (tl val) else val)"

text \<open>
  The body of the loop over the lines of the file: up to the test for an empty key it only
  reads the line (\<open>parse_line\<close>), then it sets the variable unless it exists.
\<close>

definition parse_line :: "string \<Rightarrow> (string \<times> string) option" where
  "parse_line text =
     (let line = TrimSpace text in
      if line = [] \<or> HasPrefix line ''#'' then None
      else
        let line = (if HasPrefix line ''export '' then TrimSpace (TrimPrefix line ''export '') else line);
            (key, val, ok) = Cut line (CHR ''='')
        in if \<not> ok then None
           else
             let key = TrimSpace key; val = unquote_val (TrimSpace val) in
             if key = [] then None else Some (key, val))"

definition dotenv_line :: "string \<Rightarrow> environ \<Rightarrow> environ" where
  "dotenv_line text env =
     (case parse_line text of
        None \<Rightarrow> env
      | Some (key, val) \<Rightarrow> if env key \<noteq> None then env else Setenv key val env)"

text \<open>The file's contents, or \<open>None\<close> where it cannot be opened.\<close>

definition loadDotEnv :: "string option \<Rightarrow> environ \<Rightarrow> environ" where
  "loadDotEnv file env =
     (case file of None \<Rightarrow> env | Some content \<Rightarrow> fold dotenv_line (scan_lines content) env)"

record Config =
  AppEnv :: string
  HTTPAddr :: string
  DatabaseURL :: string

definition Load :: "string option \<Rightarrow> environ \<Rightarrow> Config \<times> environ" where
  "Load file env0 =
     (let env = loadDotEnv file env0 in
      (\<lparr>AppEnv = env_String env ''APP_ENV'' ''dev'',
        HTTPAddr = env_String env ''HTTP_ADDR'' '':8080'',
        DatabaseURL = env_String env ''DATABASE_URL'' []\<rparr>, env))"

section \<open>Facts\<close>

lemma Setenv_extends: "env key = None \<Longrightarrow> env \<subseteq>\<^sub>m Setenv key val env"
  by (auto simp: Setenv_def map_le_def)

lemma dotenv_line_extends: "env \<subseteq>\<^sub>m dotenv_line text env"
  by (auto simp: dotenv_line_def Setenv_extends split: option.splits)

lemma fold_dotenv_extends: "env \<subseteq>\<^sub>m fold dotenv_line ls env"
proof (induction ls arbitrary: env)
  case (Cons l ls)
  from dotenv_line_extends Cons have "env \<subseteq>\<^sub>m fold dotenv_line ls (dotenv_line l env)"
    by (rule map_le_trans)
  then show ?case by simp
qed simp

lemma loadDotEnv_extends: "env \<subseteq>\<^sub>m loadDotEnv file env"
  by (simp add: loadDotEnv_def fold_dotenv_extends split: option.splits)

text \<open>Loading the same file twice is loading it once.\<close>

lemma dotenv_line_stable: "dotenv_line text env \<subseteq>\<^sub>m env' \<Longrightarrow> dotenv_line text env' = env'"
  by (force simp: dotenv_line_def Setenv_def map_le_def dom_def split: option.splits if_splits)

lemma fold_dotenv_stable:
  "fold dotenv_line ls env \<subseteq>\<^sub>m env' \<Longrightarrow> fold dotenv_line ls env' = env'"
proof (induction ls arbitrary: env)
  case (Cons l ls)
  from fold_dotenv_extends have "dotenv_line l env \<subseteq>\<^sub>m env'"
    by (rule map_le_trans) (use Cons.prems in simp)
  then have "dotenv_line l env' = env'" by (rule dotenv_line_stable)
  with Cons show ?case by simp
qed simp

lemma loadDotEnv_idem: "loadDotEnv file (loadDotEnv file env) = loadDotEnv file env"
  by (simp add: loadDotEnv_def fold_dotenv_stable [OF map_le_refl] split: option.splits)

section \<open>Properties\<close>

lemma env_Int_cases: "env_Int env key def = def \<or> Atoi (TrimSpace (Getenv env key)) = Some (env_Int env key def)"
  by (auto simp: env_Int_def Let_def split: option.splits)

lemma digits_val_nonneg: "list_all is_digit ds \<Longrightarrow> 0 \<le> digits_val ds"
proof -
  have "0 \<le> n \<Longrightarrow> list_all is_digit ds \<Longrightarrow> 0 \<le> foldl (\<lambda>n c. 10 * n + digit_val c) n ds" for n :: int
    by (induction ds arbitrary: n) (auto simp: is_digit_def digit_val_def)
  then show "list_all is_digit ds \<Longrightarrow> 0 \<le> digits_val ds" by (simp add: digits_val_def)
qed

lemma Atoi_int64: "Atoi s = Some n \<Longrightarrow> - (2 ^ 63) \<le> n \<and> n < 2 ^ 63"
  using digits_val_nonneg [of s] digits_val_nonneg [of "drop 1 s"]
  by (auto simp: Atoi_def Let_def split: if_split_asm)

lemma Split_no_sep: "p \<in> set (Split s sep) \<Longrightarrow> sep \<notin> set p"
  by (induction s arbitrary: p) (auto split: if_splits list.splits)

text \<open>
  C31. The process environment wins over the \<open>.env\<close> file, whatever the file holds, and
  loading the file a second time changes nothing.
\<close>

theorem dotenv_never_overrides:
  "env \<subseteq>\<^sub>m loadDotEnv file env \<and> loadDotEnv file (loadDotEnv file env) = loadDotEnv file env"
  by (simp add: loadDotEnv_extends loadDotEnv_idem)

text \<open>
  A numeric setting is always usable: \<open>env.Int\<close> gives the default or a value in the
  range of a 64-bit integer, never an error.
\<close>

theorem env_Int_in_range:
  assumes "- (2 ^ 63) \<le> def" and "def < 2 ^ 63"
  shows "- (2 ^ 63) \<le> env_Int env key def \<and> env_Int env key def < 2 ^ 63"
  using env_Int_cases [of env key "def"] Atoi_int64 assms by fastforce

theorem env_Int_in_range_witness:
  "- (2 ^ 63) \<le> env_Int [''N'' \<mapsto> ''-12''] ''N'' 7 \<and> env_Int [''N'' \<mapsto> ''-12''] ''N'' 7 < 2 ^ 63"
  using env_Int_in_range [of 7 "[''N'' \<mapsto> ''-12'']" "''N''"] by simp

text \<open>
  A list setting is never empty when its default is not, and the items it takes from
  the environment are trimmed, not empty and free of commas.
\<close>

theorem env_StringsCSV_items:
  assumes "def \<noteq> []"
  shows "env_StringsCSV env key def \<noteq> [] \<and>
    (env_StringsCSV env key def = def \<or>
     (\<forall>p\<in>set (env_StringsCSV env key def). p \<noteq> [] \<and> TrimSpace p = p \<and> CHR '','' \<notin> set p))"
proof -
  let ?v = "TrimSpace (Getenv env key)"
  let ?out = "filter (\<lambda>p. p \<noteq> []) (map TrimSpace (Split ?v (CHR '','')))"
  have "CHR '','' \<notin> set (TrimSpace p)" if "p \<in> set (Split ?v (CHR '',''))" for p
    using Split_no_sep [OF that] TrimLeft_suffix [of p] TrimRight_prefix [of "TrimLeft p"]
    by (auto simp: TrimSpace_def dest!: in_set_takeD in_set_dropD)
  then have "\<forall>p\<in>set ?out. p \<noteq> [] \<and> TrimSpace p = p \<and> CHR '','' \<notin> set p" by auto
  moreover have "env_StringsCSV env key def = (if ?v = [] \<or> ?out = [] then def else ?out)"
    unfolding env_StringsCSV_def Let_def by (simp only: if_True if_False split: if_split) blast
  ultimately show ?thesis using assms by (metis (no_types, lifting))
qed

theorem env_StringsCSV_items_witness:
  "env_StringsCSV Map.empty ''KAFKA_BROKERS'' [''localhost:9092''] \<noteq> []"
  using env_StringsCSV_items [of "[''localhost:9092'']" Map.empty "''KAFKA_BROKERS''"] by simp

end
