(* ===== verification/Outbox_Relay.thy ===== *)
theory Outbox_Relay
  imports Kafkax Events Backoff Env_Config
begin

text \<open>
  \<open>cmd/outbox-relay/main.go\<close>: the configuration and start of the relay, one tick, the
  handling of one claimed event, and the polling loop. Programs run in the world of theory
  \<open>World\<close>; the producers are the process's own state and are passed along.
\<close>

section \<open>Configuration\<close>

record relay_cfg =
  rc_dbURL :: string
  rc_brokers :: "string list"
  rc_topic :: string
  rc_clientID :: string
  rc_batchSize :: int
  rc_pollInterval :: duration
  rc_processingTimeout :: duration
  rc_maxAttempts :: int
  rc_dlqTopic :: string
  rc_metricsAddr :: string

definition relay_config :: "environ \<Rightarrow> Config \<Rightarrow> relay_cfg" where
  "relay_config env cfg =
     \<lparr>rc_dbURL = env_String env ''DATABASE_URL'' (DatabaseURL cfg),
      rc_brokers = env_StringsCSV env ''KAFKA_BROKERS'' [''localhost:9092''],
      rc_topic = env_String env ''KAFKA_TOPIC'' ''tickets.events'',
      rc_clientID = env_String env ''KAFKA_CLIENT_ID'' ''outbox-relay'',
      rc_batchSize = env_Int env ''OUTBOX_RELAY_BATCH_SIZE'' 50,
      rc_pollInterval = env_Duration env ''OUTBOX_RELAY_POLL_INTERVAL'' (500 * Millisecond),
      rc_processingTimeout = env_Duration env ''OUTBOX_RELAY_PROCESSING_TIMEOUT'' (30 * Second),
      rc_maxAttempts = env_Int env ''OUTBOX_RELAY_MAX_ATTEMPTS'' 10,
      rc_dlqTopic = env_String env ''KAFKA_DLQ_TOPIC'' [],
      rc_metricsAddr = env_String env ''METRICS_ADDR'' '':9090''\<rparr>"

record relay =
  rl_producer :: Producer
  rl_dlq :: "Producer option"

definition new_relay :: "relay_cfg \<Rightarrow> relay" where
  "new_relay c =
     \<lparr>rl_producer = NewProducer \<lparr>pc_Brokers = rc_brokers c, pc_Topic = rc_topic c,
         pc_ClientID = rc_clientID c, pc_WriteTimeout = 5 * Second\<rparr>,
      rl_dlq = (if rc_dlqTopic c \<noteq> [] then
         Some (NewProducer \<lparr>pc_Brokers = rc_brokers c, pc_Topic = rc_dlqTopic c,
           pc_ClientID = rc_clientID c @ ''-dlq'', pc_WriteTimeout = 5 * Second\<rparr>) else None)\<rparr>"

text \<open>
  How the process starts: it exits without a database URL (2) or a reachable database (1),
  and \<open>time.NewTicker\<close> panics on an interval that is not positive.
\<close>

datatype startup = Exit int | Panic string | Running relay_cfg relay

definition start_ticker :: "relay_cfg \<Rightarrow> startup" where
  "start_ticker c =
     (if rc_pollInterval c \<le> 0 then Panic ''non-positive interval for NewTicker'' else Running c (new_relay c))"

definition relay_start :: "environ \<Rightarrow> Config \<Rightarrow> go_error option \<Rightarrow> startup" where
  "relay_start env cfg openErr =
     (let c = relay_config env cfg in
      if rc_dbURL c = [] then Exit 2
      else case openErr of
             Some _ \<Rightarrow> Exit 1
           | None \<Rightarrow> start_ticker c)"

section \<open>One event\<close>

text \<open>The \<open>ridHolder\<close>: the request id a payload carries, errors ignored.\<close>

fun decode_rid :: "(string \<times> string \<times> json) list \<Rightarrow> string \<Rightarrow> string" where
  "decode_rid [] rid = rid"
| "decode_rid ((k, raw, v) # ms) rid =
     (case json_field [''request_id''] k of
        None \<Rightarrow> decode_rid ms rid
      | Some _ \<Rightarrow> decode_rid ms (snd (store_string v (\<lambda>s _. s) rid)))"

definition payload_request_id :: "string \<Rightarrow> string" where
  "payload_request_id payload =
     (case json_parse payload of Some (JObject ms) \<Rightarrow> decode_rid ms [] | _ \<Rightarrow> [])"

definition envelope_of :: "Event \<Rightarrow> Envelope" where
  "envelope_of e =
     \<lparr>env_EventID = EventID e, env_EventType = EventType e, env_OccurredAt = CreatedAt e,
      env_Aggregate = Aggregate e, env_AggregateID = AggregateID e,
      env_RequestID = payload_request_id (Payload e), env_Payload = Some (Payload e)\<rparr>"

text \<open>The dead letter: the error and the envelope.\<close>

definition marshal_dlq :: "(time \<Rightarrow> int) \<Rightarrow> string \<Rightarrow> Envelope \<Rightarrow> go_error + string" where
  "marshal_dlq zone errMsg env =
     (case marshal_Envelope zone env of
        Inl e \<Rightarrow> Inl e
      | Inr b \<Rightarrow> Inr (json_object [(''error'', quote errMsg), (''envelope'', b)]))"

abbreviation inc :: "string \<Rightarrow> (string \<Rightarrow> nat) \<Rightarrow> (string \<Rightarrow> nat)" where
  "inc et c \<equiv> c(et := Suc (c et))"

definition count_dead :: "string \<Rightarrow> (world, unit) state" where
  "count_dead et = modify (\<lambda>w. w\<lparr>w_met := (w_met w)\<lparr>DeadTotal := inc et (DeadTotal (w_met w))\<rparr>\<rparr>)"

definition count_failed :: "string \<Rightarrow> (world, unit) state" where
  "count_failed et = modify (\<lambda>w. w\<lparr>w_met := (w_met w)\<lparr>FailedTotal := inc et (FailedTotal (w_met w))\<rparr>\<rparr>)"

definition count_published :: "string \<Rightarrow> (world, unit) state" where
  "count_published et =
     modify (\<lambda>w. w\<lparr>w_met := (w_met w)\<lparr>PublishedTotal := inc et (PublishedTotal (w_met w))\<rparr>\<rparr>)"

definition publish_dlq ::
  "(time \<Rightarrow> int) \<Rightarrow> relay \<Rightarrow> Event \<Rightarrow> Envelope \<Rightarrow> string \<Rightarrow> (world, relay) state" where
  "publish_dlq zone rl e env errMsg =
     (case rl_dlq rl of
        None \<Rightarrow> return rl
      | Some d \<Rightarrow>
          (case marshal_dlq zone errMsg env of
             Inl _ \<Rightarrow> return rl
           | Inr b \<Rightarrow> do {
               (_, d') \<leftarrow> Produce d (AggregateID e) b (5 * Second);
               return (rl\<lparr>rl_dlq := Some d'\<rparr>)
             }))"

definition maybeDead ::
  "outbox_row postgres \<Rightarrow> (time \<Rightarrow> int) \<Rightarrow> int \<Rightarrow> relay \<Rightarrow> Event \<Rightarrow> Envelope \<Rightarrow> string \<Rightarrow>
   (world, bool \<times> relay) state" where
  "maybeDead pg zone maxAttempts rl e env errMsg =
     (if 0 < maxAttempts \<and> maxAttempts \<le> Attempts e then do {
        rl' \<leftarrow> publish_dlq zone rl e env errMsg;
        _ \<leftarrow> outbox_call (\<lambda>ev. MarkDead pg (ev_db ev) (ev_time ev) (ID e) errMsg);
        count_dead (EventType e);
        return (True, rl')
      } else return (False, rl))"

text \<open>What both failure branches of the loop do.\<close>

definition give_up_or_retry ::
  "outbox_row postgres \<Rightarrow> (time \<Rightarrow> int) \<Rightarrow> int \<Rightarrow> relay \<Rightarrow> Event \<Rightarrow> Envelope \<Rightarrow> string \<Rightarrow>
   (world, relay) state" where
  "give_up_or_retry pg zone maxAttempts rl e env errMsg = do {
     (dead, rl') \<leftarrow> maybeDead pg zone maxAttempts rl e env errMsg;
     if dead then return rl'
     else do {
       now \<leftarrow> time_Now;
       _ \<leftarrow> outbox_call (\<lambda>ev. MarkFailed pg (ev_db ev) (ev_time ev) (ID e)
              (now + relay_backoff (Attempts e)) errMsg);
       count_failed (EventType e);
       return rl'
     }
   }"

definition publish_event ::
  "outbox_row postgres \<Rightarrow> (time \<Rightarrow> int) \<Rightarrow> int \<Rightarrow> relay \<Rightarrow> Event \<Rightarrow> (world, relay) state" where
  "publish_event pg zone maxAttempts rl e =
     (let env = envelope_of e in
      case marshal_Envelope zone env of
        Inl err \<Rightarrow> give_up_or_retry pg zone maxAttempts rl e env (''marshal: '' @ Error err)
      | Inr b \<Rightarrow> do {
          (res, p') \<leftarrow> Produce (rl_producer rl) (AggregateID e) b (5 * Second);
          let rl' = rl\<lparr>rl_producer := p'\<rparr>;
          case res of
            Some err \<Rightarrow> give_up_or_retry pg zone maxAttempts rl' e env (''kafka: '' @ Error err)
          | None \<Rightarrow> do {
              _ \<leftarrow> outbox_call (\<lambda>ev. MarkSent (ev_db ev) (ev_time ev) (ID e));
              count_published (EventType e);
              return rl'
            }
        })"

fun publish_all ::
  "outbox_row postgres \<Rightarrow> (time \<Rightarrow> int) \<Rightarrow> int \<Rightarrow> relay \<Rightarrow> Event list \<Rightarrow> (world, relay) state" where
  "publish_all pg zone maxAttempts rl [] = return rl"
| "publish_all pg zone maxAttempts rl (e # es) = do {
     rl' \<leftarrow> publish_event pg zone maxAttempts rl e;
     publish_all pg zone maxAttempts rl' es
   }"

section \<open>One tick and the polling loop\<close>

definition set_lag :: "duration \<Rightarrow> (world, unit) state" where
  "set_lag lag = modify (\<lambda>w. w\<lparr>w_met := (w_met w)\<lparr>LagGauge := lag\<rparr>\<rparr>)"

definition tick ::
  "outbox_row postgres \<Rightarrow> (time \<Rightarrow> int) \<Rightarrow> relay_cfg \<Rightarrow> relay \<Rightarrow> (world, go_error option \<times> relay) state" where
  "tick pg zone c rl = do {
     reset \<leftarrow> outbox_call (\<lambda>ev. ResetStuck (ev_db ev) (ev_time ev) (rc_processingTimeout c));
     case reset of
       Inl err \<Rightarrow> return (Some err, rl)
     | Inr _ \<Rightarrow> do {
         lag \<leftarrow> outbox_call (\<lambda>ev tab. (LagSeconds (ev_db ev) (ev_time ev) tab, tab));
         _ \<leftarrow> (case lag of Inl _ \<Rightarrow> return () | Inr l \<Rightarrow> set_lag l);
         rows \<leftarrow> outbox_call (\<lambda>ev. ClaimPending pg (ev_db ev) (ev_time ev) (ev_locked ev) (rc_batchSize c));
         case rows of
           Inl err \<Rightarrow> return (Some err, rl)
         | Inr es \<Rightarrow> do {
             rl' \<leftarrow> publish_all pg zone (rc_maxAttempts c) rl es;
             return (None, rl')
           }
       }
   }"

text \<open>
  The loop: what \<open>select\<close> chose each time round, the ticker or the end of the context. An
  error of a tick is logged and forgotten.
\<close>

datatype select_case = Tick | Done

fun relay_loop ::
  "outbox_row postgres \<Rightarrow> (time \<Rightarrow> int) \<Rightarrow> relay_cfg \<Rightarrow> relay \<Rightarrow> select_case list \<Rightarrow> (world, relay) state" where
  "relay_loop pg zone c rl [] = return rl"
| "relay_loop pg zone c rl (Done # _) = return rl"
| "relay_loop pg zone c rl (Tick # cs) = do {
     (_, rl') \<leftarrow> tick pg zone c rl;
     relay_loop pg zone c rl' cs
   }"

section \<open>What the relay keeps\<close>

text \<open>The message the relay writes for an event; it depends on the event's columns only.\<close>

definition message_of :: "(time \<Rightarrow> int) \<Rightarrow> Event \<Rightarrow> go_error + message" where
  "message_of zone e =
     (case marshal_Envelope zone (envelope_of e) of
        Inl err \<Rightarrow> Inl err
      | Inr b \<Rightarrow> Inr \<lparr>m_Key = AggregateID e, m_Value = b\<rparr>)"

lemma message_of_columns:
  "event_columns r = event_columns r' \<Longrightarrow>
   message_of zone (scan_Event r) = message_of zone (scan_Event r')"
  by (simp add: message_of_def envelope_of_def scan_Event_def event_columns_def split: sum.splits)

text \<open>
  Every sent row was published: its message is in the topic. \<open>tab0\<close> is the table at the
  start; the relay never changes which events it holds.
\<close>

definition announced :: "(time \<Rightarrow> int) \<Rightarrow> message list \<Rightarrow> outbox_row list \<Rightarrow> bool" where
  "announced zone ms tab \<longleftrightarrow>
     (\<forall>r\<in>set tab. ob_status r = Sent \<longrightarrow> (\<exists>m\<in>set ms. message_of zone (scan_Event r) = Inr m))"

lemma announced_append: "announced zone ms tab \<Longrightarrow> announced zone (ms @ ms') tab"
  by (auto simp: announced_def)

lemma announced_unsent: "announced zone ms tab \<Longrightarrow> no_new_sent tab tab' \<Longrightarrow> announced zone ms tab'"
  unfolding announced_def no_new_sent_def by (metis message_of_columns)

definition relay_inv :: "(time \<Rightarrow> int) \<Rightarrow> string \<Rightarrow> outbox_row list \<Rightarrow> world \<Rightarrow> bool" where
  "relay_inv zone topic tab0 w \<longleftrightarrow>
     outbox_ok (db_outbox (w_db w)) \<and> same_events tab0 (db_outbox (w_db w)) \<and>
     announced zone (w_topics w topic) (db_outbox (w_db w))"

definition relay_ok :: "string \<Rightarrow> relay \<Rightarrow> bool" where
  "relay_ok topic rl \<longleftrightarrow>
     producer_ok (rl_producer rl) \<and> topic_of (rl_producer rl) = topic \<and>
     (\<forall>d. rl_dlq rl = Some d \<longrightarrow> producer_ok d)"

text \<open>An event that was claimed from a table with the events of \<open>tab0\<close>.\<close>

definition known :: "outbox_row list \<Rightarrow> Event \<Rightarrow> bool" where
  "known tab e \<longleftrightarrow> (\<exists>r\<in>set tab. \<exists>n. e = (scan_Event r)\<lparr>Attempts := n\<rparr>)"

lemma message_of_Attempts: "message_of zone (e\<lparr>Attempts := n\<rparr>) = message_of zone e"
  by (simp add: message_of_def envelope_of_def split: sum.splits)

lemma known_row:
  assumes "known tab0 e" and "same_events tab0 tab" and "outbox_ok tab" and "r \<in> set tab" and "ob_id r = ID e"
  shows "message_of zone (scan_Event r) = message_of zone e"
proof -
  from assms(1) obtain r0 n where r0: "r0 \<in> set tab0" "e = (scan_Event r0)\<lparr>Attempts := n\<rparr>"
    by (auto simp: known_def)
  from r0(1) assms(2) have "event_columns r0 \<in> event_columns ` set tab"
    by (metis same_events_def list.set_map imageI)
  then obtain r1 where r1: "r1 \<in> set tab" "event_columns r0 = event_columns r1" by auto
  have "ID e = ob_id r0" by (simp add: r0(2) scan_Event_def)
  with assms(5) r1(2) have "ob_id r = ob_id r1" by (simp add: event_columns_def)
  then have "r1 = r" using outbox_ok_id_eq [OF assms(3)] assms(4) r1(1) by metis
  with r1(2) show ?thesis using message_of_columns [of r0 r zone] by (simp add: r0(2) message_of_Attempts)
qed

section \<open>The contract of a relay invariant\<close>

text \<open>
  What has to be shown of the calls of one worker so that a whole tick keeps a property of
  the world: \<open>I\<close> between the batches, \<open>H es\<close> while the events \<open>es\<close> are in hand, and
  \<open>A es e\<close> when Kafka has acknowledged the message of \<open>e\<close>. None of them looks at
  anything but the database and the topics.
\<close>

locale relay_contract =
  fixes pg :: "outbox_row postgres" and zone :: "time \<Rightarrow> int" and topic :: string
    and I :: "world \<Rightarrow> bool" and H :: "Event list \<Rightarrow> world \<Rightarrow> bool" and A :: "Event list \<Rightarrow> Event \<Rightarrow> world \<Rightarrow> bool"
  assumes frame_I: "w_db w' = w_db w \<Longrightarrow> w_topics w' = w_topics w \<Longrightarrow> I w \<Longrightarrow> I w'"
    and frame_H: "w_db w' = w_db w \<Longrightarrow> w_topics w' = w_topics w \<Longrightarrow> H es w \<Longrightarrow> H es w'"
    and reset: "keeps I (outbox_call (\<lambda>ev. ResetStuck (ev_db ev) (ev_time ev) d))"
    and claim: "valid I (outbox_call (\<lambda>ev. ClaimPending pg (ev_db ev) (ev_time ev) (ev_locked ev) n))
      (\<lambda>res w. case res of Inl _ \<Rightarrow> I w | Inr es \<Rightarrow> H es w)"
    and produce: "e \<in> set es \<Longrightarrow> message_of zone e = Inr m \<Longrightarrow> producer_ok p \<Longrightarrow> topic_of p = topic \<Longrightarrow>
      valid (H es) (Produce p (m_Key m) (m_Value m) t)
        (\<lambda>(r, p') w. producer_ok p' \<and> p_cfg p' = p_cfg p \<and> (if r = None then A es e w else H es w))"
    and dead_letter: "producer_ok p \<Longrightarrow>
      valid (H es) (Produce p k v t) (\<lambda>(r, p') w. producer_ok p' \<and> p_cfg p' = p_cfg p \<and> H es w)"
    and mark_sent: "e \<in> set es \<Longrightarrow>
      valid (A es e) (outbox_call (\<lambda>ev. MarkSent (ev_db ev) (ev_time ev) (ID e))) (\<lambda>_. H es)"
    and mark_failed: "e \<in> set es \<Longrightarrow>
      keeps (H es) (outbox_call (\<lambda>ev. MarkFailed pg (ev_db ev) (ev_time ev) (ID e) at msg))"
    and mark_dead: "e \<in> set es \<Longrightarrow> keeps (H es) (outbox_call (\<lambda>ev. MarkDead pg (ev_db ev) (ev_time ev) (ID e) msg))"
    and release: "H es w \<Longrightarrow> I w"
begin

abbreviation post :: "Event list \<Rightarrow> relay \<Rightarrow> world \<Rightarrow> bool" where
  "post es rl w \<equiv> H es w \<and> relay_ok topic rl"

lemma counters_keep: "keeps (H es) (count_dead et)" "keeps (H es) (count_failed et)" "keeps (H es) (count_published et)"
  by (auto simp: count_dead_def count_failed_def count_published_def intro!: valid_modify elim!: frame_H [rotated 2])

lemma publish_dlq_keeps:
  assumes "relay_ok topic rl"
  shows "valid (H es) (publish_dlq zone rl e env msg) (post es)"
  unfolding publish_dlq_def
proof (intro valid_case_option valid_case_sum)
  fix d b
  assume "rl_dlq rl = Some d"
  with assms have d: "producer_ok d" by (simp add: relay_ok_def)
  show "valid (H es) (State_Monad.bind (Produce d (AggregateID e) b (5 * Second))
       (\<lambda>(_, d'). return (rl\<lparr>rl_dlq := Some d'\<rparr>))) (post es)"
    by (rule valid_bind [OF dead_letter [OF d]], intro hoare) (use assms in \<open>auto simp: relay_ok_def\<close>)
qed (intro hoare; use assms in simp)+

lemma maybeDead_keeps:
  assumes "relay_ok topic rl" and "e \<in> set es"
  shows "valid (H es) (maybeDead pg zone n rl e env msg) (\<lambda>(dead, rl'). post es rl')"
  unfolding maybeDead_def
proof (intro valid_if valid_bind [OF publish_dlq_keeps [OF assms(1)]])
  fix rl'
  show "valid (post es rl')
     (State_Monad.bind (outbox_call (\<lambda>ev. MarkDead pg (ev_db ev) (ev_time ev) (ID e) msg))
       (\<lambda>_. State_Monad.bind (count_dead (EventType e)) (\<lambda>_. return (True, rl')))) (\<lambda>(dead, rl'). post es rl')"
    by (rule valid_assume, rule valid_bind [OF mark_dead [OF assms(2)]], rule valid_bind [OF counters_keep(1)])
       (simp add: valid_return)
qed (intro hoare; use assms in simp)

lemma give_up_or_retry_keeps:
  assumes "relay_ok topic rl" and "e \<in> set es"
  shows "valid (H es) (give_up_or_retry pg zone n rl e env msg) (post es)"
  unfolding give_up_or_retry_def
proof (rule valid_bind [OF maybeDead_keeps [OF assms]], intro valid_case_prod valid_if)
  fix x :: "bool \<times> relay" and dead rl'
  assume x: "x = (dead, rl')"
  have now: "keeps (H es) time_Now" by (rule valid_time_Now) (auto elim!: frame_H [rotated 2])
  show "valid ((case x of (dead, rl') \<Rightarrow> post es rl')) (State_Monad.bind time_Now (\<lambda>now.
      State_Monad.bind (outbox_call (\<lambda>ev. MarkFailed pg (ev_db ev) (ev_time ev) (ID e) (now + relay_backoff (Attempts e)) msg))
        (\<lambda>_. State_Monad.bind (count_failed (EventType e)) (\<lambda>_. return rl')))) (post es)"
    unfolding x case_prod_conv
    by (rule valid_assume, rule valid_bind [OF now], rule valid_bind [OF mark_failed [OF assms(2)]],
        rule valid_bind [OF counters_keep(2)]) (simp add: valid_return)
qed (auto intro: valid_return)

lemma publish_event_keeps:
  assumes ok: "relay_ok topic rl" and e: "e \<in> set es"
  shows "valid (H es) (publish_event pg zone n rl e) (post es)"
  unfolding publish_event_def Let_def
proof (rule valid_case_sum)
  fix b
  assume "marshal_Envelope zone (envelope_of e) = Inr b"
  then have m: "message_of zone e = Inr \<lparr>m_Key = AggregateID e, m_Value = b\<rparr>" by (simp add: message_of_def)
  let ?p = "rl_producer rl"
  let ?R = "\<lambda>(r, p') w. producer_ok p' \<and> p_cfg p' = p_cfg ?p \<and> (if r = None then A es e w else H es w)"
  have "producer_ok ?p" "topic_of ?p = topic" using ok by (simp_all add: relay_ok_def)
  from produce [OF e m this] have prod: "valid (H es) (Produce ?p (AggregateID e) b (5 * Second)) ?R" by simp
  show "valid (H es)
     (State_Monad.bind (Produce ?p (AggregateID e) b (5 * Second))
       (\<lambda>(res, p'). case res of
          None \<Rightarrow> State_Monad.bind (outbox_call (\<lambda>ev. MarkSent (ev_db ev) (ev_time ev) (ID e)))
             (\<lambda>_. State_Monad.bind (count_published (EventType e)) (\<lambda>_. return (rl\<lparr>rl_producer := p'\<rparr>)))
        | Some err \<Rightarrow> give_up_or_retry pg zone n (rl\<lparr>rl_producer := p'\<rparr>) e (envelope_of e)
             (''kafka: '' @ Error err))) (post es)"
  proof (rule valid_bind [OF prod], intro valid_case_prod valid_case_option)
    fix x :: "go_error option \<times> Producer" and res p' err
    let ?rl = "rl\<lparr>rl_producer := p'\<rparr>"
    assume x: "x = (res, p')"
    have ok': "relay_ok topic ?rl" if "producer_ok p'" "p_cfg p' = p_cfg ?p"
      using that ok by (auto simp: relay_ok_def)
    show "valid (?R x) (give_up_or_retry pg zone n ?rl e (envelope_of e) (''kafka: '' @ Error err)) (post es)" if "res = Some err"
      by (rule valid_pre [OF valid_assume [where B = "relay_ok topic ?rl", OF give_up_or_retry_keeps [OF _ e]]])
         (use that ok' in \<open>auto simp: x\<close>)
    show "valid (?R x) (State_Monad.bind (outbox_call (\<lambda>ev. MarkSent (ev_db ev) (ev_time ev) (ID e)))
             (\<lambda>_. State_Monad.bind (count_published (EventType e)) (\<lambda>_. return ?rl))) (post es)" if "res = None"
      by (rule valid_pre [OF valid_assume [where B = "relay_ok topic ?rl", OF valid_bind [OF mark_sent [OF e]
            valid_bind [OF counters_keep(3)]]]]) (use that ok' in \<open>auto simp: x intro: valid_return\<close>)
  qed
qed (rule give_up_or_retry_keeps [OF assms])

lemma publish_all_keeps:
  "relay_ok topic rl \<Longrightarrow> set fs \<subseteq> set es \<Longrightarrow> valid (H es) (publish_all pg zone n rl fs) (post es)"
proof (induction fs arbitrary: rl)
  case (Cons f fs)
  show ?case unfolding publish_all.simps
    by (rule valid_bind [OF publish_event_keeps], use Cons.prems in simp, use Cons.prems in simp,
        rule valid_assume, rule Cons.IH) (use Cons.prems in auto)
qed (simp add: valid_return)

lemma tick_keeps:
  assumes ok: "relay_ok topic rl"
  shows "valid I (tick pg zone c rl) (\<lambda>(_, rl') w. I w \<and> relay_ok topic rl')"
  unfolding tick_def
proof (rule valid_bind [OF reset], rule valid_case_sum)
  fix a :: "go_error + int"
  have lag: "keeps I (outbox_call (\<lambda>ev tab. (LagSeconds (ev_db ev) (ev_time ev) tab, tab)))"
    by (rule valid_outbox_call) (auto elim!: frame_I [rotated 2])
  have gauge: "keeps I (case lag of Inl _ \<Rightarrow> return () | Inr l \<Rightarrow> set_lag l)" for lag :: "go_error + duration"
    by (rule valid_case_sum) (auto simp: set_lag_def intro!: valid_return valid_modify elim!: frame_I [rotated 2])
  show "valid I (do {
         lag \<leftarrow> outbox_call (\<lambda>ev tab. (LagSeconds (ev_db ev) (ev_time ev) tab, tab));
         _ \<leftarrow> (case lag of Inl _ \<Rightarrow> return () | Inr l \<Rightarrow> set_lag l);
         rows \<leftarrow> outbox_call (\<lambda>ev. ClaimPending pg (ev_db ev) (ev_time ev) (ev_locked ev) (rc_batchSize c));
         case rows of
           Inl err \<Rightarrow> return (Some err, rl)
         | Inr es \<Rightarrow> do {
             rl' \<leftarrow> publish_all pg zone (rc_maxAttempts c) rl es;
             return (None, rl')
           } }) (\<lambda>(_, rl') w. I w \<and> relay_ok topic rl')"
  proof (rule valid_bind [OF lag], rule valid_bind [OF gauge], rule valid_bind [OF claim])
    fix rows
    have "valid (H es) (State_Monad.bind (publish_all pg zone (rc_maxAttempts c) rl es) (\<lambda>rl'. return (None, rl')))
        (\<lambda>(_, rl') w. I w \<and> relay_ok topic rl')" for es
      by (rule valid_bind [OF publish_all_keeps [OF ok order_refl]]) (auto intro: valid_return release)
    then show "valid (\<lambda>w. case rows of Inl _ \<Rightarrow> I w | Inr es \<Rightarrow> H es w)
        (case rows of Inl err \<Rightarrow> return (Some err, rl) | Inr es \<Rightarrow>
           State_Monad.bind (publish_all pg zone (rc_maxAttempts c) rl es) (\<lambda>rl'. return (None, rl')))
        (\<lambda>(_, rl') w. I w \<and> relay_ok topic rl')"
      using ok by (cases rows) (simp_all add: valid_return)
  qed
qed (use ok in \<open>simp add: valid_return\<close>)

lemma relay_loop_keeps: "relay_ok topic rl \<Longrightarrow> valid I (relay_loop pg zone c rl cs) (\<lambda>rl' w. I w \<and> relay_ok topic rl')"
proof (induction cs arbitrary: rl)
  case (Cons x cs)
  show ?case
  proof (cases x)
    case Tick
    show ?thesis unfolding Tick relay_loop.simps
      by (rule valid_bind [OF tick_keeps [OF Cons.prems]], intro valid_case_prod) (use Cons.IH in \<open>auto intro: valid_assume\<close>)
  qed (use Cons.prems in \<open>simp add: valid_return\<close>)
qed (simp add: valid_return)

end

text \<open>
  A property that does not care what is in hand and what is acknowledged: it is enough that
  every call keeps it.
\<close>

locale relay_invariant =
  fixes pg :: "outbox_row postgres" and zone :: "time \<Rightarrow> int" and topic :: string and I :: "world \<Rightarrow> bool"
  assumes unseen: "w_db w' = w_db w \<Longrightarrow> w_topics w' = w_topics w \<Longrightarrow> I w \<Longrightarrow> I w'"
    and reset_keeps: "keeps I (outbox_call (\<lambda>ev. ResetStuck (ev_db ev) (ev_time ev) d))"
    and claim_keeps: "keeps I (outbox_call (\<lambda>ev. ClaimPending pg (ev_db ev) (ev_time ev) (ev_locked ev) n))"
    and write_keeps: "producer_ok p \<Longrightarrow> keeps I (Produce p k v t)"
    and sent_keeps: "keeps I (outbox_call (\<lambda>ev. MarkSent (ev_db ev) (ev_time ev) i))"
    and failed_keeps: "keeps I (outbox_call (\<lambda>ev. MarkFailed pg (ev_db ev) (ev_time ev) i at msg))"
    and dead_keeps: "keeps I (outbox_call (\<lambda>ev. MarkDead pg (ev_db ev) (ev_time ev) i msg))"
begin

lemma produce_keeps: "producer_ok p \<Longrightarrow> valid I (Produce p k v t) (\<lambda>(r, p') w. producer_ok p' \<and> p_cfg p' = p_cfg p \<and> I w)"
proof (rule validI)
  fix w x w'
  assume p: "producer_ok p" and w: "I w" and run: "run_state (Produce p k v t) w = (x, w')"
  obtain r p' where x: "x = (r, p')" by (rule prod.exhaust)
  have "producer_ok p'" "p_cfg p' = p_cfg p" using Produce_wrote [OF p run [unfolded x]] by metis+
  then show "(case x of (r, p') \<Rightarrow> \<lambda>w. producer_ok p' \<and> p_cfg p' = p_cfg p \<and> I w) w'"
    using validD [OF write_keeps [OF p] w run] by (simp add: x)
qed

end

sublocale relay_invariant \<subseteq> relay_contract pg zone topic I "\<lambda>_. I" "\<lambda>_ _. I"
proof (unfold_locales, goal_cases)
  case (4 n)
  show ?case by (rule valid_weaken [OF claim_keeps]) (auto split: sum.split)
next
  case (5 e es m p t)
  show ?case by (rule valid_weaken [OF produce_keeps [OF 5(3)]]) auto
qed (auto intro: unseen reset_keeps produce_keeps sent_keeps failed_keeps dead_keeps)

section \<open>The invariant\<close>

lemma valid_unsent_call:
  assumes "\<And>ev tab. outbox_ok tab \<Longrightarrow> outbox_ok (snd (f ev tab))"
    and "\<And>ev tab. same_events tab (snd (f ev tab))"
    and "\<And>ev tab. no_new_sent tab (snd (f ev tab))"
  shows "keeps (relay_inv zone topic tab0) (outbox_call f)"
  by (rule valid_outbox_call)
     (auto simp: relay_inv_def assms intro: announced_unsent same_events_trans)

lemma valid_MarkSent:
  assumes known: "known tab0 e" and b: "message_of zone e = Inr m"
  shows "valid (\<lambda>w. relay_inv zone topic tab0 w \<and> m \<in> set (w_topics w topic))
    (outbox_call (\<lambda>ev. MarkSent (ev_db ev) (ev_time ev) (ID e))) (\<lambda>_. relay_inv zone topic tab0)"
proof (rule valid_outbox_call, elim conjE)
  fix w :: world and ev :: event
  let ?tab = "db_outbox (w_db w)"
  let ?tab' = "snd (MarkSent (ev_db ev) (ev_time ev) (ID e) ?tab)"
  assume inv: "relay_inv zone topic tab0 w" and m: "m \<in> set (w_topics w topic)"
  have "announced zone (w_topics w topic) ?tab'"
    unfolding announced_def
  proof (intro ballI impI)
    fix r' assume r': "r' \<in> set ?tab'" "ob_status r' = Sent"
    then show "\<exists>m\<in>set (w_topics w topic). message_of zone (scan_Event r') = Inr m"
    proof (cases rule: MarkSent_sent)
      case (already r)
      then show ?thesis using inv message_of_columns [OF already(3)]
        by (simp add: relay_inv_def announced_def)
    next
      case (marked r)
      then show ?thesis using inv known_row [OF known _ _ marked(1)] b m message_of_columns [OF marked(3)]
        by (auto simp: relay_inv_def)
    qed
  qed
  then show "relay_inv zone topic tab0 (w\<lparr>w_cursor := Suc (w_cursor w),
      w_db := (w_db w)\<lparr>db_outbox := ?tab'\<rparr>\<rparr>)"
    using inv MarkSent_keeps [of ?tab] by (auto simp: relay_inv_def intro: same_events_trans)
qed

lemma scan_columns:
  "event_columns r = event_columns r0 \<Longrightarrow> scan_Event r = (scan_Event r0)\<lparr>Attempts := ob_attempts r\<rparr>"
  by (simp add: scan_Event_def event_columns_def)

lemma valid_ClaimPending:
  assumes pg: "postgres_ok pg"
  shows "valid (relay_inv zone topic tab0)
    (outbox_call (\<lambda>ev. ClaimPending pg (ev_db ev) (ev_time ev) (ev_locked ev) n))
    (\<lambda>res w. relay_inv zone topic tab0 w \<and> (\<forall>es. res = Inr es \<longrightarrow> (\<forall>e\<in>set es. known tab0 e)))"
proof (rule validI)
  fix w :: world and res w'
  let ?c = "\<lambda>ev. ClaimPending pg (ev_db ev) (ev_time ev) (ev_locked ev) n"
  let ?tab = "db_outbox (w_db w)"
  assume inv: "relay_inv zone topic tab0 w" and run: "run_state (outbox_call ?c) w = (res, w')"
  have "keeps (relay_inv zone topic tab0) (outbox_call ?c)"
    by (rule valid_unsent_call) (simp_all add: ClaimPending_keeps unsent_calls)
  then have inv': "relay_inv zone topic tab0 w'" using inv run by (rule validD)
  have tab: "outbox_ok ?tab" "same_events tab0 ?tab" using inv by (simp_all add: relay_inv_def)
  have "known tab0 e" if res: "res = Inr es" and e: "e \<in> set es" for es e
  proof -
    have "?c (cur_event w) ?tab = (Inr es, snd (?c (cur_event w) ?tab))"
      using run res by (auto simp: prod_eq_iff)
    then obtain r now where r: "r \<in> set ?tab" "e = scan_Event (claim_row now r)"
      using ClaimPending_event [OF pg tab(1) _ e] by metis
    from r(1) tab(2) have "event_columns r \<in> event_columns ` set tab0"
      by (metis same_events_def list.set_map imageI)
    then obtain r0 where "r0 \<in> set tab0" "event_columns r = event_columns r0" by auto
    then show ?thesis using scan_columns [of "claim_row now r" r0] r(2) claim.upd_columns [of now r]
      by (auto simp: known_def)
  qed
  with inv' show "relay_inv zone topic tab0 w' \<and> (\<forall>es. res = Inr es \<longrightarrow> (\<forall>e\<in>set es. known tab0 e))"
    by blast
qed

lemma valid_conj_const: "keeps P m \<Longrightarrow> keeps (\<lambda>w. P w \<and> B) m"
  by (auto simp: valid_def)

abbreviation in_hand :: "(time \<Rightarrow> int) \<Rightarrow> string \<Rightarrow> outbox_row list \<Rightarrow> Event list \<Rightarrow> world \<Rightarrow> bool" where
  "in_hand zone topic tab0 es w \<equiv> relay_inv zone topic tab0 w \<and> (\<forall>e\<in>set es. known tab0 e)"

lemma relay_inv_produce:
  assumes "producer_ok p"
  shows "valid (in_hand zone topic tab0 es) (Produce p k v t)
    (\<lambda>(r, p') w. producer_ok p' \<and> p_cfg p' = p_cfg p \<and> in_hand zone topic tab0 es w \<and>
       (r = None \<longrightarrow> \<lparr>m_Key = k, m_Value = v\<rparr> \<in> set (w_topics w (topic_of p))))"
proof (rule validI)
  fix w x w'
  assume inv: "in_hand zone topic tab0 es w" and run: "run_state (Produce p k v t) w = (x, w')"
  obtain r p' where x: "x = (r, p')" by (rule prod.exhaust)
  obtain n c where w': "w' = wrote (topic_of p) (replicate n \<lparr>m_Key = k, m_Value = v\<rparr>) c w"
    and n: "r = None \<Longrightarrow> 1 \<le> n" and p': "producer_ok p'" "p_cfg p' = p_cfg p"
    using Produce_wrote [OF assms run [unfolded x]] by metis
  have "relay_inv zone topic tab0 w'"
    using inv by (auto simp: relay_inv_def w' intro: announced_append)
  then show "(case x of (r, p') \<Rightarrow> \<lambda>w. producer_ok p' \<and> p_cfg p' = p_cfg p \<and> in_hand zone topic tab0 es w \<and>
       (r = None \<longrightarrow> \<lparr>m_Key = k, m_Value = v\<rparr> \<in> set (w_topics w (topic_of p)))) w'"
    using n p' inv by (auto simp: x w')
qed

interpretation relays: relay_contract pg zone topic "\<lambda>w. relay_inv zone topic tab0 w \<and> postgres_ok pg"
  "\<lambda>es w. in_hand zone topic tab0 es w \<and> postgres_ok pg"
  "\<lambda>es e w. (in_hand zone topic tab0 es w \<and> (\<exists>m\<in>set (w_topics w topic). message_of zone e = Inr m)) \<and> postgres_ok pg"
  for pg zone topic tab0
proof (unfold_locales, goal_cases)
  case (3 d)
  show ?case by (intro valid_conj_const valid_unsent_call) (simp_all add: ResetStuck_keeps unsent_calls)
next
  case (4 n)
  show ?case
    by (rule valid_assume, rule valid_weaken [OF valid_ClaimPending]) (auto split: sum.splits)
next
  case (5 e es m p t)
  then show ?case
    by (cases m, intro valid_assume valid_weaken [OF relay_inv_produce [of p zone topic tab0 es "m_Key m" "m_Value m" t]]) auto
next
  case (6 p es k v t)
  then show ?case by (intro valid_assume valid_weaken [OF relay_inv_produce [of p zone topic tab0 es k v t]]) auto
next
  case (7 e es)
  show ?case
  proof (rule validI)
    fix w a w'
    assume pre: "(in_hand zone topic tab0 es w \<and> (\<exists>m\<in>set (w_topics w topic). message_of zone e = Inr m)) \<and> postgres_ok pg"
      and run: "run_state (outbox_call (\<lambda>ev. MarkSent (ev_db ev) (ev_time ev) (ID e))) w = (a, w')"
    then obtain m where m: "m \<in> set (w_topics w topic)" "message_of zone e = Inr m" by blast
    have "known tab0 e" using pre 7 by blast
    from validD [OF valid_MarkSent [OF this m(2)] _ run] pre m(1) show "in_hand zone topic tab0 es w' \<and> postgres_ok pg" by blast
  qed
next
  case (8 e es at msg)
  show ?case by (intro valid_conj_const valid_unsent_call) (simp_all add: MarkFailed_keeps unsent_calls)
next
  case (9 e es msg)
  show ?case by (intro valid_conj_const valid_unsent_call) (simp_all add: MarkDead_keeps unsent_calls)
qed (auto simp: relay_inv_def)

section \<open>Counting\<close>

text \<open>Every claimed event ends in exactly one of the three counters, whatever the outside does.\<close>

definition handled :: "world \<Rightarrow> string \<Rightarrow> nat" where
  "handled w et = PublishedTotal (w_met w) et + FailedTotal (w_met w) et + DeadTotal (w_met w) et"

lemma publish_dlq_frame: "run_state (publish_dlq zone rl e env msg) w = (r, w') \<Longrightarrow> same_but_topics w w'"
  by (auto simp: publish_dlq_def split: option.splits sum.splits prod.splits dest: Produce_frame)

lemmas met_frame = Produce_frame [unfolded same_but_topics_def] publish_dlq_frame [unfolded same_but_topics_def]

lemma give_up_or_retry_handled:
  "run_state (give_up_or_retry pg zone n rl e env msg) w = (rl', w') \<Longrightarrow>
   handled w' = inc (EventType e) (handled w)"
  by (auto simp: give_up_or_retry_def maybeDead_def count_dead_def count_failed_def handled_def
      split: prod.splits if_splits dest!: met_frame)

lemma publish_event_handled:
  "run_state (publish_event pg zone n rl e) w = (rl', w') \<Longrightarrow>
   handled w' = inc (EventType e) (handled w)"
  by (auto simp: publish_event_def Let_def count_published_def handled_def split: sum.splits prod.splits option.splits
      dest!: give_up_or_retry_handled met_frame)

lemma publish_all_handled:
  "run_state (publish_all pg zone n rl es) w = (rl', w') \<Longrightarrow>
   handled w' et = handled w et + length (filter (\<lambda>e. EventType e = et) es)"
proof (induction es arbitrary: rl w)
  case (Cons e es)
  obtain rl1 w1 where 1: "run_state (publish_event pg zone n rl e) w = (rl1, w1)" by fastforce
  with Cons.prems have "run_state (publish_all pg zone n rl1 es) w1 = (rl', w')" by simp
  from Cons.IH [OF this] publish_event_handled [OF 1] show ?case by auto
qed simp

section \<open>When the outside works\<close>

text \<open>From the current position of the script on, every call succeeds and no write is repeated.\<close>

definition healthy :: "world \<Rightarrow> bool" where
  "healthy w \<longleftrightarrow> (\<forall>n\<ge>w_cursor w. ev_db (w_script w n) = Success \<and> ev_kafka (w_script w n) = Success \<and>
     ev_again (w_script w n) = 0)"

definition open_relay :: "string \<Rightarrow> relay \<Rightarrow> bool" where
  "open_relay topic rl \<longleftrightarrow> (\<exists>wr. p_w (rl_producer rl) = Some wr \<and> wr_Topic wr = topic)"

definition the_message :: "(time \<Rightarrow> int) \<Rightarrow> Event \<Rightarrow> message" where
  "the_message zone e = (case message_of zone e of Inr m \<Rightarrow> m | Inl _ \<Rightarrow> \<lparr>m_Key = [], m_Value = []\<rparr>)"

definition encodable :: "(time \<Rightarrow> int) \<Rightarrow> Event \<Rightarrow> bool" where
  "encodable zone e \<longleftrightarrow> (case message_of zone e of Inr _ \<Rightarrow> True | Inl _ \<Rightarrow> False)"

text \<open>What decides it is the year of the event and the syntax of its payload.\<close>

lemma encodable_iff:
  "encodable zone e \<longleftrightarrow>
     (\<exists>t. marshal_time zone (CreatedAt e) = Inr t) \<and> (\<exists>p. marshal_raw (Some (Payload e)) = Inr p)"
  by (auto simp: encodable_def message_of_def marshal_Envelope_def envelope_of_def split: sum.splits)

lemma Produce_healthy:
  assumes "healthy w" and "p_w p = Some wr"
  shows "run_state (Produce p k v t) w =
    ((None, p), wrote (wr_Topic wr) [\<lparr>m_Key = k, m_Value = v\<rparr>] (Suc (w_cursor w)) w)"
  using assms by (simp add: Produce_def write_once_def healthy_def wrote_def copies_def Let_def)

text \<open>The same script, read at least as far.\<close>

definition later :: "world \<Rightarrow> world \<Rightarrow> bool" where
  "later w w' \<longleftrightarrow> w_script w' = w_script w \<and> w_cursor w \<le> w_cursor w'"

lemma publish_event_healthy:
  assumes w: "healthy w" and rl: "open_relay topic rl" and e: "encodable zone e"
    and tab: "outbox_ok (db_outbox (w_db w))" and row: "ID e \<in> ob_id ` set (db_outbox (w_db w))"
  obtains w' where "run_state (publish_event pg zone n rl e) w = (rl, w')" "healthy w'"
    "w_topics w' = (w_topics w)(topic := w_topics w topic @ [the_message zone e])"
    "outbox_ok (db_outbox (w_db w'))" "ob_id ` set (db_outbox (w_db w')) = ob_id ` set (db_outbox (w_db w))"
    "statuses (db_outbox (w_db w')) = (statuses (db_outbox (w_db w)))(ID e \<mapsto> Sent)"
    "PublishedTotal (w_met w') = inc (EventType e) (PublishedTotal (w_met w))"
    "filter (\<lambda>r. ob_id r \<noteq> ID e) (db_outbox (w_db w')) = filter (\<lambda>r. ob_id r \<noteq> ID e) (db_outbox (w_db w))"
    "later w w'"
proof -
  let ?tab = "db_outbox (w_db w)"
  from rl obtain wr where wr: "p_w (rl_producer rl) = Some wr" "wr_Topic wr = topic"
    by (auto simp: open_relay_def)
  from e obtain b where b: "marshal_Envelope zone (envelope_of e) = Inr b"
    by (auto simp: encodable_def message_of_def split: sum.splits)
  have m: "the_message zone e = \<lparr>m_Key = AggregateID e, m_Value = b\<rparr>"
    by (simp add: the_message_def message_of_def b)
  define w' where "w' = snd (run_state (publish_event pg zone n rl e) w)"
  define now where "now = ev_time (w_script w (Suc (w_cursor w)))"
  have res: "run_state (publish_event pg zone n rl e) w = (rl, w')"
    and w'_topics: "w_topics w' = (w_topics w)(topic := w_topics w topic @ [the_message zone e])"
    and w'_tab: "db_outbox (w_db w') = sql_update (\<lambda>r. ob_id r = ID e) (sent_row now) ?tab"
    and w'_met: "PublishedTotal (w_met w') = inc (EventType e) (PublishedTotal (w_met w))"
    and w'_script: "w_script w' = w_script w" "w_cursor w \<le> w_cursor w'"
    using w wr b
    by (simp_all add: w'_def publish_event_def Let_def Produce_healthy healthy_def m MarkSent_def now_def
        count_published_def)
  have "statuses ?tab (ID e) \<noteq> None" using row by (simp add: statuses_None)
  then have "statuses (db_outbox (w_db w')) = (statuses ?tab)(ID e \<mapsto> Sent)"
    by (auto simp: w'_tab sent_to.table_point [OF tab])
  moreover have "outbox_ok (db_outbox (w_db w'))" "ob_id ` set (db_outbox (w_db w')) = ob_id ` set ?tab"
    using MarkSent_keeps [of ?tab Success now "ID e"] tab
    by (simp_all add: w'_tab MarkSent_def same_events_ids)
  moreover have "healthy w'" "later w w'" using w w'_script by (simp_all add: healthy_def later_def)
  moreover have "filter (\<lambda>r. ob_id r \<noteq> ID e) (db_outbox (w_db w')) = filter (\<lambda>r. ob_id r \<noteq> ID e) ?tab"
    unfolding w'_tab by (rule filter_sql_update) (simp_all add: sent.upd_id)
  ultimately show thesis using that res w'_topics w'_met by blast
qed

text \<open>The whole batch: one message per event, in the order of the batch, and every row sent.\<close>

lemma publish_all_healthy:
  assumes "healthy w" and "open_relay topic rl" and "\<forall>e\<in>set es. encodable zone e"
    and "outbox_ok (db_outbox (w_db w))" and "ID ` set es \<subseteq> ob_id ` set (db_outbox (w_db w))"
  shows "\<exists>w'. run_state (publish_all pg zone n rl es) w = (rl, w') \<and>
    w_topics w' = (w_topics w)(topic := w_topics w topic @ map (the_message zone) es) \<and>
    statuses (db_outbox (w_db w')) =
      (\<lambda>i. if i \<in> ID ` set es then Some Sent else statuses (db_outbox (w_db w)) i) \<and>
    PublishedTotal (w_met w') = (\<lambda>et. PublishedTotal (w_met w) et + length (filter (\<lambda>e. EventType e = et) es)) \<and>
    filter (\<lambda>r. ob_id r \<notin> ID ` set es) (db_outbox (w_db w')) = filter (\<lambda>r. ob_id r \<notin> ID ` set es) (db_outbox (w_db w)) \<and>
    outbox_ok (db_outbox (w_db w')) \<and> later w w'"
  using assms
proof (induction es arbitrary: w)
  case (Cons e es)
  then have pre: "encodable zone e" "ID e \<in> ob_id ` set (db_outbox (w_db w))" by auto
  obtain w1 where w1: "run_state (publish_event pg zone n rl e) w = (rl, w1)" "healthy w1"
    "w_topics w1 = (w_topics w)(topic := w_topics w topic @ [the_message zone e])"
    "outbox_ok (db_outbox (w_db w1))" "ob_id ` set (db_outbox (w_db w1)) = ob_id ` set (db_outbox (w_db w))"
    "statuses (db_outbox (w_db w1)) = (statuses (db_outbox (w_db w)))(ID e \<mapsto> Sent)"
    "PublishedTotal (w_met w1) = inc (EventType e) (PublishedTotal (w_met w))"
    "filter (\<lambda>r. ob_id r \<noteq> ID e) (db_outbox (w_db w1)) = filter (\<lambda>r. ob_id r \<noteq> ID e) (db_outbox (w_db w))"
    "later w w1"
    by (rule publish_event_healthy [OF Cons.prems(1,2) pre(1) Cons.prems(4) pre(2)])
  have rest: "\<forall>e\<in>set es. encodable zone e" "ID ` set es \<subseteq> ob_id ` set (db_outbox (w_db w1))"
    using Cons.prems(3,5) w1(5) by auto
  obtain w' where w': "run_state (publish_all pg zone n rl es) w1 = (rl, w')"
    "w_topics w' = (w_topics w1)(topic := w_topics w1 topic @ map (the_message zone) es)"
    "statuses (db_outbox (w_db w')) =
      (\<lambda>i. if i \<in> ID ` set es then Some Sent else statuses (db_outbox (w_db w1)) i)"
    "PublishedTotal (w_met w') = (\<lambda>et. PublishedTotal (w_met w1) et + length (filter (\<lambda>e. EventType e = et) es))"
    "filter (\<lambda>r. ob_id r \<notin> ID ` set es) (db_outbox (w_db w')) = filter (\<lambda>r. ob_id r \<notin> ID ` set es) (db_outbox (w_db w1))"
    "outbox_ok (db_outbox (w_db w'))" "later w1 w'"
    using Cons.IH [OF w1(2) Cons.prems(2) rest(1) w1(4) rest(2)] by blast
  have "filter (\<lambda>r. ob_id r \<notin> ID ` set (e # es)) tab = filter (\<lambda>r. ob_id r \<noteq> ID e) (filter (\<lambda>r. ob_id r \<notin> ID ` set es) tab)"
    "filter (\<lambda>r. ob_id r \<notin> ID ` set (e # es)) tab = filter (\<lambda>r. ob_id r \<notin> ID ` set es) (filter (\<lambda>r. ob_id r \<noteq> ID e) tab)"
    for tab by (auto intro: filter_cong)
  then have "filter (\<lambda>r. ob_id r \<notin> ID ` set (e # es)) (db_outbox (w_db w')) =
      filter (\<lambda>r. ob_id r \<notin> ID ` set (e # es)) (db_outbox (w_db w))" using w'(5) w1(8) by metis
  moreover have "later w w'" using w1(9) w'(7) by (simp add: later_def)
  ultimately show ?case using w'(6)
    by (intro exI [of _ w']) (auto simp: w1(1,3,6,7) w'(1-4) fun_eq_iff)
qed (auto simp: later_def)

text \<open>
  One tick: with the outside healthy it claims the rows \<open>chosen\<close> names, writes one message
  for each to the topic and leaves all of them sent.
\<close>

lemma tick_healthy:
  fixes w c pg
  defines "tab \<equiv> snd (ResetStuck Success (ev_time (cur_event w)) (rc_processingTimeout c) (db_outbox (w_db w)))"
    and "ev \<equiv> w_script w (w_cursor w + 2)"
  defines "cs \<equiv> chosen pg (ev_time ev) (ev_locked ev) (batch_of (rc_batchSize c)) tab"
  assumes pg: "postgres_ok pg" and w: "healthy w" and rl: "open_relay topic rl"
    and ok: "outbox_ok (db_outbox (w_db w))"
    and enc: "\<forall>r\<in>set cs. encodable zone (scan_Event r) \<and> ob_attempts r < int4_max"
  shows "\<exists>w' ms. run_state (tick pg zone c rl) w = ((None, rl), w') \<and>
    w_topics w' = (w_topics w)(topic := w_topics w topic @ ms) \<and>
    mset ms = mset (map (the_message zone \<circ> scan_Event) cs) \<and>
    statuses (db_outbox (w_db w')) = (\<lambda>i. if i \<in> ob_id ` set cs then Some Sent else statuses tab i) \<and>
    filter (\<lambda>r. ob_id r \<notin> ob_id ` set cs) (db_outbox (w_db w')) = filter (\<lambda>r. ob_id r \<notin> ob_id ` set cs) tab \<and>
    outbox_ok (db_outbox (w_db w')) \<and> later w w'"
proof -
  have tab: "outbox_ok tab" using ResetStuck_keeps(1) [OF ok] by (simp add: tab_def)
  have step: "ev_db (w_script w n) = Success" if "w_cursor w \<le> n" for n
    using w that by (simp add: healthy_def)
  obtain es tab' where claim: "ClaimPending pg Success (ev_time ev) (ev_locked ev) (rc_batchSize c) tab = (Inr es, tab')"
    using ClaimPending_Success [OF pg tab] enc by (metis cs_def)
  note es = ClaimPending_Inr [OF pg tab claim, folded cs_def]
  obtain l where lag: "LagSeconds Success (ev_time (w_script w (Suc (w_cursor w)))) tab = Inr l"
    by (cases "sort_key ob_created_at (filter (\<lambda>r. ob_status r = Pending) tab)")
       (simp_all add: LagSeconds_def)
  define w3 where "w3 = w\<lparr>w_met := (w_met w)\<lparr>LagGauge := l\<rparr>, w_cursor := w_cursor w + 3,
     w_db := (w_db w)\<lparr>db_outbox := tab'\<rparr>\<rparr>"
  have w3: "healthy w3" "w_topics w3 = w_topics w" "db_outbox (w_db w3) = tab'"
    "run_state (tick pg zone c rl) w =
       (case run_state (publish_all pg zone (rc_maxAttempts c) rl es) w3 of (rl', w') \<Rightarrow> ((None, rl'), w'))"
    using w claim lag step
    by (simp_all add: w3_def tick_def ResetStuck_def tab_def ev_def healthy_def set_lag_def Let_def
        eval_nat_numeral)
  have enc_claim: "encodable zone (scan_Event (claim_row now r)) = encodable zone (scan_Event r)"
    "the_message zone (scan_Event (claim_row now r)) = the_message zone (scan_Event r)" for now r
    using message_of_columns [OF claim.upd_columns [of now r], of zone]
    by (simp_all add: encodable_def the_message_def)
  have ids: "ID ` set es = ob_id ` set cs"
    using ClaimPending_IDs(2) [OF pg tab claim] by (simp add: cs_def)
  have tab': "outbox_ok tab'" "ob_id ` set tab' = ob_id ` set tab"
    using ClaimPending_keeps [of tab pg Success "ev_time ev" "ev_locked ev" "rc_batchSize c"] tab claim
    by (simp_all add: same_events_ids)
  have rows: "ID ` set es \<subseteq> ob_id ` set (db_outbox (w_db w3))"
    using chosen_due(1) [OF pg] by (auto simp: w3 ids cs_def tab')
  have "set es = (scan_Event \<circ> claim_row (ev_time ev)) ` set cs"
    using arg_cong [OF es(2), of set_mset] by simp
  then have "\<forall>e\<in>set es. encodable zone e" using enc by (auto simp: enc_claim)
  with tab'(1) rows obtain w' where w': "run_state (publish_all pg zone (rc_maxAttempts c) rl es) w3 = (rl, w')"
    "w_topics w' = (w_topics w3)(topic := w_topics w3 topic @ map (the_message zone) es)"
    "statuses (db_outbox (w_db w')) = (\<lambda>i. if i \<in> ID ` set es then Some Sent else statuses tab' i)"
    "filter (\<lambda>r. ob_id r \<notin> ID ` set es) (db_outbox (w_db w')) = filter (\<lambda>r. ob_id r \<notin> ID ` set es) tab'"
    "outbox_ok (db_outbox (w_db w'))" "later w3 w'"
    using publish_all_healthy [OF w3(1) rl, of es zone pg "rc_maxAttempts c"] unfolding w3(3) by blast
  have "mset (map (the_message zone) es) = mset (map (the_message zone \<circ> scan_Event) cs)"
    by (simp add: es(2) image_mset.compositionality comp_def enc_claim)
  moreover have "statuses tab' i = statuses tab i" if "i \<notin> ob_id ` set cs" for i
    using that by (simp add: es(1) claim_to.table_statuses [OF tab]) blast
  moreover have "filter (\<lambda>r. ob_id r \<notin> ob_id ` set cs) tab' = filter (\<lambda>r. ob_id r \<notin> ob_id ` set cs) tab"
    unfolding es(1) by (rule filter_sql_update) (simp_all add: claim.upd_id)
  moreover have "later w w'" using w'(6) by (simp add: later_def w3_def)
  ultimately show ?thesis
    using w3 w' by (intro exI [of _ w'] exI [of _ "map (the_message zone) es"]) (auto simp: ids fun_eq_iff)
qed

section \<open>What becomes of one event\<close>

text \<open>
  What a failure of the attempt that ended in world \<open>w1\<close> does to the row, with a database
  that answers: it is dead when its attempts are used up, and otherwise pending again, with the
  next attempt one backoff after the clock of \<open>w1\<close>. A message the server does not take as
  text leaves the row as it is, to be released by \<open>ResetStuck\<close> later.
\<close>

definition after_failure ::
  "outbox_row postgres \<Rightarrow> int \<Rightarrow> Event \<Rightarrow> string \<Rightarrow> world \<Rightarrow> world \<Rightarrow> bool" where
  "after_failure pg maxAttempts e msg w1 w' \<longleftrightarrow>
     (if \<not> text_ok pg msg then db_outbox (w_db w') = db_outbox (w_db w1)
      else if 0 < maxAttempts \<and> maxAttempts \<le> Attempts e then
        \<exists>now. db_outbox (w_db w') = sql_update (\<lambda>r. ob_id r = ID e) (dead_row now msg) (db_outbox (w_db w1))
      else
        db_outbox (w_db w') = sql_update (\<lambda>r. ob_id r = ID e)
          (failed_row (ev_time (w_script w1 (Suc (w_cursor w1))))
             (timestamptz pg (ev_time (cur_event w1) + relay_backoff (Attempts e))) msg) (db_outbox (w_db w1)))"

lemma give_up_or_retry_after:
  assumes db: "db_up w" and run: "run_state (give_up_or_retry pg zone n rl e env msg) w = (rl', w')"
  shows "after_failure pg n e msg w w'"
proof (cases "0 < n \<and> n \<le> Attempts e")
  case True
  obtain rl1 w1 where 1: "run_state (publish_dlq zone rl e env msg) w = (rl1, w1)" by fastforce
  with True run db publish_dlq_frame [OF 1] show ?thesis
    by (auto simp: give_up_or_retry_def maybeDead_def MarkDead_def after_failure_def db_up_def count_dead_def
        same_but_topics_def)
next
  case False
  then have "maybeDead pg zone n rl e env msg = return (False, rl)" by (simp only: maybeDead_def if_False)
  with False run db show ?thesis
    by (auto simp: give_up_or_retry_def MarkFailed_def db_up_def count_failed_def after_failure_def simp del: not_less)
qed

section \<open>Properties\<close>

lemma new_relay_ok: "relay_ok (rc_topic c) (new_relay c)" "open_relay (rc_topic c) (new_relay c)"
  by (auto simp: relay_ok_def open_relay_def new_relay_def NewProducer_def newWriter_def producer_ok_def)

text \<open>
  C4. Nothing is marked sent that was not published: through any number of ticks, under
  any failures of the database and of Kafka, every row with status \<open>sent\<close> has its
  message in the topic; the table keeps its invariant and its events.
\<close>

theorem sent_is_published:
  assumes "postgres_ok pg" and "relay_ok topic rl" and "outbox_ok (db_outbox (w_db w))"
    and "announced zone (w_topics w topic) (db_outbox (w_db w))"
    and "run_state (relay_loop pg zone c rl cs) w = (rl', w')"
  shows "announced zone (w_topics w' topic) (db_outbox (w_db w')) \<and> outbox_ok (db_outbox (w_db w')) \<and>
    same_events (db_outbox (w_db w)) (db_outbox (w_db w'))"
proof -
  have "relay_inv zone topic (db_outbox (w_db w)) w \<and> postgres_ok pg" using assms(1,3,4) by (simp add: relay_inv_def)
  from validD [OF relays.relay_loop_keeps [OF assms(2)] this assms(5)] show ?thesis
    by (simp add: relay_inv_def)
qed

definition relay_world :: world where
  "relay_world = \<lparr>w_script = (\<lambda>n. \<lparr>ev_db = Success, ev_kafka = Success, ev_again = 0, ev_time = 100 + int n,
       ev_locked = (\<lambda>_. False), ev_done = False\<rparr>),
     w_cursor = 0, w_db = empty_db\<lparr>db_outbox := example_table, db_outbox_seq := 3\<rparr>, w_topics = (\<lambda>_. []),
     w_commits = [], w_notified = [], w_met = NewMetrics, w_nmet = NewNotifyMetrics\<rparr>"

definition example_cfg :: relay_cfg where
  "example_cfg = relay_config Map.empty \<lparr>AppEnv = ''dev'', HTTPAddr = [], DatabaseURL = ''postgres://db''\<rparr>"

lemma relay_world_simps [simp]:
  "db_outbox (w_db relay_world) = example_table" "w_topics relay_world = (\<lambda>_. [])"
  "w_cursor relay_world = 0" "ev_db (w_script relay_world n) = Success" "ev_kafka (w_script relay_world n) = Success"
  "ev_again (w_script relay_world n) = 0"
  "ev_time (w_script relay_world n) = 100 + int n" "ev_locked (w_script relay_world n) i = False"
  by (simp_all add: relay_world_def)

theorem sent_is_published_witness:
  "\<exists>rl' w'. run_state (relay_loop plain_postgres (\<lambda>_. 0) example_cfg (new_relay example_cfg) [Tick, Tick, Done]) relay_world
       = (rl', w') \<and>
     announced (\<lambda>_. 0) (w_topics w' (rc_topic example_cfg)) (db_outbox (w_db w'))"
proof -
  obtain rl' w' where run: "run_state (relay_loop plain_postgres (\<lambda>_. 0) example_cfg (new_relay example_cfg)
      [Tick, Tick, Done]) relay_world = (rl', w')" by (rule prod.exhaust)
  have "announced (\<lambda>_. 0) (w_topics relay_world (rc_topic example_cfg)) (db_outbox (w_db relay_world))"
    by (auto simp: announced_def example_table_def example_row_def)
  with sent_is_published [OF plain_postgres_ok new_relay_ok(1) _ _ run] run show ?thesis
    using example_table_ok by auto
qed

text \<open>
  C25. A tick delivers: when the database and Kafka answer and no write is repeated, a tick
  takes the oldest due rows that fit its batch and are not locked, which are assumed to be
  encodable and to have attempts left to count, writes exactly one message for each of them to
  the topic, leaves every one of them sent and all other rows, column by column, as
  \<open>ResetStuck\<close> left them, and reports no error.
\<close>

theorem tick_delivers:
  assumes "postgres_ok pg" and "healthy w" and "open_relay topic rl" and "outbox_ok (db_outbox (w_db w))"
    and "tab = snd (ResetStuck Success (ev_time (cur_event w)) (rc_processingTimeout c) (db_outbox (w_db w)))"
    and "ev = w_script w (w_cursor w + 2)"
    and "cs = chosen pg (ev_time ev) (ev_locked ev) (batch_of (rc_batchSize c)) tab"
    and "\<forall>r\<in>set cs. encodable zone (scan_Event r) \<and> ob_attempts r < int4_max"
  shows "\<exists>w' ms. run_state (tick pg zone c rl) w = ((None, rl), w') \<and>
    w_topics w' = (w_topics w)(topic := w_topics w topic @ ms) \<and>
    mset ms = mset (map (the_message zone \<circ> scan_Event) cs) \<and>
    statuses (db_outbox (w_db w')) = (\<lambda>i. if i \<in> ob_id ` set cs then Some Sent else statuses tab i) \<and>
    filter (\<lambda>r. ob_id r \<notin> ob_id ` set cs) (db_outbox (w_db w')) = filter (\<lambda>r. ob_id r \<notin> ob_id ` set cs) tab"
  using tick_healthy [OF assms(1-4), of c zone] assms(8) unfolding assms(5-7) by blast

lemma Inr_of: "(case x of Inr _ \<Rightarrow> True | Inl _ \<Rightarrow> False) \<Longrightarrow> \<exists>y. x = Inr y"
  by (cases x) auto

theorem tick_delivers_witness:
  "\<exists>w'. run_state (tick plain_postgres (\<lambda>_. 0) example_cfg (new_relay example_cfg)) relay_world =
        ((None, new_relay example_cfg), w') \<and>
     length (w_topics w' (rc_topic example_cfg)) = 3 \<and> statuses (db_outbox (w_db w')) 1 = Some Sent"
proof -
  let ?rl = "new_relay example_cfg"
  define tab where "tab = snd (ResetStuck Success (ev_time (cur_event relay_world))
      (rc_processingTimeout example_cfg) (db_outbox (w_db relay_world)))"
  define ev where "ev = w_script relay_world (w_cursor relay_world + 2)"
  define cs where "cs = chosen plain_postgres (ev_time ev) (ev_locked ev) (batch_of (rc_batchSize example_cfg)) tab"
  have "\<not> stuck now d r" if "r \<in> set example_table" for now d r
    using that by (auto simp: stuck_def example_table_def example_row_def)
  then have tab: "tab = example_table"
    by (simp add: tab_def ResetStuck_def Let_def sql_update_none)
  have batch: "batch_of (rc_batchSize example_cfg) = 50" by code_simp
  have cs: "cs = [example_row 1 ''a'' 10, example_row 2 ''b'' 20, example_row 3 ''c'' 90]"
    unfolding cs_def batch tab by (simp add: chosen_def ev_def plain_postgres_def example_table_def example_row_def due_def)
  have "\<exists>t. marshal_time (\<lambda>_. 0) 10 = Inr t" "\<exists>t. marshal_time (\<lambda>_. 0) 20 = Inr t"
    "\<exists>t. marshal_time (\<lambda>_. 0) 90 = Inr t" "\<exists>p. marshal_raw (Some ''{}'') = Inr p"
    by (rule Inr_of, code_simp)+
  then have enc: "\<forall>r\<in>set cs. encodable (\<lambda>_. 0) (scan_Event r) \<and> ob_attempts r < int4_max"
    by (simp add: cs encodable_iff scan_Event_def example_row_def int4_max_def)
  have "healthy relay_world" "outbox_ok (db_outbox (w_db relay_world))"
    using example_table_ok by (simp_all add: healthy_def)
  then obtain w' ms where w': "run_state (tick plain_postgres (\<lambda>_. 0) example_cfg ?rl) relay_world = ((None, ?rl), w')"
      "w_topics w' = (w_topics relay_world)(rc_topic example_cfg := w_topics relay_world (rc_topic example_cfg) @ ms)"
      "mset ms = mset (map (the_message (\<lambda>_. 0) \<circ> scan_Event) cs)"
      "statuses (db_outbox (w_db w')) = (\<lambda>i. if i \<in> ob_id ` set cs then Some Sent else statuses tab i)"
    using tick_delivers [OF plain_postgres_ok _ new_relay_ok(2) _ tab_def ev_def cs_def enc] by blast
  have "length ms = 3" using arg_cong [OF w'(3), of size] by (simp add: cs)
  then show ?thesis using w' by (auto simp: cs example_row_def)
qed

text \<open>
  C20. What one pass over a claimed event does, with a database that answers, is decided by
  Kafka alone. An event that cannot be encoded is not written and counts as a failure. When
  \<open>Produce\<close> reports success the message is in the topic and the row is sent, at the time of
  that statement; when it reports an error, the row is dead if its attempts have reached the
  limit, and otherwise pending again with its next attempt exactly one backoff after the clock
  reading that follows the failure. The error is recorded in the row; one that the server does
  not accept as text leaves the row in processing.
\<close>

theorem publish_event_outcome:
  assumes "relay_ok topic rl" and "db_up w" and "run_state (publish_event pg zone n rl e) w = (rl', w')"
  shows "case message_of zone e of
      Inl err \<Rightarrow> after_failure pg n e (''marshal: '' @ Error err) w w'
    | Inr m \<Rightarrow> (\<exists>res p1 w1. run_state (Produce (rl_producer rl) (m_Key m) (m_Value m) (5 * Second)) w = ((res, p1), w1) \<and>
        db_outbox (w_db w1) = db_outbox (w_db w) \<and>
        (case res of
           None \<Rightarrow> m \<in> set (w_topics w' topic) \<and> db_outbox (w_db w') =
             sql_update (\<lambda>r. ob_id r = ID e) (sent_row (ev_time (cur_event w1))) (db_outbox (w_db w))
         | Some err \<Rightarrow> after_failure pg n e (''kafka: '' @ Error err) w1 w'))"
proof (cases "marshal_Envelope zone (envelope_of e)")
  case (Inl err)
  with assms(3) have "run_state (give_up_or_retry pg zone n rl e (envelope_of e) (''marshal: '' @ Error err)) w = (rl', w')"
    by (simp add: publish_event_def Let_def)
  from give_up_or_retry_after [OF assms(2) this] Inl show ?thesis by (simp add: message_of_def)
next
  case (Inr b)
  let ?p = "rl_producer rl" and ?m = "\<lparr>m_Key = AggregateID e, m_Value = b\<rparr>"
  obtain res p1 w1 where 1: "run_state (Produce ?p (AggregateID e) b (5 * Second)) w = ((res, p1), w1)"
    by (metis prod.exhaust)
  have p: "producer_ok ?p" "topic_of ?p = topic" using assms(1) by (simp_all add: relay_ok_def)
  obtain k c where w1: "w1 = wrote topic (replicate k ?m) c w" "res = None \<Longrightarrow> 1 \<le> k"
    using Produce_wrote [OF p(1) 1] p(2) by metis
  have db1: "db_up w1" using assms(2) by (simp add: db_up_def w1)
  have "case res of None \<Rightarrow> ?m \<in> set (w_topics w' topic) \<and> db_outbox (w_db w') =
             sql_update (\<lambda>r. ob_id r = ID e) (sent_row (ev_time (cur_event w1))) (db_outbox (w_db w))
         | Some err \<Rightarrow> after_failure pg n e (''kafka: '' @ Error err) w1 w'"
  proof (cases res)
    case None
    have "?m \<in> set (w_topics w1 topic)" using w1(2) [OF None] by (cases k) (simp_all add: w1(1) wrote_def)
    then show ?thesis using assms(3) 1 None w1(1) db1
      by (auto simp: publish_event_def Let_def Inr MarkSent_def count_published_def db_up_def)
  next
    case (Some err)
    have "run_state (give_up_or_retry pg zone n (rl\<lparr>rl_producer := p1\<rparr>) e (envelope_of e)
        (''kafka: '' @ Error err)) w1 = (rl', w')"
      using assms(3) 1 Some Inr by (simp add: publish_event_def Let_def)
    from give_up_or_retry_after [OF db1 this] Some show ?thesis by simp
  qed
  then show ?thesis using 1 w1(1) by (simp add: message_of_def Inr) blast
qed

text \<open>Kafka refuses: the row is to be retried half a second after the failure.\<close>

definition refusing_world :: world where
  "refusing_world = relay_world\<lparr>w_script := \<lambda>n. (w_script relay_world n)\<lparr>ev_kafka := Refused (errorString ''leader gone'')\<rparr>\<rparr>"

theorem publish_event_outcome_witness:
  "\<exists>rl' w'. run_state (publish_event plain_postgres (\<lambda>_. 0) 10 (new_relay example_cfg)
       (scan_Event (claim_row 50 (example_row 1 ''a'' 10)))) refusing_world = (rl', w') \<and>
     (\<exists>r\<in>set (db_outbox (w_db w')). ob_id r = 1 \<and> ob_status r = Pending \<and> ob_next_retry_at r = 500 * Millisecond \<and>
        ob_last_error r = Some ''kafka: leader gone'')"
proof -
  let ?e = "scan_Event (claim_row 50 (example_row 1 ''a'' 10))" and ?rl = "new_relay example_cfg"
  obtain rl' w' where run: "run_state (publish_event plain_postgres (\<lambda>_. 0) 10 ?rl ?e) refusing_world = (rl', w')"
    by (rule prod.exhaust)
  have "\<exists>t. marshal_time (\<lambda>_. 0) 10 = Inr t" "\<exists>p. marshal_raw (Some ''{}'') = Inr p" by (rule Inr_of, code_simp)+
  then have "encodable (\<lambda>_. 0) ?e" by (simp add: encodable_iff scan_Event_def example_row_def claim_row_def)
  then obtain m where m: "message_of (\<lambda>_. 0) ?e = Inr m" by (auto simp: encodable_def split: sum.splits)
  have "\<not> shouldReset (Some (errorString ''leader gone''))" by code_simp
  then have refused: "run_state (Produce (rl_producer ?rl) k v t) refusing_world =
      ((Some (errorString ''leader gone''), rl_producer ?rl), refusing_world\<lparr>w_cursor := 1\<rparr>)" for k v t
    by (simp add: Produce_def write_once_def new_relay_def NewProducer_def refusing_world_def relay_world_def fun_upd_idem Let_def)
  have "db_up refusing_world" by (simp add: db_up_def refusing_world_def)
  from publish_event_outcome [OF new_relay_ok(1) this run] m
  have "after_failure plain_postgres 10 ?e ''kafka: leader gone'' (refusing_world\<lparr>w_cursor := 1\<rparr>) w'"
    by (simp add: refused)
  then show ?thesis
    using run by (auto simp: after_failure_def plain_postgres_def sql_update_def refusing_world_def example_table_def
        example_row_def row_defs scan_Event_def relay_backoff_def)
qed

text \<open>
  C29. The counters account for every claimed event: whatever the outside does, handling a
  batch raises published, failed and dead together by the number of its events, type by type.
\<close>

theorem counters_conserve:
  assumes "run_state (publish_all pg zone n rl es) w = (rl', w')"
  shows "PublishedTotal (w_met w') et + FailedTotal (w_met w') et + DeadTotal (w_met w') et =
    PublishedTotal (w_met w) et + FailedTotal (w_met w) et + DeadTotal (w_met w) et +
    length (filter (\<lambda>e. EventType e = et) es)"
  using publish_all_handled [OF assms] by (simp add: handled_def)

theorem counters_conserve_witness:
  "\<exists>rl' w'. run_state (publish_all plain_postgres (\<lambda>_. 0) 10 (new_relay example_cfg)
       (map scan_Event example_table)) relay_world = (rl', w') \<and>
     PublishedTotal (w_met w') ''ticket.created'' + FailedTotal (w_met w') ''ticket.created'' +
       DeadTotal (w_met w') ''ticket.created'' = 3"
proof -
  obtain rl' w' where run: "run_state (publish_all plain_postgres (\<lambda>_. 0) 10 (new_relay example_cfg)
       (map scan_Event example_table)) relay_world = (rl', w')" by (rule prod.exhaust)
  from counters_conserve [OF run, of "''ticket.created''"] run show ?thesis
    by (simp add: relay_world_def NewMetrics_def example_table_def example_row_def scan_Event_def)
qed

end
