(* ===== verification/Notification_Service.thy ===== *)
theory Notification_Service
  imports Kafkax Events Backoff Env_Config
begin

text \<open>
  \<open>cmd/notification-service/main.go\<close>: configuration and start, the handling of one message
  (\<open>handleMessage\<close>), the loop that retries the same message in the process, and the loop
  that fetches messages. Programs run in the world of theory \<open>World\<close>; what the process
  keeps for itself (consumer, dead-letter producer, the state of the idle detection) is
  passed along.
\<close>

section \<open>Configuration\<close>

record notify_cfg =
  nc_dbURL :: string
  nc_brokers :: "string list"
  nc_topic :: string
  nc_groupID :: string
  nc_startOffset :: string
  nc_dlqTopic :: string
  nc_maxAttempts :: int
  nc_forceFail :: bool
  nc_forceFailEventType :: string
  nc_metricsAddr :: string

definition notify_config :: "environ \<Rightarrow> Config \<Rightarrow> notify_cfg" where
  "notify_config env cfg =
     \<lparr>nc_dbURL = env_String env ''DATABASE_URL'' (DatabaseURL cfg),
      nc_brokers = env_StringsCSV env ''KAFKA_BROKERS'' [''localhost:9092''],
      nc_topic = env_String env ''KAFKA_TOPIC'' ''tickets.events'',
      nc_groupID = env_String env ''KAFKA_GROUP_ID'' ''notification-service'',
      nc_startOffset = env_String env ''KAFKA_START_OFFSET'' ''last'',
      nc_dlqTopic = env_String env ''KAFKA_DLQ_TOPIC'' [],
      nc_maxAttempts = env_Int env ''NOTIFY_MAX_ATTEMPTS'' 10,
      nc_forceFail = env_Bool env ''NOTIFY_FORCE_FAIL'' False,
      nc_forceFailEventType = env_String env ''NOTIFY_FORCE_FAIL_EVENT_TYPE'' [],
      nc_metricsAddr = env_String env ''METRICS_ADDR'' '':9091''\<rparr>"

record service =
  sv_consumer :: Consumer
  sv_dlq :: "Producer option"
  sv_timeoutStreak :: int
  sv_lastReopenAt :: time

definition new_service :: "notify_cfg \<Rightarrow> service" where
  "new_service c =
     \<lparr>sv_consumer = NewConsumer \<lparr>cc_Brokers = nc_brokers c, cc_Topic = nc_topic c,
         cc_GroupID = nc_groupID c, cc_StartOffset = nc_startOffset c, cc_MinBytes = 0, cc_MaxBytes = 0\<rparr>,
      sv_dlq = (if nc_dlqTopic c \<noteq> [] then
         Some (NewProducer \<lparr>pc_Brokers = nc_brokers c, pc_Topic = nc_dlqTopic c,
           pc_ClientID = ''notification-service-dlq'', pc_WriteTimeout = 5 * Second\<rparr>) else None),
      sv_timeoutStreak = 0, sv_lastReopenAt = zero_time\<rparr>"

text \<open>The process exits without a database URL (2) or a reachable database (1).\<close>

definition notify_start :: "environ \<Rightarrow> Config \<Rightarrow> go_error option \<Rightarrow> int + notify_cfg \<times> service" where
  "notify_start env cfg openErr =
     (let c = notify_config env cfg in
      if nc_dbURL c = [] then Inl 2
      else case openErr of Some _ \<Rightarrow> Inl 1 | None \<Rightarrow> Inr (c, new_service c))"

section \<open>Errors and dead letters\<close>

definition wrap :: "string \<Rightarrow> go_error \<Rightarrow> go_error" where
  "wrap tag err = taggedErr tag err"

text \<open>\<open>errors.As\<close> with a \<open>taggedErr\<close>, the only error here that wraps another.\<close>

fun classify :: "go_error \<Rightarrow> string" where
  "classify (taggedErr tag _) = tag"
| "classify _ = ''unknown''"

definition extractEventID :: "string \<Rightarrow> string" where
  "extractEventID value = env_EventID (snd (unmarshal_Envelope value))"

text \<open>
  The dead letter; an error of \<open>json.Marshal\<close> is dropped and leaves no bytes. A nil value
  (\<open>None\<close>) is encoded as \<open>null\<close>.
\<close>

definition wrapDLQ :: "string option \<Rightarrow> go_error \<Rightarrow> string" where
  "wrapDLQ value err =
     (case marshal_raw value of
        Inl _ \<Rightarrow> []
      | Inr v \<Rightarrow> json_object [(''error'', quote (Error err)), (''value'', v)])"

text \<open>The value of a fetched message as a slice: kafka-go leaves it nil when there are no bytes.\<close>

definition value_slice :: "message \<Rightarrow> string option" where
  "value_slice m = (if m_Value m = [] then None else Some (m_Value m))"

section \<open>One message\<close>

definition processed_event :: "Envelope \<Rightarrow> ProcessedEvent" where
  "processed_event env =
     \<lparr>p_EventID = env_EventID env, p_EventType = env_EventType env, p_Aggregate = env_Aggregate env,
      p_AggregateID = env_AggregateID env, p_Payload = env_Payload env\<rparr>"

definition matchForceFail :: "bool \<Rightarrow> string \<Rightarrow> string \<Rightarrow> bool" where
  "matchForceFail forceFail forceFailEventType eventType =
     (if forceFail then
        let want = TrimSpace forceFailEventType; got = TrimSpace eventType
        in want = [] \<or> EqualFold want got
      else False)"

text \<open>The notification itself is the log line \<open>notify_event\<close>; \<open>w_notified\<close> records it.\<close>

definition notify_event :: "string \<Rightarrow> (world, unit) state" where
  "notify_event i = modify (\<lambda>w. w\<lparr>w_notified := w_notified w @ [i]\<rparr>)"

text \<open>
  The result is the error and the two values the Go function writes through its pointer
  arguments; on an early return they keep what they were. \<open>process_event\<close> is the part of
  \<open>handleMessage\<close> from the log line on.
\<close>

definition process_event ::
  "'r postgres \<Rightarrow> notify_cfg \<Rightarrow> Envelope \<Rightarrow> int \<Rightarrow> (world, go_error option \<times> string \<times> int) state" where
  "process_event pg c env attempts = do {
     notify_event (env_EventID env);
     if matchForceFail (nc_forceFail c) (nc_forceFailEventType c) (env_EventType env) then do {
       _ \<leftarrow> processed_call (\<lambda>ev. notify_MarkFailed pg (ev_db ev) (ev_time ev) (env_EventID env) ''forced failure'');
       return (Some (wrap ''forced'' (errorString ''forced failure'')), env_EventType env, attempts)
     } else do {
       r \<leftarrow> processed_call (\<lambda>ev. notify_MarkDone pg (ev_db ev) (ev_time ev) (env_EventID env));
       case r of
         Inl err \<Rightarrow> do {
           _ \<leftarrow> processed_call (\<lambda>ev. notify_MarkFailed pg (ev_db ev) (ev_time ev) (env_EventID env) (Error err));
           return (Some (wrap ''db_done'' err), env_EventType env, attempts)
         }
       | Inr _ \<Rightarrow> return (None, env_EventType env, attempts)
     }
   }"

definition handleMessage ::
  "'r postgres \<Rightarrow> notify_cfg \<Rightarrow> string \<Rightarrow> string \<times> int \<Rightarrow> (world, go_error option \<times> string \<times> int) state" where
  "handleMessage pg c value out =
     (case unmarshal_Envelope value of
        (Some err, _) \<Rightarrow> return (Some (wrap ''unmarshal'' err), out)
      | (None, env) \<Rightarrow> do {
          start \<leftarrow> processed_call (\<lambda>ev. StartProcessing pg (ev_db ev) (ev_time ev) (processed_event env));
          case start of
            Inl err \<Rightarrow> return (Some (wrap ''db_start'' err), env_EventType env, snd out)
          | Inr (shouldProcess, attempts, _) \<Rightarrow>
              if \<not> shouldProcess then return (None, env_EventType env, attempts)
              else process_event pg c env attempts
        })"

section \<open>The retry loop\<close>

definition count_processed :: "string \<Rightarrow> string \<Rightarrow> (world, unit) state" where
  "count_processed et st = modify (\<lambda>w. w\<lparr>w_nmet := (w_nmet w)\<lparr>nm_processed :=
     (nm_processed (w_nmet w))(et := (nm_processed (w_nmet w) et)(st := Suc (nm_processed (w_nmet w) et st)))\<rparr>\<rparr>)"

definition count_error :: "string \<Rightarrow> string \<Rightarrow> (world, unit) state" where
  "count_error et reason = modify (\<lambda>w. w\<lparr>w_nmet := (w_nmet w)\<lparr>nm_errors :=
     (nm_errors (w_nmet w))(et := (nm_errors (w_nmet w) et)(reason := Suc (nm_errors (w_nmet w) et reason)))\<rparr>\<rparr>)"

definition count_fetched :: "(world, unit) state" where
  "count_fetched = modify (\<lambda>w. w\<lparr>w_nmet := (w_nmet w)\<lparr>nm_fetched := Suc (nm_fetched (w_nmet w))\<rparr>\<rparr>)"

definition count_committed :: "(world, unit) state" where
  "count_committed = do {
     now \<leftarrow> time_Now;
     modify (\<lambda>w. w\<lparr>w_nmet := (w_nmet w)\<lparr>nm_committed := Suc (nm_committed (w_nmet w)), nm_last_processed := now\<rparr>\<rparr>)
   }"

text \<open>The three commits of the loop: only the one after a success reopens a broken reader.\<close>

definition commit_done :: "service \<Rightarrow> message \<Rightarrow> (world, service) state" where
  "commit_done sv m = do {
     r \<leftarrow> CommitMessages m;
     case r of
       Inl _ \<Rightarrow> do {
         now \<leftarrow> time_Now;
         return (sv\<lparr>sv_consumer := Reopen (sv_consumer sv), sv_lastReopenAt := now\<rparr>)
       }
     | Inr _ \<Rightarrow> do { _ \<leftarrow> count_committed; return sv }
   }"

definition commit_dead :: "message \<Rightarrow> (world, unit) state" where
  "commit_dead m = do {
     r \<leftarrow> CommitMessages m;
     case r of Inl _ \<Rightarrow> return () | Inr _ \<Rightarrow> count_committed
   }"

definition send_dlq :: "service \<Rightarrow> message \<Rightarrow> go_error \<Rightarrow> (world, service) state" where
  "send_dlq sv m err =
     (case sv_dlq sv of
        None \<Rightarrow> return sv
      | Some d \<Rightarrow> do {
          (_, d') \<leftarrow> Produce d (m_Key m) (wrapDLQ (value_slice m) err) (5 * Second);
          return (sv\<lparr>sv_dlq := Some d'\<rparr>)
        })"

text \<open>
  One round of the loop: the message is finished with (\<open>Break\<close>), the process stops, or
  another round follows with the values the handler wrote.
\<close>

datatype round = Break service | Stop | Again service "string \<times> int"

definition retry_round ::
  "'r postgres \<Rightarrow> notify_cfg \<Rightarrow> message \<Rightarrow> service \<Rightarrow> string \<times> int \<Rightarrow> (world, round) state" where
  "retry_round pg c m sv out = do {
     (err, evType, attempt) \<leftarrow> handleMessage pg c (m_Value m) out;
     case err of
       None \<Rightarrow> do {
         count_processed evType ''ok'';
         sv' \<leftarrow> commit_done sv m;
         return (Break sv')
       }
     | Some e \<Rightarrow> do {
         count_error evType (classify e);
         if classify e = ''unmarshal'' then do {
           sv' \<leftarrow> send_dlq sv m e;
           commit_dead m;
           count_processed evType ''dead'';
           return (Break sv')
         } else if 0 < nc_maxAttempts c \<and> nc_maxAttempts c \<le> attempt then do {
           sv' \<leftarrow> send_dlq sv m e;
           _ \<leftarrow> processed_call (\<lambda>ev. notify_MarkDead pg (ev_db ev) (ev_time ev) (extractEventID (m_Value m)) (Error e));
           commit_dead m;
           count_processed evType ''dead'';
           return (Break sv')
         } else do {
           ev \<leftarrow> next_event;
           return (if ev_done ev then Stop else Again sv (evType, attempt))
         }
       }
   }"

text \<open>
  The loop may run for ever, so it takes fuel, and \<open>None\<close> says that the fuel ran out. The
  service that comes back is \<open>None\<close> when the process stops.
\<close>

fun retry_loop ::
  "nat \<Rightarrow> 'r postgres \<Rightarrow> notify_cfg \<Rightarrow> message \<Rightarrow> service \<Rightarrow> string \<times> int \<Rightarrow> (world, service option option) state" where
  "retry_loop 0 pg c m sv out = return None"
| "retry_loop (Suc n) pg c m sv out = do {
     r \<leftarrow> retry_round pg c m sv out;
     case r of
       Break sv' \<Rightarrow> return (Some (Some sv'))
     | Stop \<Rightarrow> return (Some None)
     | Again sv' out' \<Rightarrow> retry_loop n pg c m sv' out'
   }"

section \<open>The fetch loop\<close>

text \<open>
  What happens at the head of the loop: the context has ended, or \<open>FetchMessage\<close> returned a
  message or an error (with the context ended or not by then).
\<close>

datatype poll = CtxDone | Fetched message | FetchFailed go_error bool

definition reopenAfterTimeouts :: int where
  "reopenAfterTimeouts = 12"

definition idle_round :: "service \<Rightarrow> (world, service) state" where
  "idle_round sv =
     (let streak = sv_timeoutStreak sv + 1 in
      if reopenAfterTimeouts \<le> streak then do {
        t \<leftarrow> time_Now;
        if 30 * Second < time_sub t (sv_lastReopenAt sv) then do {
          now \<leftarrow> time_Now;
          return (sv\<lparr>sv_consumer := Reopen (sv_consumer sv), sv_lastReopenAt := now, sv_timeoutStreak := 0\<rparr>)
        } else return (sv\<lparr>sv_timeoutStreak := 0\<rparr>)
      } else return (sv\<lparr>sv_timeoutStreak := streak\<rparr>))"

definition fetch_round ::
  "nat \<Rightarrow> 'r postgres \<Rightarrow> notify_cfg \<Rightarrow> service \<Rightarrow> poll \<Rightarrow> (world, service option option) state" where
  "fetch_round fuel pg c sv p =
     (case p of
        CtxDone \<Rightarrow> return (Some None)
      | FetchFailed err ctxErr \<Rightarrow>
          if errors_Is err DeadlineExceeded \<or> errors_Is err Canceled then do {
            sv' \<leftarrow> idle_round sv;
            return (Some (Some sv'))
          } else if ctxErr then return (Some (Some sv))
          else do {
            now \<leftarrow> time_Now;
            return (Some (Some (sv\<lparr>sv_consumer := Reopen (sv_consumer sv), sv_lastReopenAt := now,
              sv_timeoutStreak := 0\<rparr>)))
          }
      | Fetched m \<Rightarrow> do {
          count_fetched;
          retry_loop fuel pg c m (sv\<lparr>sv_timeoutStreak := 0\<rparr>) (''unknown'', 0)
        })"

fun fetch_loop ::
  "nat \<Rightarrow> 'r postgres \<Rightarrow> notify_cfg \<Rightarrow> service \<Rightarrow> poll list \<Rightarrow> (world, service option option) state" where
  "fetch_loop fuel pg c sv [] = return (Some (Some sv))"
| "fetch_loop fuel pg c sv (p # ps) = do {
     r \<leftarrow> fetch_round fuel pg c sv p;
     case r of
       Some (Some sv') \<Rightarrow> fetch_loop fuel pg c sv' ps
     | _ \<Rightarrow> return r
   }"

section \<open>Finished events stay finished\<close>

text \<open>
  The invariant: the row of event \<open>u\<close> is finished, and the notifications issued for it are
  those of the list \<open>told\<close>.
\<close>

definition told :: "'r postgres \<Rightarrow> string \<Rightarrow> world \<Rightarrow> string list" where
  "told pg u w = filter (\<lambda>i. uuid_in pg i = Some u) (w_notified w)"

definition at_rest :: "'r postgres \<Rightarrow> string \<Rightarrow> proc_status \<Rightarrow> int \<Rightarrow> string list \<Rightarrow> world \<Rightarrow> bool" where
  "at_rest pg u st n ns w \<longleftrightarrow> settled u st n (db_processed (w_db w)) \<and> told pg u w = ns"

lemma valid_at_rest_call:
  assumes "\<And>ev tab. settled u st n tab \<Longrightarrow> settled u st n (snd (f ev tab))"
  shows "keeps (at_rest pg u st n ns) (processed_call f)"
  by (rule valid_processed_call) (simp add: at_rest_def told_def assms)

lemma valid_at_rest_frame:
  assumes "\<And>w a w'. run_state m w = (a, w') \<Longrightarrow> db_processed (w_db w') = db_processed (w_db w) \<and> w_notified w' = w_notified w"
  shows "keeps (at_rest pg u st n ns) m"
  by (rule validI) (metis assms at_rest_def told_def)

lemma send_dlq_frame: "run_state (send_dlq sv m e) w = (sv', w') \<Longrightarrow> same_but_topics w w'"
  by (auto simp: send_dlq_def split: option.splits prod.splits dest: Produce_frame)

lemma commit_frames:
  "run_state (commit_dead m) w = (x, w') \<Longrightarrow> w_db w' = w_db w \<and> w_notified w' = w_notified w \<and> w_script w' = w_script w"
  "run_state (commit_done sv m) w = (sv', w') \<Longrightarrow> w_db w' = w_db w \<and> w_notified w' = w_notified w \<and> w_script w' = w_script w"
  by (auto simp: commit_dead_def commit_done_def count_committed_def Let_def split: sum.splits)

lemma valid_at_rest_misc:
  shows "keeps (at_rest pg u st n ns) (send_dlq sv m e)"
    and "keeps (at_rest pg u st n ns) (commit_dead m)"
    and "keeps (at_rest pg u st n ns) (commit_done sv m)"
    and "keeps (at_rest pg u st n ns) (count_processed et x)"
    and "keeps (at_rest pg u st n ns) (count_error et x)"
    and "keeps (at_rest pg u st n ns) count_fetched"
    and "keeps (at_rest pg u st n ns) next_event"
    and "keeps (at_rest pg u st n ns) time_Now"
  by (rule valid_at_rest_frame; auto simp: count_processed_def count_error_def count_fetched_def same_but_topics_def
      dest!: send_dlq_frame commit_frames)+

lemma valid_notify_at_rest:
  "uuid_in pg i \<noteq> Some u \<Longrightarrow> keeps (at_rest pg u st n ns) (notify_event i)"
  unfolding notify_event_def by (rule valid_modify) (simp add: at_rest_def told_def)

text \<open>What \<open>StartProcessing\<close> answers for a finished event: an error, or not to process it.\<close>

lemma valid_start_at_rest:
  "valid (at_rest pg u st n ns)
     (processed_call (\<lambda>ev. StartProcessing pg (ev_db ev) (ev_time ev) e))
     (\<lambda>res w. at_rest pg u st n ns w \<and>
        (\<forall>go k s. res = Inr (go, k, s) \<longrightarrow> uuid_in pg (p_EventID e) = Some u \<longrightarrow> \<not> go))"
  by (rule valid_processed_call)
     (auto simp: at_rest_def told_def StartProcessing_settled dest: StartProcessing_skips)

lemma valid_process_at_rest:
  assumes other: "uuid_in pg (env_EventID env) \<noteq> Some u"
  shows "keeps (at_rest pg u st n ns) (process_event pg c env k)"
proof -
  let ?I = "at_rest pg u st n ns" and ?i = "env_EventID env"
  have marks: "keeps ?I (processed_call (\<lambda>ev. notify_MarkDone pg (ev_db ev) (ev_time ev) ?i))"
    "keeps ?I (processed_call (\<lambda>ev. notify_MarkFailed pg (ev_db ev) (ev_time ev) ?i msg))" for msg
    by (rule valid_at_rest_call, rule marks_settled, assumption, rule other)+
  show ?thesis
    unfolding process_event_def
    by (intro valid_bind [OF valid_notify_at_rest [OF other]] valid_if valid_bind [OF marks(2)]
        valid_bind [OF marks(1)] valid_case_sum valid_return)
qed

lemma valid_handleMessage_at_rest:
  "valid (at_rest pg u st n ns) (handleMessage pg c value out)
     (\<lambda>res w. at_rest pg u st n ns w \<and>
        (uuid_in pg (extractEventID value) = Some u \<longrightarrow> fst res \<noteq> None \<longrightarrow> snd (snd res) = snd out))"
proof (cases "unmarshal_Envelope value")
  case (Pair err env)
  show ?thesis
  proof (cases err)
    case (Some e)
    then show ?thesis by (simp add: handleMessage_def Pair valid_return)
  next
    case None
    have eid: "extractEventID value = env_EventID env" by (simp add: extractEventID_def Pair None)
    show ?thesis
      unfolding handleMessage_def Pair None prod.case option.case eid
    proof (rule valid_bind [OF valid_start_at_rest], rule valid_assume)
      fix start :: "go_error + bool \<times> int \<times> proc_status"
      let ?Q = "\<lambda>res w. at_rest pg u st n ns w \<and>
         (uuid_in pg (env_EventID env) = Some u \<longrightarrow> fst res \<noteq> None \<longrightarrow> snd (snd res) = snd out)"
      assume skip: "\<forall>go k s. start = Inr (go, k, s) \<longrightarrow>
         uuid_in pg (p_EventID (processed_event env)) = Some u \<longrightarrow> \<not> go"
      have "valid (at_rest pg u st n ns) (process_event pg c env k) ?Q" if "start = Inr (True, k, s)" for k s
        using skip that
        by (intro valid_weaken [OF valid_process_at_rest]) (auto simp: processed_event_def)
      then show "valid (at_rest pg u st n ns)
         (case start of Inl err \<Rightarrow> return (Some (wrap ''db_start'' err), env_EventType env, snd out)
          | Inr (shouldProcess, attempts, _) \<Rightarrow>
              if \<not> shouldProcess then return (None, env_EventType env, attempts)
              else process_event pg c env attempts) ?Q"
        by (auto simp: valid_return split: sum.split prod.split)
    qed
  qed
qed

lemma valid_retry_round_at_rest:
  assumes out: "uuid_in pg (extractEventID (m_Value m)) = Some u \<longrightarrow> snd out = 0"
  shows "valid (at_rest pg u st n ns) (retry_round pg c m sv out)
     (\<lambda>r w. at_rest pg u st n ns w \<and>
        (\<forall>sv' out'. r = Again sv' out' \<longrightarrow> uuid_in pg (extractEventID (m_Value m)) = Some u \<longrightarrow> snd out' = 0))"
proof -
  let ?I = "at_rest pg u st n ns" and ?i = "extractEventID (m_Value m)"
  have dead: "keeps ?I (processed_call (\<lambda>ev. notify_MarkDead pg (ev_db ev) (ev_time ev) ?i msg))"
    if "uuid_in pg ?i \<noteq> Some u" for msg
    by (rule valid_at_rest_call, rule marks_settled, assumption, rule that)
  note misc = valid_at_rest_misc [of pg u st n ns]
  show ?thesis
    unfolding retry_round_def
    apply (rule valid_bind [OF valid_handleMessage_at_rest])
    apply (intro valid_case_prod valid_case_option)
     apply (rule valid_assume)
     apply (rule valid_bind [OF misc(4)], rule valid_bind [OF misc(3)], simp add: valid_return)
    apply (rule valid_assume)
    apply (rule valid_bind [OF misc(5)])
    apply (intro valid_if)
      apply (rule valid_bind [OF misc(1)], rule valid_bind [OF misc(2)], rule valid_bind [OF misc(4)], simp add: valid_return)
     apply (rule valid_bind [OF misc(1)], rule valid_bind [OF dead])
      apply (use out in force)
     apply (rule valid_bind [OF misc(2)], rule valid_bind [OF misc(4)], simp add: valid_return)
    apply (rule valid_bind [OF misc(7)])
    apply (use out in \<open>force simp: valid_return\<close>)
    done
qed

lemma valid_retry_loop_at_rest:
  "(uuid_in pg (extractEventID (m_Value m)) = Some u \<longrightarrow> snd out = 0) \<Longrightarrow>
   keeps (at_rest pg u st n ns) (retry_loop fuel pg c m sv out)"
proof (induction fuel arbitrary: sv out)
  case (Suc fuel)
  have "keeps (at_rest pg u st n ns) (case r of Break sv' \<Rightarrow> return (Some (Some sv')) | Stop \<Rightarrow> return (Some None)
      | Again sv' out' \<Rightarrow> retry_loop fuel pg c m sv' out')"
    if "\<forall>sv' out'. r = Again sv' out' \<longrightarrow> uuid_in pg (extractEventID (m_Value m)) = Some u \<longrightarrow> snd out' = 0"
    for r
  proof (cases r)
    case (Again sv' out')
    with that show ?thesis by (simp only: round.case) (rule Suc.IH, blast)
  qed (simp_all add: valid_return)
  then show ?case unfolding retry_loop.simps
    by (intro valid_bind [OF valid_retry_round_at_rest [OF Suc.prems]] valid_assume)
qed (simp add: valid_return)

lemma valid_fetch_round_at_rest: "keeps (at_rest pg u st n ns) (fetch_round fuel pg c sv p)"
proof (cases p)
  case (Fetched m)
  show ?thesis unfolding fetch_round_def Fetched poll.case
    by (rule valid_bind [OF valid_at_rest_misc(6)], rule valid_retry_loop_at_rest) simp
next
  case (FetchFailed err b)
  have idle: "keeps (at_rest pg u st n ns) (idle_round sv)"
    by (rule valid_at_rest_frame) (auto simp: idle_round_def Let_def split: if_splits)
  show ?thesis unfolding fetch_round_def FetchFailed poll.case
    by (intro valid_if valid_bind [OF idle] valid_bind [OF valid_at_rest_misc(8)] valid_return)
qed (simp add: fetch_round_def valid_return)

lemma valid_fetch_loop_at_rest: "keeps (at_rest pg u st n ns) (fetch_loop fuel pg c sv ps)"
proof (induction ps arbitrary: sv)
  case (Cons p ps)
  show ?case unfolding fetch_loop.simps
    by (intro valid_bind [OF valid_fetch_round_at_rest] valid_case_option valid_return Cons.IH)
qed (simp add: valid_return)

lemma commit_adds:
  "run_state (commit_dead m) w = (x, w') \<Longrightarrow> w_commits w' = w_commits w \<or> w_commits w' = w_commits w @ [m]"
  "run_state (commit_done sv m) w = (sv', w') \<Longrightarrow> w_commits w' = w_commits w \<or> w_commits w' = w_commits w @ [m]"
  by (cases "ev_kafka (cur_event w)"; auto simp: commit_dead_def commit_done_def count_committed_def Let_def)+

lemma handleMessage_commits: "run_state (handleMessage pg c value out) w = (r, w') \<Longrightarrow> w_commits w' = w_commits w"
  by (auto simp: handleMessage_def process_event_def notify_event_def split: prod.splits option.splits sum.splits if_splits)

text \<open>
  Nothing is committed too early: under any failures, a round of the retry loop commits
  the message only when it ends the loop, and it ends the loop only after the handler
  succeeded, or failed to decode the message, or used up the attempts.
\<close>

lemma retry_round_commits:
  assumes "run_state (handleMessage pg c (m_Value m) out) w = ((err, et, k), w1)"
    and "run_state (retry_round pg c m sv out) w = (r, w')"
  shows "w_commits w' = w_commits w \<or>
    w_commits w' = w_commits w @ [m] \<and> (\<exists>sv'. r = Break sv') \<and>
      (err = None \<or> (\<exists>e. err = Some e \<and> (classify e = ''unmarshal'' \<or> 0 < nc_maxAttempts c \<and> nc_maxAttempts c \<le> k)))"
  using assms(2) handleMessage_commits [OF assms(1)]
  by (auto simp: retry_round_def assms(1) count_processed_def count_error_def same_but_topics_def
      split: option.splits if_splits prod.splits dest!: send_dlq_frame commit_adds)

section \<open>With a database that answers\<close>

text \<open>An envelope every parameter of which Postgres accepts, and the event it stands for.\<close>

definition acceptable :: "'r postgres \<Rightarrow> Envelope \<Rightarrow> string \<Rightarrow> bool" where
  "acceptable pg env u \<longleftrightarrow>
     uuid_in pg (env_EventID env) = Some u \<and> text_ok pg (env_EventType env) \<and>
     text_ok pg (env_Aggregate env) \<and> text_ok pg (env_AggregateID env) \<and>
     (\<exists>raw p. env_Payload env = Some raw \<and> jsonb_in pg raw = Some p)"

definition attempts_of :: "string \<Rightarrow> processed_row list \<Rightarrow> int" where
  "attempts_of u tab = (case row_of u tab of None \<Rightarrow> 0 | Some r \<Rightarrow> pe_attempts r)"

definition finished_in :: "string \<Rightarrow> processed_row list \<Rightarrow> bool" where
  "finished_in u tab \<longleftrightarrow> (case row_of u tab of None \<Rightarrow> False | Some r \<Rightarrow> finished (pe_status r))"

abbreviation ptab :: "world \<Rightarrow> processed_row list" where
  "ptab w \<equiv> db_processed (w_db w)"

lemma StartProcessing_up:
  assumes "acceptable pg env u" and "finished_in u tab \<or> attempts_of u tab < int4_max"
  obtains (finished) k st tab' where "finished_in u tab" "finished_in u tab'"
      "StartProcessing pg Success now (processed_event env) tab = (Inr (False, k, st), tab')"
    | (started) tab' where "\<not> finished_in u tab" "\<not> finished_in u tab'" "row_of u tab' \<noteq> None"
      "attempts_of u tab' = attempts_of u tab + 1"
      "StartProcessing pg Success now (processed_event env) tab = (Inr (True, attempts_of u tab + 1, PProcessing), tab')"
proof -
  obtain raw p where acc: "uuid_in pg (env_EventID env) = Some u" "env_Payload env = Some raw" "jsonb_in pg raw = Some p"
    "text_ok pg (env_EventType env)" "text_ok pg (env_Aggregate env)" "text_ok pg (env_AggregateID env)"
    using assms(1) by (auto simp: acceptable_def)
  show thesis
  proof (cases "row_of u tab")
    case None
    then show thesis using acc started [of "tab @ [fresh_row now u p (processed_event env)]"]
      by (auto simp: StartProcessing_def upsert_def processed_event_def row_of_def find_key_append
          finished_in_def attempts_of_def row_defs finished_def)
  next
    case (Some r)
    let ?t = "sql_update (\<lambda>r. pe_event_id r = u) (restart_row now) tab"
    have row: "row_of u ?t = Some (restart_row now r)" by (simp add: row_of_update Some)
    show thesis
    proof (cases "finished (pe_status r)")
      case True
      with acc Some row finished [of ?t] show thesis
        by (auto simp: StartProcessing_def upsert_def processed_event_def row_of_def finished_in_def
            row_defs finished_def)
    next
      case False
      with assms(2) acc Some row started [of ?t] show thesis
        by (auto simp: StartProcessing_def upsert_def processed_event_def row_of_def finished_in_def
            attempts_of_def row_defs finished_def)
    qed
  qed
qed

text \<open>Printable ASCII text is accepted by a text column.\<close>

definition ascii_text_ok :: "'r postgres \<Rightarrow> bool" where
  "ascii_text_ok pg \<longleftrightarrow> (\<forall>s. (\<forall>b\<in>set s. 32 \<le> byte b \<and> byte b < 127) \<longrightarrow> text_ok pg s)"

abbreviation forced_error :: go_error where
  "forced_error \<equiv> wrap ''forced'' (errorString ''forced failure'')"

lemma forced_texts:
  assumes "ascii_text_ok pg"
  shows "text_ok pg ''forced failure''" and "text_ok pg (Error forced_error)"
proof -
  have *: "list_all (\<lambda>b. 32 \<le> byte b \<and> byte b < 127) s \<Longrightarrow> text_ok pg s" for s
    using assms by (simp add: ascii_text_ok_def list_all_iff)
  show "text_ok pg ''forced failure''" by (rule *) code_simp
  show "text_ok pg (Error forced_error)" unfolding wrap_def Error.simps by (rule *) code_simp
qed

lemma handleMessage_up:
  assumes dec: "unmarshal_Envelope value = (None, env)" and acc: "acceptable pg env u"
    and up: "db_up w" and room: "finished_in u (ptab w) \<or> attempts_of u (ptab w) < int4_max"
    and asc: "ascii_text_ok pg"
  obtains (skip) k w' where "finished_in u (ptab w)" "finished_in u (ptab w')" "db_up w'" "w_notified w' = w_notified w"
      "run_state (handleMessage pg c value out) w = ((None, env_EventType env, k), w')"
    | (ok) k w' where "\<not> finished_in u (ptab w)" "finished_in u (ptab w')" "db_up w'"
      "\<not> matchForceFail (nc_forceFail c) (nc_forceFailEventType c) (env_EventType env)"
      "w_notified w' = w_notified w @ [env_EventID env]"
      "run_state (handleMessage pg c value out) w = ((None, env_EventType env, k), w')"
    | (forced) w' where "\<not> finished_in u (ptab w)" "\<not> finished_in u (ptab w')" "db_up w'" "row_of u (ptab w') \<noteq> None"
      "matchForceFail (nc_forceFail c) (nc_forceFailEventType c) (env_EventType env)"
      "attempts_of u (ptab w') = attempts_of u (ptab w) + 1"
      "run_state (handleMessage pg c value out) w =
         ((Some forced_error, env_EventType env, attempts_of u (ptab w) + 1), w')"
proof -
  define H where "H = run_state (handleMessage pg c value out) w"
  let ?now = "ev_time (cur_event w)" and ?now' = "ev_time (w_script w (Suc (w_cursor w)))"
  have ev: "ev_db (w_script w n) = Success" for n using up by (simp add: db_up_def)
  have uuid: "uuid_in pg (env_EventID env) = Some u" using acc by (simp add: acceptable_def)
  from acc room show thesis
  proof (cases rule: StartProcessing_up [where now = ?now])
    case (finished k st tab')
    then show thesis
      by (intro skip [of "w\<lparr>w_cursor := Suc (w_cursor w), w_db := (w_db w)\<lparr>db_processed := tab'\<rparr>\<rparr>" k])
         (use up in \<open>simp_all add: handleMessage_def dec ev db_up_def\<close>)
  next
    case (started tab')
    have run: "H = run_state (process_event pg c env (attempts_of u (ptab w) + 1))
        (w\<lparr>w_cursor := Suc (w_cursor w), w_db := (w_db w)\<lparr>db_processed := tab'\<rparr>\<rparr>)"
      unfolding H_def using started by (simp add: handleMessage_def dec ev)
    show thesis
    proof (cases "matchForceFail (nc_forceFail c) (nc_forceFailEventType c) (env_EventType env)")
      case True
      define w' where "w' = snd H"
      have "H = ((Some forced_error, env_EventType env, attempts_of u (ptab w) + 1), w')"
        "ptab w' = sql_update (\<lambda>r. pe_event_id r = u) (retry_row ?now' ''forced failure'') tab'"
        "w_script w' = w_script w"
        using True forced_texts(1) [OF asc]
        by (simp_all add: w'_def run process_event_def notify_event_def notify_MarkFailed_def by_event_id_def uuid ev)
      with started True up show thesis
        by (intro forced [of w'])
           (auto simp: H_def row_of_update finished_in_def attempts_of_def retry_row_def finished_def db_up_def
              split: option.splits)
    next
      case False
      define w' where "w' = snd H"
      have "H = ((None, env_EventType env, attempts_of u (ptab w) + 1), w')"
        "ptab w' = sql_update (\<lambda>r. pe_event_id r = u) (done_row ?now') tab'" "w_script w' = w_script w"
        "w_notified w' = w_notified w @ [env_EventID env]"
        using False
        by (simp_all add: w'_def run process_event_def notify_event_def notify_MarkDone_def by_event_id_def uuid ev)
      with started False up show thesis
        by (intro ok [of w'])
           (auto simp: H_def row_of_update finished_in_def done_row_def finished_def db_up_def split: option.splits)
    qed
  qed
qed

lemma db_up_cong: "w_script w' = w_script w \<Longrightarrow> db_up w' = db_up w"
  by (simp add: db_up_def)

lemma same_but_topics_ptab: "same_but_topics w w' \<Longrightarrow> ptab w' = ptab w \<and> w_script w' = w_script w"
  by (simp add: same_but_topics_def)

text \<open>After a successful \<open>MarkDead\<close> the event is finished.\<close>

lemma bury_finishes:
  assumes "row_of u tab \<noteq> None" and "uuid_in pg i = Some u" and "text_ok pg msg"
  shows "finished_in u (snd (notify_MarkDead pg Success now i msg tab))"
  using assms by (auto simp: notify_MarkDead_def by_event_id_def finished_in_def row_of_update buried_row_def finished_def)

lemma retry_round_up:
  assumes dec: "unmarshal_Envelope (m_Value m) = (None, env)" and acc: "acceptable pg env u"
    and up: "db_up w" and room: "finished_in u (ptab w) \<or> attempts_of u (ptab w) < int4_max"
    and asc: "ascii_text_ok pg" and limit: "0 < nc_maxAttempts c"
  obtains (break) sv' w' where "run_state (retry_round pg c m sv out) w = (Break sv', w')"
      "finished_in u (ptab w')" "db_up w'"
    | (stop) w' where "run_state (retry_round pg c m sv out) w = (Stop, w')"
    | (again) out' w' where "run_state (retry_round pg c m sv out) w = (Again sv out', w')" "db_up w'"
      "attempts_of u (ptab w') = attempts_of u (ptab w) + 1" "attempts_of u (ptab w) + 1 < nc_maxAttempts c"
proof -
  have eid: "uuid_in pg (extractEventID (m_Value m)) = Some u"
    using acc by (simp add: extractEventID_def dec acceptable_def)
  have ended: thesis
    if "run_state (handleMessage pg c (m_Value m) out) w = ((None, et, k), w1)" "finished_in u (ptab w1)" "db_up w1"
    for et k w1
  proof -
    obtain sv' w2 where c: "run_state (commit_done sv m) (snd (run_state (count_processed et ''ok'') w1)) = (sv', w2)"
      by (rule prod.exhaust)
    then have "w_db w2 = w_db w1" "w_script w2 = w_script w1"
      using commit_frames(2) [OF c] by (simp_all add: count_processed_def)
    with that c show thesis
      by (intro break [of sv' w2]) (simp_all add: retry_round_def count_processed_def db_up_def)
  qed
  from dec acc up room asc show thesis
  proof (cases rule: handleMessage_up [where c = c and out = out])
    case (forced w1)
    let ?k = "attempts_of u (ptab w) + 1" and ?et = "env_EventType env"
    define w2 where "w2 = snd (run_state (count_error ?et ''forced'') w1)"
    have w2: "ptab w2 = ptab w1" "w_script w2 = w_script w1" "run_state (count_error ?et ''forced'') w1 = ((), w2)"
      by (simp_all add: w2_def count_error_def)
    show thesis
    proof (cases "nc_maxAttempts c \<le> ?k")
      case True
      obtain sv' w3 where dlq: "run_state (send_dlq sv m forced_error) w2 = (sv', w3)" by (rule prod.exhaust)
      obtain r w4 where dead: "run_state (processed_call (\<lambda>ev. notify_MarkDead pg (ev_db ev) (ev_time ev)
          (extractEventID (m_Value m)) (Error forced_error))) w3 = (r, w4)" by (rule prod.exhaust)
      obtain w5 where com: "run_state (commit_dead m) w4 = ((), w5)" by (metis (full_types) old.unit.exhaust prod.exhaust)
      note w3 = same_but_topics_ptab [OF send_dlq_frame [OF dlq]]
      have w5: "w_db w5 = w_db w4" "w_script w5 = w_script w4" using commit_frames(1) [OF com] by simp_all
      have up3: "db_up w3" using forced(3) w2 w3 by (simp add: db_up_def)
      have "ptab w4 = snd (notify_MarkDead pg Success (ev_time (cur_event w3)) (extractEventID (m_Value m))
          (Error forced_error) (ptab w3))" "w_script w4 = w_script w3"
        using dead up3 by (auto simp: db_up_def)
      moreover have "row_of u (ptab w3) \<noteq> None" using forced(4) w2 w3 by simp
      ultimately have fin: "finished_in u (ptab w4)"
        using bury_finishes [OF _ eid forced_texts(2) [OF asc]] by simp
      show thesis
        using forced(7) True limit fin dlq dead com w2 w5 up3 \<open>w_script w4 = w_script w3\<close>
        by (intro break [of sv' "snd (run_state (count_processed ?et ''dead'') w5)"])
           (simp_all add: retry_round_def wrap_def count_processed_def db_up_def)
    next
      case False
      define w3 where "w3 = snd (run_state next_event w2)"
      have "db_up w3" "ptab w3 = ptab w1" using forced(3) w2 by (simp_all add: w3_def db_up_def)
      moreover have "run_state (retry_round pg c m sv out) w =
          (if ev_done (cur_event w2) then Stop else Again sv (?et, ?k), w3)"
        using forced(7) False w2 by (simp add: retry_round_def wrap_def w3_def)
      ultimately show thesis using stop again forced(6) False by (auto split: if_splits)
    qed
  qed (use ended in blast)+
qed

text \<open>The loop ends: its fuel need be no more than the attempts that are left, and at least one.\<close>

lemma retry_loop_up:
  assumes "unmarshal_Envelope (m_Value m) = (None, env)" and "acceptable pg env u" and "ascii_text_ok pg"
    and limit: "0 < nc_maxAttempts c" "nc_maxAttempts c \<le> int4_max"
  shows "db_up w \<Longrightarrow> finished_in u (ptab w) \<or> attempts_of u (ptab w) < int4_max \<Longrightarrow>
    0 < fuel \<Longrightarrow> nc_maxAttempts c - attempts_of u (ptab w) \<le> int fuel \<Longrightarrow>
    \<exists>res w'. run_state (retry_loop fuel pg c m sv out) w = (Some res, w') \<and>
      (res \<noteq> None \<longrightarrow> finished_in u (ptab w') \<and> db_up w')"
proof (induction fuel arbitrary: sv out w)
  case (Suc fuel)
  from assms(1,2) Suc.prems(1,2) assms(3) limit(1) show ?case
  proof (cases rule: retry_round_up [where sv = sv and out = out])
    case (again out' w')
    have "0 < fuel" "nc_maxAttempts c - attempts_of u (ptab w') \<le> int fuel" "attempts_of u (ptab w') < int4_max"
      using again Suc.prems(4) limit(2) by (auto simp: not_less)
    then show ?thesis using Suc.IH [OF again(2), of sv out'] again(1) by simp
  qed auto
qed simp

text \<open>A message whose event id Postgres does not take as a UUID never gets past \<open>StartProcessing\<close>.\<close>

lemma poison_round:
  assumes "unmarshal_Envelope (m_Value m) = (None, env)" and "uuid_in pg (env_EventID env) = None"
    and "\<And>k. \<not> ev_done (w_script w k)" and "nc_maxAttempts c \<le> 0 \<or> snd out < nc_maxAttempts c"
  shows "\<exists>et w'. run_state (retry_round pg c m sv out) w = (Again sv (et, snd out), w') \<and> w_script w' = w_script w"
proof -
  obtain e tab' where s: "StartProcessing pg (ev_db (cur_event w)) (ev_time (cur_event w)) (processed_event env) (ptab w)
      = (Inl e, tab')"
    using assms(2)
    by (cases "ev_db (cur_event w)") (auto simp: StartProcessing_def upsert_def processed_event_def)
  show ?thesis
    using assms(1,3,4) s by (auto simp: retry_round_def handleMessage_def wrap_def count_error_def)
qed

lemma process_event_other:
  assumes "uuid_in pg (env_EventID env) \<noteq> Some v"
  shows "row_of v (ptab (snd (run_state (process_event pg c env k) w))) = row_of v (ptab w)"
  by (auto simp: process_event_def notify_event_def marks_other [OF assms] split: sum.split)

lemma handleMessage_other:
  assumes "uuid_in pg (extractEventID value) \<noteq> Some v"
  shows "row_of v (ptab (snd (run_state (handleMessage pg c value out) w))) = row_of v (ptab w)"
proof (cases "unmarshal_Envelope value")
  case (Pair err env)
  show ?thesis
  proof (cases err)
    case None
    with assms Pair have other: "uuid_in pg (env_EventID env) \<noteq> Some v" by (simp add: extractEventID_def)
    then have "uuid_in pg (p_EventID (processed_event env)) \<noteq> Some v" by (simp add: processed_event_def)
    note start = StartProcessing_other [OF this]
    show ?thesis
      by (auto simp: handleMessage_def Pair None start process_event_other [OF other] split: sum.split prod.split)
  qed (simp add: handleMessage_def Pair)
qed

text \<open>One message with no forced failure, when the database answers: handled in one round.\<close>

lemma retry_loop_once:
  assumes dec: "unmarshal_Envelope (m_Value m) = (None, env)" and acc: "acceptable pg env u"
    and up: "db_up w" and room: "finished_in u (ptab w) \<or> attempts_of u (ptab w) < int4_max"
    and asc: "ascii_text_ok pg" and free: "\<not> nc_forceFail c"
  obtains sv' w' where "run_state (retry_loop (Suc n) pg c m sv out) w = (Some (Some sv'), w')"
    "db_up w'" "finished_in u (ptab w')" "\<And>v. v \<noteq> u \<Longrightarrow> row_of v (ptab w') = row_of v (ptab w)"
    "w_notified w' = w_notified w @ (if finished_in u (ptab w) then [] else [env_EventID env])"
proof -
  note result = that
  have eid: "uuid_in pg (extractEventID (m_Value m)) = Some u"
    using acc by (simp add: extractEventID_def dec acceptable_def)
  have other: "row_of v (ptab w1) = row_of v (ptab w)"
    if "v \<noteq> u" "run_state (handleMessage pg c (m_Value m) out) w = (res, w1)" for v res w1
    using handleMessage_other [of pg "m_Value m" v c out w] that eid by simp
  have ended: thesis
    if "run_state (handleMessage pg c (m_Value m) out) w = ((None, et, k), w1)" "finished_in u (ptab w1)" "db_up w1"
      "w_notified w1 = w_notified w @ (if finished_in u (ptab w) then [] else [env_EventID env])" for et k w1
  proof -
    obtain sv' w2 where c: "run_state (commit_done sv m) (snd (run_state (count_processed et ''ok'') w1)) = (sv', w2)"
      by (rule prod.exhaust)
    then have "w_db w2 = w_db w1" "w_script w2 = w_script w1" "w_notified w2 = w_notified w1"
      using commit_frames(2) [OF c] by (simp_all add: count_processed_def)
    with that c other [OF _ that(1)] show thesis
      by (intro result [of sv' w2]) (simp_all add: retry_round_def count_processed_def db_up_def)
  qed
  from dec acc up room asc show thesis
  proof (cases rule: handleMessage_up [where c = c and out = out])
    case (forced w')
    then show thesis using free by (simp add: matchForceFail_def)
  qed (use ended in force)+
qed

text \<open>Messages the service can handle, and the event each is about.\<close>

definition good_message :: "'r postgres \<Rightarrow> message \<Rightarrow> bool" where
  "good_message pg m \<longleftrightarrow> (\<exists>env u. unmarshal_Envelope (m_Value m) = (None, env) \<and> acceptable pg env u)"

definition event_of :: "'r postgres \<Rightarrow> message \<Rightarrow> string option" where
  "event_of pg m = uuid_in pg (extractEventID (m_Value m))"

definition has_room :: "processed_row list \<Rightarrow> bool" where
  "has_room tab \<longleftrightarrow> (\<forall>u. finished_in u tab \<or> attempts_of u tab < int4_max)"

text \<open>One fetched message: what it does to every event \<open>v\<close>.\<close>

lemma fetch_message_up:
  assumes "good_message pg m" and up: "db_up w" and room: "has_room (ptab w)" and asc: "ascii_text_ok pg"
    and free: "\<not> nc_forceFail c"
  obtains sv' w' where "run_state (fetch_round (Suc n) pg c sv (Fetched m)) w = (Some (Some sv'), w')"
    "db_up w'" "has_room (ptab w')"
    "\<And>v. finished_in v (ptab w') \<longleftrightarrow> finished_in v (ptab w) \<or> event_of pg m = Some v"
    "\<And>v. length (told pg v w') = length (told pg v w) +
       (if event_of pg m = Some v \<and> \<not> finished_in v (ptab w) then 1 else 0)"
proof -
  from assms(1) obtain env u where dec: "unmarshal_Envelope (m_Value m) = (None, env)" and acc: "acceptable pg env u"
    by (auto simp: good_message_def)
  have u: "event_of pg m = Some u" "uuid_in pg (env_EventID env) = Some u"
    using acc by (simp_all add: event_of_def extractEventID_def dec acceptable_def)
  define w1 where "w1 = snd (run_state count_fetched w)"
  have w1: "run_state count_fetched w = ((), w1)" "ptab w1 = ptab w" "db_up w1" "w_notified w1 = w_notified w"
    using up by (simp_all add: w1_def count_fetched_def db_up_def)
  have "finished_in u (ptab w1) \<or> attempts_of u (ptab w1) < int4_max" using room by (simp add: has_room_def w1)
  then obtain sv' w' where r: "run_state (retry_loop (Suc n) pg c m (sv\<lparr>sv_timeoutStreak := 0\<rparr>) (''unknown'', 0)) w1
      = (Some (Some sv'), w')" "db_up w'" "finished_in u (ptab w')"
      "\<And>v. v \<noteq> u \<Longrightarrow> row_of v (ptab w') = row_of v (ptab w)"
      "w_notified w' = w_notified w @ (if finished_in u (ptab w) then [] else [env_EventID env])"
    using retry_loop_once [OF dec acc w1(3) _ asc free] w1 by metis
  show thesis
  proof (rule that [of sv' w'])
    show "run_state (fetch_round (Suc n) pg c sv (Fetched m)) w = (Some (Some sv'), w')"
      using r(1) w1(1) by (simp add: fetch_round_def)
    show fin: "finished_in v (ptab w') \<longleftrightarrow> finished_in v (ptab w) \<or> event_of pg m = Some v" for v
      using r(3,4) u(1) by (cases "v = u") (auto simp: finished_in_def)
    show "has_room (ptab w')" unfolding has_room_def
    proof
      fix v
      show "finished_in v (ptab w') \<or> attempts_of v (ptab w') < int4_max"
        using fin [of v] r(4) [of v] room u(1) by (cases "v = u") (auto simp: has_room_def attempts_of_def)
    qed
    show "length (told pg v w') = length (told pg v w) +
       (if event_of pg m = Some v \<and> \<not> finished_in v (ptab w) then 1 else 0)" for v
      using u by (auto simp: told_def r(5))
  qed (rule r(2))
qed

lemma fetch_loop_up:
  assumes "\<forall>m\<in>set ms. good_message pg m" and "db_up w" and "has_room (ptab w)" and "ascii_text_ok pg" and "\<not> nc_forceFail c"
  shows "\<exists>sv' w'. run_state (fetch_loop (Suc n) pg c sv (map Fetched ms)) w = (Some (Some sv'), w') \<and>
    (\<forall>u. (finished_in u (ptab w') \<longleftrightarrow> finished_in u (ptab w) \<or> Some u \<in> event_of pg ` set ms) \<and>
      length (told pg u w') = length (told pg u w) +
        (if Some u \<in> event_of pg ` set ms \<and> \<not> finished_in u (ptab w) then 1 else 0))"
  using assms
proof (induction ms arbitrary: sv w)
  case (Cons m ms)
  obtain sv1 w1 where 1: "run_state (fetch_round (Suc n) pg c sv (Fetched m)) w = (Some (Some sv1), w1)"
    "db_up w1" "has_room (ptab w1)"
    "\<And>v. finished_in v (ptab w1) \<longleftrightarrow> finished_in v (ptab w) \<or> event_of pg m = Some v"
    "\<And>v. length (told pg v w1) = length (told pg v w) +
       (if event_of pg m = Some v \<and> \<not> finished_in v (ptab w) then 1 else 0)"
    using fetch_message_up [of pg m w c n sv] Cons.prems by (metis list.set_intros(1))
  have "\<exists>sv' w'. run_state (fetch_loop (Suc n) pg c sv1 (map Fetched ms)) w1 = (Some (Some sv'), w') \<and>
    (\<forall>u. (finished_in u (ptab w') \<longleftrightarrow> finished_in u (ptab w1) \<or> Some u \<in> event_of pg ` set ms) \<and>
      length (told pg u w') = length (told pg u w1) +
        (if Some u \<in> event_of pg ` set ms \<and> \<not> finished_in u (ptab w1) then 1 else 0))"
    by (rule Cons.IH) (use 1 Cons.prems in auto)
  then obtain sv' w' where 2: "run_state (fetch_loop (Suc n) pg c sv1 (map Fetched ms)) w1 = (Some (Some sv'), w')"
    "\<And>u. finished_in u (ptab w') \<longleftrightarrow> finished_in u (ptab w1) \<or> Some u \<in> event_of pg ` set ms"
    "\<And>u. length (told pg u w') = length (told pg u w1) +
        (if Some u \<in> event_of pg ` set ms \<and> \<not> finished_in u (ptab w1) then 1 else 0)" by blast
  have "run_state (fetch_loop (Suc n) pg c sv (map Fetched (m # ms))) w = (Some (Some sv'), w')"
    using 1(1) 2(1) by simp
  moreover have mem: "Some u \<in> event_of pg ` set (m # ms) \<longleftrightarrow> event_of pg m = Some u \<or> Some u \<in> event_of pg ` set ms" for u
    by (simp only: list.set image_insert insert_iff eq_commute [of "Some u"])
  moreover have "finished_in u (ptab w') \<longleftrightarrow> finished_in u (ptab w) \<or> Some u \<in> event_of pg ` set (m # ms)" for u
    unfolding mem 2(2) 1(4) by blast
  moreover have "length (told pg u w') = length (told pg u w) +
        (if Some u \<in> event_of pg ` set (m # ms) \<and> \<not> finished_in u (ptab w) then 1 else 0)" for u
    unfolding mem 2(3) 1(4,5) by simp
  ultimately show ?case by blast
qed simp

section \<open>Properties\<close>

text \<open>
  C12. The consumer is idempotent: an event that is recorded done or failed when a run of the
  fetch loop begins keeps its status and its count of attempts through the whole run, and
  causes no further notification, whatever the consumer fetches and whatever fails.
\<close>

theorem finished_events_stay:
  assumes "settled u st n (db_processed (w_db w))"
    and "run_state (fetch_loop fuel pg c sv ps) w = (r, w')"
  shows "settled u st n (db_processed (w_db w')) \<and> told pg u w' = told pg u w"
proof -
  have "at_rest pg u st n (told pg u w) w" using assms(1) by (simp add: at_rest_def)
  from validD [OF valid_fetch_loop_at_rest this assms(2)] show ?thesis by (simp add: at_rest_def)
qed

definition example_envelope :: "string \<Rightarrow> string" where
  "example_envelope i = CHR ''{'' # [CHR 0x22] @ ''event_id'' @ [CHR 0x22, CHR '':'', CHR 0x22] @ i @
     [CHR 0x22, CHR '','', CHR 0x22] @ ''payload'' @ [CHR 0x22, CHR '':'', CHR ''1'', CHR ''}'']"

definition example_message :: "string \<Rightarrow> message" where
  "example_message i = \<lparr>m_Key = ''t1'', m_Value = example_envelope i\<rparr>"

definition notify_world :: world where
  "notify_world = \<lparr>w_script = (\<lambda>n. \<lparr>ev_db = Success, ev_kafka = Success, ev_again = 0, ev_time = 100 + int n,
       ev_locked = (\<lambda>_. False), ev_done = False\<rparr>),
     w_cursor = 0, w_db = empty_db, w_topics = (\<lambda>_. []), w_commits = [], w_notified = [],
     w_met = NewMetrics, w_nmet = NewNotifyMetrics\<rparr>"

definition example_done :: processed_row where
  "example_done = \<lparr>pe_event_id = ''u1'', pe_event_type = ''ticket.created'', pe_aggregate = [], pe_aggregate_id = [],
     pe_payload = ''{}'', pe_status = PDone, pe_attempts = 1, pe_first_seen_at = 5, pe_updated_at = 5,
     pe_processed_at = Some 5, pe_last_error = None, pe_failed_at = None\<rparr>"

definition example_notify_cfg :: notify_cfg where
  "example_notify_cfg = notify_config Map.empty \<lparr>AppEnv = ''dev'', HTTPAddr = [], DatabaseURL = ''postgres://db''\<rparr>"

theorem finished_events_stay_witness:
  "\<exists>r w'. run_state (fetch_loop 3 (plain_postgres :: unit postgres) example_notify_cfg (new_service example_notify_cfg)
        [Fetched (example_message ''u1''), Fetched (example_message ''u1'')])
        (notify_world\<lparr>w_db := empty_db\<lparr>db_processed := [example_done]\<rparr>\<rparr>) = (r, w') \<and>
     settled ''u1'' PDone 1 (db_processed (w_db w')) \<and> told (plain_postgres :: unit postgres) ''u1'' w' = []"
proof -
  let ?w = "notify_world\<lparr>w_db := empty_db\<lparr>db_processed := [example_done]\<rparr>\<rparr>"
  obtain r w' where run: "run_state (fetch_loop 3 (plain_postgres :: unit postgres) example_notify_cfg
      (new_service example_notify_cfg) [Fetched (example_message ''u1''), Fetched (example_message ''u1'')]) ?w = (r, w')"
    by (rule prod.exhaust)
  have "settled ''u1'' PDone 1 (db_processed (w_db ?w))"
    by (simp add: settled_def row_of_def example_done_def finished_def)
  from finished_events_stay [OF this run] run show ?thesis
    by (auto simp: told_def notify_world_def)
qed

text \<open>
  C6. Exactly one notification per event: when the database answers, \<open>NOTIFY_FORCE_FAIL\<close> is
  off and the table has room for another attempt of every event, the consumer works through
  any sequence of messages that decode and whose values the database accepts, with any
  repetitions;
  afterwards every event among them is finished, and exactly those that were not finished
  before have caused one notification each.
\<close>

theorem notified_exactly_once:
  assumes "\<forall>m\<in>set ms. good_message pg m" and "db_up w" and "has_room (db_processed (w_db w))"
    and "ascii_text_ok pg" and "\<not> nc_forceFail c"
  shows "\<exists>sv' w'. run_state (fetch_loop (Suc n) pg c sv (map Fetched ms)) w = (Some (Some sv'), w') \<and>
    (\<forall>u. (finished_in u (db_processed (w_db w')) \<longleftrightarrow>
           finished_in u (db_processed (w_db w)) \<or> Some u \<in> event_of pg ` set ms) \<and>
      length (told pg u w') = length (told pg u w) +
        (if Some u \<in> event_of pg ` set ms \<and> \<not> finished_in u (db_processed (w_db w)) then 1 else 0))"
  by (rule fetch_loop_up [OF assms])

lemma example_message_decoded:
  "fst (unmarshal_Envelope (example_envelope ''u1'')) = None"
  "env_EventID (snd (unmarshal_Envelope (example_envelope ''u1''))) = ''u1''"
  "env_Payload (snd (unmarshal_Envelope (example_envelope ''u1''))) = Some ''1''"
  by code_simp+

theorem notified_exactly_once_witness:
  "\<exists>sv' w'. run_state (fetch_loop 1 (plain_postgres :: unit postgres) example_notify_cfg (new_service example_notify_cfg)
        (map Fetched [example_message ''u1'', example_message ''u1''])) notify_world = (Some (Some sv'), w') \<and>
     length (told (plain_postgres :: unit postgres) ''u1'' w') = 1"
proof -
  let ?pg = "plain_postgres :: unit postgres"
  have "unmarshal_Envelope (example_envelope ''u1'') = (None, snd (unmarshal_Envelope (example_envelope ''u1'')))"
    using example_message_decoded(1) by (simp add: prod_eq_iff)
  then have good: "\<forall>m\<in>set [example_message ''u1'', example_message ''u1'']. good_message ?pg m"
    using example_message_decoded
    by (simp add: good_message_def example_message_def acceptable_def plain_postgres_def)
       (metis (no_types, lifting) option.inject)
  have ev: "event_of ?pg (example_message ''u1'') = Some ''u1''"
    using example_message_decoded
    by (simp add: event_of_def extractEventID_def example_message_def plain_postgres_def)
  have w: "db_up notify_world" "has_room (db_processed (w_db notify_world))" "ascii_text_ok ?pg"
    by (simp_all add: db_up_def notify_world_def has_room_def empty_db_def finished_in_def attempts_of_def row_of_def
        int4_max_def ascii_text_ok_def plain_postgres_def)
  have free: "\<not> nc_forceFail example_notify_cfg" by code_simp
  from notified_exactly_once [OF good w free, of 0 "new_service example_notify_cfg"] obtain sv' w' where
    "run_state (fetch_loop (Suc 0) ?pg example_notify_cfg (new_service example_notify_cfg)
        (map Fetched [example_message ''u1'', example_message ''u1''])) notify_world = (Some (Some sv'), w')"
    "\<forall>u. length (told ?pg u w') = length (told ?pg u notify_world) +
        (if Some u \<in> event_of ?pg ` set [example_message ''u1'', example_message ''u1''] \<and>
            \<not> finished_in u (db_processed (w_db notify_world)) then 1 else 0)" by blast
  moreover have "told ?pg ''u1'' notify_world = []" "\<not> finished_in ''u1'' (db_processed (w_db notify_world))"
    by (simp_all add: told_def notify_world_def empty_db_def finished_in_def row_of_def)
  ultimately show ?thesis using ev by (auto intro!: exI [of _ sv'] exI [of _ w'])
qed

text \<open>
  C17. The retry loop ends: with a positive limit of attempts and a database that answers, a
  message that decodes and whose event id, texts and payload the database accepts is left
  behind after at most as many rounds as attempts are left, forced failures or not. Unless the
  process was told to stop meanwhile, its event is then finished: done, or failed and buried.
\<close>

theorem retry_loop_terminates:
  assumes "unmarshal_Envelope (m_Value m) = (None, env)" and "acceptable pg env u" and "ascii_text_ok pg"
    and "0 < nc_maxAttempts c" and "nc_maxAttempts c \<le> int4_max" and "db_up w"
    and "finished_in u (db_processed (w_db w)) \<or> attempts_of u (db_processed (w_db w)) < int4_max"
    and "0 < fuel" and "nc_maxAttempts c - attempts_of u (db_processed (w_db w)) \<le> int fuel"
  shows "\<exists>res w'. run_state (retry_loop fuel pg c m sv out) w = (Some res, w') \<and>
    (res \<noteq> None \<longrightarrow> finished_in u (db_processed (w_db w')))"
  using retry_loop_up [OF assms(1-9)] by blast

theorem retry_loop_terminates_witness:
  "\<exists>res w'. run_state (retry_loop 10 (plain_postgres :: unit postgres) (example_notify_cfg\<lparr>nc_forceFail := True\<rparr>)
        (example_message ''u1'') (new_service example_notify_cfg) (''unknown'', 0)) notify_world = (Some res, w')"
proof -
  let ?pg = "plain_postgres :: unit postgres" and ?c = "example_notify_cfg\<lparr>nc_forceFail := True\<rparr>"
  let ?env = "snd (unmarshal_Envelope (example_envelope ''u1''))"
  have max: "nc_maxAttempts example_notify_cfg = 10" by code_simp
  have dec: "unmarshal_Envelope (m_Value (example_message ''u1'')) = (None, ?env)"
    using example_message_decoded(1) by (simp add: prod_eq_iff example_message_def)
  have acc: "acceptable ?pg ?env ''u1''"
    using example_message_decoded by (simp add: acceptable_def plain_postgres_def)
  have tab: "attempts_of ''u1'' (db_processed (w_db notify_world)) = 0"
    by (simp add: attempts_of_def row_of_def notify_world_def empty_db_def)
  have "db_up notify_world" "ascii_text_ok ?pg"
    by (simp_all add: db_up_def notify_world_def ascii_text_ok_def plain_postgres_def)
  then show ?thesis
    using retry_loop_terminates [OF dec acc, of ?c notify_world 10 "new_service example_notify_cfg" "(''unknown'', 0)"]
    by (simp add: max tab int4_max_def) blast
qed

text \<open>
  C33. A poison message blocks the consumer for ever: a message that decodes but whose event
  id is not a UUID makes \<open>StartProcessing\<close> fail every time. The attempt counter stays
  where it was, so the limit of attempts never applies, and no amount of fuel gets the loop
  to its end while the process is not stopped.
\<close>

theorem poison_message_blocks:
  assumes "unmarshal_Envelope (m_Value m) = (None, env)" and "uuid_in pg (env_EventID env) = None"
    and "\<forall>k. \<not> ev_done (w_script w k)"
  shows "fst (run_state (retry_loop fuel pg c m sv (et, 0)) w) = None"
  using assms(3)
proof (induction fuel arbitrary: w et)
  case (Suc fuel)
  have nd: "\<And>k. \<not> ev_done (w_script w k)" using Suc.prems by blast
  have lim: "nc_maxAttempts c \<le> 0 \<or> snd (et, 0) < nc_maxAttempts c" by auto
  obtain et' w' where "run_state (retry_round pg c m sv (et, 0)) w = (Again sv (et', 0), w')" "w_script w' = w_script w"
    using poison_round [OF assms(1,2) nd lim, of sv] by auto
  with Suc show ?case by simp
qed simp

theorem poison_message_blocks_witness:
  "fst (run_state (retry_loop 1000 ((plain_postgres :: unit postgres)\<lparr>uuid_in := \<lambda>s. if length s = 36 then Some s else None\<rparr>)
     example_notify_cfg (example_message ''u1'') (new_service example_notify_cfg) (''unknown'', 0)) notify_world) = None"
proof (rule poison_message_blocks)
  show "unmarshal_Envelope (m_Value (example_message ''u1'')) = (None, snd (unmarshal_Envelope (example_envelope ''u1'')))"
    using example_message_decoded(1) by (simp add: prod_eq_iff example_message_def)
qed (simp_all add: example_message_decoded(2) notify_world_def)

text \<open>
  Reopening an idle reader is rate-limited: the streak of timeouts stays below twelve,
  and a timeout reopens the reader only as the twelfth in a row and more than thirty seconds
  after the last reopening.
\<close>

theorem idle_reopen_limited:
  assumes "0 \<le> sv_timeoutStreak sv" and "sv_timeoutStreak sv < 12"
    and "run_state (idle_round sv) w = (sv', w')"
  shows "0 \<le> sv_timeoutStreak sv' \<and> sv_timeoutStreak sv' < 12 \<and>
    (sv_lastReopenAt sv' \<noteq> sv_lastReopenAt sv \<longrightarrow>
       sv_timeoutStreak sv = 11 \<and> 30 * Second < time_sub (ev_time (cur_event w)) (sv_lastReopenAt sv))"
  using assms by (auto simp: idle_round_def reopenAfterTimeouts_def Let_def split: if_splits)

theorem idle_reopen_limited_witness:
  "\<exists>sv' w'. run_state (idle_round (new_service example_notify_cfg)) notify_world = (sv', w') \<and> sv_timeoutStreak sv' < 12"
proof -
  obtain sv' w' where run: "run_state (idle_round (new_service example_notify_cfg)) notify_world = (sv', w')"
    by (rule prod.exhaust)
  have "sv_timeoutStreak (new_service example_notify_cfg) = 0" by (simp add: new_service_def)
  with idle_reopen_limited [OF _ _ run] run show ?thesis by auto
qed

text \<open>
  C34. The dead letter of a message that is not JSON is empty: the original bytes cannot be
  embedded, the encoder's error is dropped, and with it the message and the reason. Only for a
  message without bytes, whose value is nil, does the letter keep the reason, beside a
  \<open>null\<close>.
\<close>

theorem dead_letter_of_invalid_json_is_empty:
  assumes "json_parse (m_Value m) = None"
  shows "fst (unmarshal_Envelope (m_Value m)) \<noteq> None \<and>
    wrapDLQ (value_slice m) err =
      (if m_Value m = [] then json_object [(''error'', quote (Error err)), (''value'', ''null'')] else [])"
  using assms by (simp add: unmarshal_Envelope_def wrapDLQ_def value_slice_def marshal_raw_def json_compact_def)

theorem dead_letter_of_invalid_json_is_empty_witness:
  "wrapDLQ (value_slice \<lparr>m_Key = ''t1'', m_Value = ''{''\<rparr>) EOF = []"
proof -
  have "json_parse (m_Value \<lparr>m_Key = ''t1'', m_Value = ''{''\<rparr>) = None" by code_simp
  from dead_letter_of_invalid_json_is_empty [OF this] show ?thesis by simp
qed

end
