(* ===== verification/Wiring.thy ===== *)
theory Wiring
  imports Recorders Outbox_Relay Notification_Service
begin

text \<open>
  How the processes are put together: \<open>internal/shared/db/postgres.go\<close>,
  \<open>internal/shared/logger/logger.go\<close>, \<open>internal/shared/httpx/shutdown.go\<close>,
  \<open>cmd/ticket-service/main.go\<close>, and the metrics servers in the \<open>main\<close> functions of the
  relay and the notification service.
\<close>

section \<open>Database pool\<close>

record PostgresConfig =
  pgc_DatabaseURL :: string
  pgc_MaxOpenConns :: int
  pgc_MaxIdleConns :: int
  pgc_ConnMaxLifetime :: duration
  pgc_PingTimeout :: duration

definition pool_defaults :: "PostgresConfig \<Rightarrow> PostgresConfig" where
  "pool_defaults cfg = cfg\<lparr>
     pgc_MaxOpenConns := (if pgc_MaxOpenConns cfg = 0 then 10 else pgc_MaxOpenConns cfg),
     pgc_MaxIdleConns := (if pgc_MaxIdleConns cfg = 0 then 10 else pgc_MaxIdleConns cfg),
     pgc_ConnMaxLifetime := (if pgc_ConnMaxLifetime cfg = 0 then 30 * Minute else pgc_ConnMaxLifetime cfg),
     pgc_PingTimeout := (if pgc_PingTimeout cfg = 0 then 3 * Second else pgc_PingTimeout cfg)\<rparr>"

text \<open>
  \<open>sql.Open\<close> and the first ping are the outside's; the ping is given the time it may take.
  The result is the error, or the settings of the pool that was opened.
\<close>

definition OpenPostgres ::
  "(string \<Rightarrow> go_error option) \<Rightarrow> (duration \<Rightarrow> go_error option) \<Rightarrow> PostgresConfig \<Rightarrow> go_error + PostgresConfig" where
  "OpenPostgres sql_open ping cfg =
     (if pgc_DatabaseURL cfg = [] then Inl (errorString ''DATABASE_URL is empty'')
      else case sql_open (pgc_DatabaseURL cfg) of
        Some err \<Rightarrow> Inl err
      | None \<Rightarrow>
          let cfg = pool_defaults cfg in
          (case ping (pgc_PingTimeout cfg) of
             Some err \<Rightarrow> Inl err
           | None \<Rightarrow> Inr cfg))"

section \<open>Logging level\<close>

datatype level = LevelDebug | LevelInfo

record Logger =
  lg_level :: level
  lg_app :: string
  lg_env :: string

definition New_logger :: "string \<Rightarrow> string \<Rightarrow> Logger" where
  "New_logger app env =
     \<lparr>lg_level = (if env = ''dev'' \<or> env = ''local'' then LevelDebug else LevelInfo), lg_app = app, lg_env = env\<rparr>"

section \<open>The ticket service\<close>

datatype backend = PostgresBackend PostgresConfig | MemoryBackend

record http_server =
  srv_Addr :: string
  srv_ReadHeaderTimeout :: duration
  srv_ReadTimeout :: duration
  srv_WriteTimeout :: duration
  srv_IdleTimeout :: duration

text \<open>
  The actions of \<open>WaitAndShutdown\<close>, in order, and those the \<open>main\<close> functions defer; the
  errors of closing and shutting down are dropped, except for the pool of the ticket service.
\<close>

datatype shutdown_action =
    WaitForSignal
  | StopSignals
  | LogShutdownStart
  | ShutdownServer duration
  | LogShutdownDone
  | StopTicker
  | ShutdownMetrics
  | CloseProducer string
  | CloseConsumer
  | ClosePool
  | LogCloseFailed

definition WaitAndShutdown :: "duration \<Rightarrow> shutdown_action list" where
  "WaitAndShutdown timeout = [WaitForSignal, StopSignals, LogShutdownStart, ShutdownServer timeout, LogShutdownDone]"

record ticket_service =
  ts_backend :: backend
  ts_has_readyz :: bool
  ts_server :: http_server
  ts_shutdown :: "shutdown_action list"
  ts_logger :: Logger

text \<open>\<open>None\<close>: the database could not be opened and \<open>main\<close> returns.\<close>

definition ticket_main ::
  "(string \<Rightarrow> go_error option) \<Rightarrow> (duration \<Rightarrow> go_error option) \<Rightarrow> string option \<Rightarrow> environ \<Rightarrow> ticket_service option" where
  "ticket_main sql_open ping dotenv env0 =
     (let (cfg, env) = Load dotenv env0;
          server = \<lparr>srv_Addr = HTTPAddr cfg, srv_ReadHeaderTimeout = 5 * Second, srv_ReadTimeout = 15 * Second,
                    srv_WriteTimeout = 15 * Second, srv_IdleTimeout = 60 * Second\<rparr>;
          service = (\<lambda>b ready. \<lparr>ts_backend = b, ts_has_readyz = ready, ts_server = server,
                     ts_shutdown = WaitAndShutdown (10 * Second), ts_logger = New_logger ''ticket-service'' (AppEnv cfg)\<rparr>)
      in if DatabaseURL cfg \<noteq> [] then
           (case OpenPostgres sql_open ping
                \<lparr>pgc_DatabaseURL = DatabaseURL cfg, pgc_MaxOpenConns = env_Int env ''DB_MAX_OPEN_CONNS'' 25,
                 pgc_MaxIdleConns = env_Int env ''DB_MAX_IDLE_CONNS'' 25, pgc_ConnMaxLifetime = 0, pgc_PingTimeout = 0\<rparr> of
              Inl _ \<Rightarrow> None
            | Inr pool \<Rightarrow> Some (service (PostgresBackend pool) True))
         else Some (service MemoryBackend False))"

section \<open>The metrics servers of the relay and the notification service\<close>

definition worker_match :: "string \<Rightarrow> pattern option" where
  "worker_match p =
     (case mux_match p of
        Some PMetrics \<Rightarrow> Some PMetrics
      | Some PHealthz \<Rightarrow> Some PHealthz
      | Some PReadyz \<Rightarrow> Some PReadyz
      | _ \<Rightarrow> None)"

definition worker_handler :: "Response \<Rightarrow> go_error option \<Rightarrow> pattern option \<Rightarrow> Response" where
  "worker_handler metrics pingErr pat =
     (case pat of
        Some PHealthz \<Rightarrow> plain ''ok''
      | Some PReadyz \<Rightarrow> (if pingErr \<noteq> None then http_Error ''db unavailable'' 503 else plain ''ready'')
      | Some PMetrics \<Rightarrow> metrics
      | _ \<Rightarrow> http_Error ''404 page not found'' 404)"

definition worker_mux :: "(string \<Rightarrow> Response) \<Rightarrow> Response \<Rightarrow> go_error option \<Rightarrow> Request \<Rightarrow> Response" where
  "worker_mux redirect metrics pingErr r =
     (if r_RequestURI r = ''*'' then \<lparr>rs_Status = 400, rs_Header = [''Connection'' \<mapsto> ''close''], rs_Body = []\<rparr>
      else if r_Method r \<noteq> ''CONNECT'' \<and> cleanPath (r_EscapedPath r) \<noteq> r_EscapedPath r then
        redirect (cleanPath (r_EscapedPath r))
      else worker_handler metrics pingErr (worker_match (r_EscapedPath r)))"

text \<open>The notification service registers the same three handlers over its own registry.\<close>

definition notify_mux :: "(string \<Rightarrow> Response) \<Rightarrow> Response \<Rightarrow> go_error option \<Rightarrow> Request \<Rightarrow> Response" where
  "notify_mux redirect metrics pingErr r = worker_mux redirect metrics pingErr r"

text \<open>The two workers open the database before anything else; its failure decides their exit.\<close>

definition open_error ::
  "(string \<Rightarrow> go_error option) \<Rightarrow> (duration \<Rightarrow> go_error option) \<Rightarrow> string \<Rightarrow> go_error option" where
  "open_error sql_open ping url =
     (case OpenPostgres sql_open ping
         \<lparr>pgc_DatabaseURL = url, pgc_MaxOpenConns = 0, pgc_MaxIdleConns = 0, pgc_ConnMaxLifetime = 0, pgc_PingTimeout = 0\<rparr> of
        Inl err \<Rightarrow> Some err
      | Inr _ \<Rightarrow> None)"

definition relay_main ::
  "(string \<Rightarrow> go_error option) \<Rightarrow> (duration \<Rightarrow> go_error option) \<Rightarrow> string option \<Rightarrow> environ \<Rightarrow> startup" where
  "relay_main sql_open ping dotenv env0 =
     (let (cfg, env) = Load dotenv env0 in
      relay_start env cfg (open_error sql_open ping (env_String env ''DATABASE_URL'' (DatabaseURL cfg))))"

definition notify_main ::
  "(string \<Rightarrow> go_error option) \<Rightarrow> (duration \<Rightarrow> go_error option) \<Rightarrow> string option \<Rightarrow> environ \<Rightarrow> int + notify_cfg \<times> service" where
  "notify_main sql_open ping dotenv env0 =
     (let (cfg, env) = Load dotenv env0 in
      notify_start env cfg (open_error sql_open ping (env_String env ''DATABASE_URL'' (DatabaseURL cfg))))"

section \<open>Leaving\<close>

text \<open>Deferred calls run last in, first out; each \<open>main\<close> lists them in the order it defers them.\<close>

definition ticket_exit :: "go_error option \<Rightarrow> ticket_service \<Rightarrow> shutdown_action list" where
  "ticket_exit closeErr ts = ts_shutdown ts @
     (case ts_backend ts of
        PostgresBackend _ \<Rightarrow> ClosePool # (if closeErr \<noteq> None then [LogCloseFailed] else [])
      | MemoryBackend \<Rightarrow> [])"

definition relay_defers :: "relay_cfg \<Rightarrow> shutdown_action list" where
  "relay_defers c = [StopSignals, ClosePool, CloseProducer (rc_topic c)] @
     (if rc_dlqTopic c \<noteq> [] then [CloseProducer (rc_dlqTopic c)] else [])"

definition relay_metrics_defer :: "shutdown_action list" where
  "relay_metrics_defer = [ShutdownMetrics]"

definition ticker_defer :: "shutdown_action list" where
  "ticker_defer = [StopTicker]"

definition relay_exit :: "relay_cfg \<Rightarrow> shutdown_action list" where
  "relay_exit c = rev (relay_defers c @ relay_metrics_defer @ ticker_defer)"

definition notify_defers :: "notify_cfg \<Rightarrow> shutdown_action list" where
  "notify_defers c = [StopSignals, ClosePool, CloseConsumer] @
     (if nc_dlqTopic c \<noteq> [] then [CloseProducer (nc_dlqTopic c)] else [])"

definition notify_metrics_defer :: "shutdown_action list" where
  "notify_metrics_defer = [ShutdownMetrics]"

definition notify_exit :: "notify_cfg \<Rightarrow> shutdown_action list" where
  "notify_exit c = rev (notify_defers c @ notify_metrics_defer)"

lemmas exit_defs = relay_exit_def relay_defers_def relay_metrics_defer_def ticker_defer_def
  notify_exit_def notify_defers_def notify_metrics_defer_def ticket_exit_def

text \<open>What may still use the database has ended before its pool is closed.\<close>

definition uses_pool :: "shutdown_action \<Rightarrow> bool" where
  "uses_pool a = (case a of ShutdownServer _ \<Rightarrow> True | ShutdownMetrics \<Rightarrow> True | _ \<Rightarrow> False)"

definition closed_after_use :: "shutdown_action list \<Rightarrow> bool" where
  "closed_after_use as = list_all (\<lambda>a. \<not> uses_pool a) (dropWhile (\<lambda>a. a \<noteq> ClosePool) as)"

lemma pool_closed_after_use:
  "closed_after_use (relay_exit c)" "closed_after_use (notify_exit nc)"
  "ticket_main sql_open ping dotenv env0 = Some ts \<Longrightarrow> closed_after_use (ticket_exit closeErr ts)"
  by (auto simp: closed_after_use_def exit_defs uses_pool_def ticket_main_def
      WaitAndShutdown_def Let_def split: prod.splits if_splits sum.splits)

section \<open>Properties\<close>

text \<open>A setting as the process sees it: from its environment, or else from the \<open>.env\<close> file.\<close>

definition setting :: "string option \<Rightarrow> environ \<Rightarrow> string \<Rightarrow> string" where
  "setting dotenv env0 key = TrimSpace (Getenv (loadDotEnv dotenv env0) key)"

text \<open>
  C38. How the relay starts, by its environment and the \<open>.env\<close> file. It exits with 2 exactly
  without a database URL; with 1 exactly when there is one and the driver refuses it or the
  ping of three seconds fails; it panics exactly when the database is there and the poll
  interval is set to a duration that is not positive, while a value that is no duration falls
  back to the default; in every other case it runs, on that URL, with a positive interval and
  an open producer for the configured topic.
\<close>

theorem relay_main_exact:
  "(relay_main sql_open ping dotenv env0 = Exit 2 \<longleftrightarrow> setting dotenv env0 ''DATABASE_URL'' = []) \<and>
    (relay_main sql_open ping dotenv env0 = Exit 1 \<longleftrightarrow>
       setting dotenv env0 ''DATABASE_URL'' \<noteq> [] \<and> (sql_open (setting dotenv env0 ''DATABASE_URL'') \<noteq> None \<or> ping (3 * Second) \<noteq> None)) \<and>
    ((\<exists>msg. relay_main sql_open ping dotenv env0 = Panic msg) \<longleftrightarrow>
       setting dotenv env0 ''DATABASE_URL'' \<noteq> [] \<and> sql_open (setting dotenv env0 ''DATABASE_URL'') = None \<and> ping (3 * Second) = None \<and>
       setting dotenv env0 ''OUTBOX_RELAY_POLL_INTERVAL'' \<noteq> [] \<and> (\<exists>d\<le>0. ParseDuration (setting dotenv env0 ''OUTBOX_RELAY_POLL_INTERVAL'') = Some d)) \<and>
    (\<forall>n. relay_main sql_open ping dotenv env0 = Exit n \<longrightarrow> n \<in> {1, 2}) \<and>
    (\<forall>c rl. relay_main sql_open ping dotenv env0 = Running c rl \<longrightarrow>
       rc_dbURL c = setting dotenv env0 ''DATABASE_URL'' \<and> 0 < rc_pollInterval c \<and> relay_ok (rc_topic c) rl \<and> open_relay (rc_topic c) rl)"
proof -
  let ?env = "loadDotEnv dotenv env0" and ?url = "setting dotenv env0 ''DATABASE_URL''" and ?v = "setting dotenv env0 ''OUTBOX_RELAY_POLL_INTERVAL''"
  define c where "c = relay_config ?env (fst (Load dotenv env0))"
  have u: "rc_dbURL c = ?url" by (simp add: c_def relay_config_def Load_def env_String_def setting_def Let_def)
  have p: "rc_pollInterval c \<le> 0 \<longleftrightarrow> ?v \<noteq> [] \<and> (\<exists>d\<le>0. ParseDuration ?v = Some d)"
    by (simp add: c_def relay_config_def env_Duration_def setting_def Let_def split: option.split)
  have "open_error sql_open ping ?url = None \<longleftrightarrow> ?url \<noteq> [] \<and> sql_open ?url = None \<and> ping (3 * Second) = None"
    by (simp add: open_error_def OpenPostgres_def pool_defaults_def Let_def split: option.split)
  moreover have "relay_main sql_open ping dotenv env0 =
      (if ?url = [] then Exit 2 else if open_error sql_open ping ?url \<noteq> None then Exit 1
       else if rc_pollInterval c \<le> 0 then Panic ''non-positive interval for NewTicker'' else Running c (new_relay c))"
  proof -
    have "snd (Load dotenv env0) = ?env" by (simp add: Load_def Let_def)
    then have "relay_main sql_open ping dotenv env0 = relay_start ?env (fst (Load dotenv env0)) (open_error sql_open ping (rc_dbURL c))"
      by (simp add: relay_main_def case_prod_unfold Let_def c_def relay_config_def)
    then show ?thesis by (simp add: relay_start_def start_ticker_def Let_def u flip: c_def split: option.split)
  qed
  ultimately show ?thesis using p u new_relay_ok [of c] by (auto split: if_splits)
qed

theorem relay_main_exact_witness:
  "(\<exists>msg. relay_main (\<lambda>_. None) (\<lambda>_. None) None [''DATABASE_URL'' \<mapsto> ''pg'', ''OUTBOX_RELAY_POLL_INTERVAL'' \<mapsto> ''0s''] = Panic msg) \<and>
   (\<exists>c rl. relay_main (\<lambda>_. None) (\<lambda>_. None) None [''DATABASE_URL'' \<mapsto> ''pg''] = Running c rl \<and> 0 < rc_pollInterval c)"
proof
  let ?env = "[''DATABASE_URL'' \<mapsto> ''pg'']"
  have 1: "setting None (?env(''OUTBOX_RELAY_POLL_INTERVAL'' \<mapsto> ''0s'')) ''DATABASE_URL'' = ''pg''"
    "setting None (?env(''OUTBOX_RELAY_POLL_INTERVAL'' \<mapsto> ''0s'')) ''OUTBOX_RELAY_POLL_INTERVAL'' = ''0s''"
    "ParseDuration ''0s'' = Some 0" by code_simp+
  then show "\<exists>msg. relay_main (\<lambda>_. None) (\<lambda>_. None) None (?env(''OUTBOX_RELAY_POLL_INTERVAL'' \<mapsto> ''0s'')) = Panic msg"
    using relay_main_exact [of "\<lambda>_. None" "\<lambda>_. None" None "?env(''OUTBOX_RELAY_POLL_INTERVAL'' \<mapsto> ''0s'')"] by simp
  have 2: "setting None ?env ''DATABASE_URL'' = ''pg''" "setting None ?env ''OUTBOX_RELAY_POLL_INTERVAL'' = []" by code_simp+
  then show "\<exists>c rl. relay_main (\<lambda>_. None) (\<lambda>_. None) None ?env = Running c rl \<and> 0 < rc_pollInterval c"
    using relay_main_exact [of "\<lambda>_. None" "\<lambda>_. None" None ?env]
    by (cases "relay_main (\<lambda>_. None) (\<lambda>_. None) None ?env") auto
qed

text \<open>
  The ticket service stores in Postgres exactly when a database URL is configured, in
  the environment or in the \<open>.env\<close> file; it then checks readiness against the database,
  and its pool is never opened with the driver's unlimited default of zero connections.
  Without a URL it always starts, in memory.
\<close>

theorem ticket_main_backend:
  "case ticket_main sql_open ping dotenv env0 of
      None \<Rightarrow> DatabaseURL (fst (Load dotenv env0)) \<noteq> [] \<and>
        \<not> (sql_open (DatabaseURL (fst (Load dotenv env0))) = None \<and> ping (3 * Second) = None)
    | Some ts \<Rightarrow>
        (case ts_backend ts of
           MemoryBackend \<Rightarrow> DatabaseURL (fst (Load dotenv env0)) = [] \<and> \<not> ts_has_readyz ts
         | PostgresBackend pool \<Rightarrow> pgc_DatabaseURL pool = DatabaseURL (fst (Load dotenv env0)) \<and>
             pgc_DatabaseURL pool \<noteq> [] \<and> ts_has_readyz ts \<and>
             sql_open (pgc_DatabaseURL pool) = None \<and> ping (3 * Second) = None \<and>
             pgc_MaxOpenConns pool \<noteq> 0 \<and> pgc_MaxIdleConns pool \<noteq> 0 \<and> pgc_ConnMaxLifetime pool = 30 * Minute)"
  by (auto simp: ticket_main_def OpenPostgres_def pool_defaults_def Let_def split: prod.split option.split)

text \<open>
  Health and readiness of the workers: \<open>/healthz\<close> is always 200, \<open>/readyz\<close> is 200
  exactly when the database answers the ping and 503 otherwise, whatever the method.
\<close>

theorem worker_probes:
  assumes "for_path p r" and "p = ''/healthz'' \<or> p = ''/readyz''"
  shows "rs_Status (worker_mux redirect metrics pingErr r) =
    (if p = ''/readyz'' \<and> pingErr \<noteq> None then 503 else 200)"
proof -
  have "cleanPath ''/healthz'' = ''/healthz''" "cleanPath ''/readyz'' = ''/readyz''"
    "worker_match ''/healthz'' = Some PHealthz" "worker_match ''/readyz'' = Some PReadyz" by code_simp+
  with assms show ?thesis
    by (auto simp: worker_mux_def worker_handler_def for_path_def plain_def http_Error_def)
qed

theorem worker_probes_witness:
  "rs_Status (worker_mux (\<lambda>p. plain p) (plain []) (Some (errorString ''db down''))
     ((example_request ''HEAD'' [])\<lparr>r_Path := ''/readyz'', r_EscapedPath := ''/readyz'', r_RequestURI := ''/readyz''\<rparr>)) = 503"
  by (subst worker_probes [of "''/readyz''"]) (simp_all add: for_path_def)

end
