(* ===== verification/Json_Laws.thy ===== *)
theory Json_Laws
  imports Go_Json
begin

text \<open>
  Laws of the JSON reader and writer. Reading: the fuel of \<open>json_value\<close> is always enough,
  a text that was read as a value is read the same way in front of any delimiter, and
  compaction changes neither. Writing: a quoted string is read back with malformed UTF-8
  replaced, and an object written from value texts is read back as its members.
\<close>

section \<open>Reading strings as a relation\<close>

declare rune_width.simps [simp del]

text \<open>The rules of \<open>unquote_body\<close>, one for each kind of token, for proofs by induction.\<close>

inductive scan :: "string \<Rightarrow> string \<Rightarrow> string \<Rightarrow> bool" where
  scan_quote: "scan (CHR 0x22 # r) [] r"
| scan_unicode: "hex4 u = Some (q, v) \<Longrightarrow> unicode_escape q v = (y, w) \<Longrightarrow> scan w x r \<Longrightarrow>
    scan (CHR 0x5C # CHR ''u'' # u) (y @ x) r"
| scan_escape: "simple_escape e = Some d \<Longrightarrow> scan u x r \<Longrightarrow> scan (CHR 0x5C # e # u) (d # x) r"
| scan_ascii: "c \<noteq> CHR 0x22 \<Longrightarrow> c \<noteq> CHR 0x5C \<Longrightarrow> 32 \<le> byte c \<Longrightarrow> byte c < 128 \<Longrightarrow> scan t x r \<Longrightarrow>
    scan (c # t) (c # x) r"
| scan_bad: "128 \<le> byte c \<Longrightarrow> rune_width (c # t) = 0 \<Longrightarrow> scan t x r \<Longrightarrow> scan (c # t) (RuneError @ x) r"
| scan_rune: "128 \<le> byte c \<Longrightarrow> rune_width (c # t) \<noteq> 0 \<Longrightarrow> scan (drop (rune_width (c # t)) (c # t)) x r \<Longrightarrow>
    scan (c # t) (take (rune_width (c # t)) (c # t) @ x) r"

lemma byte_simps [simp]: "byte (CHR 0x22) = 34" "byte (CHR 0x5C) = 92"
  by (simp_all add: byte_def)

lemma simple_escape_u [simp]: "simple_escape (CHR ''u'') = None"
  by (simp add: simple_escape_def)

lemma unquote_body_scan: "unquote_body s = Some (x, r) \<Longrightarrow> scan s x r"
proof (induction s arbitrary: x rule: length_induct)
  case (1 s)
  have IH: "unquote_body t = Some (y, r) \<Longrightarrow> length t < length s \<Longrightarrow> scan t y r" for t y
    using "1.IH" by blast
  show ?case
  proof (cases s)
    case Nil
    with "1.prems" show ?thesis by (simp add: unquote_body.simps)
  next
    case (Cons c t)
    note run = "1.prems" [unfolded Cons, unfolded unquote_body.simps [of "c # t"], simplified]
    consider "c = CHR 0x22" | "c = CHR 0x5C" | "c \<noteq> CHR 0x22" "c \<noteq> CHR 0x5C" by blast
    then show ?thesis
    proof cases
      case 1
      with run Cons show ?thesis by (auto intro: scan_quote)
    next
      case 2
      with run obtain e u where t: "t = e # u" by (cases t) auto
      show ?thesis
      proof (cases "e = CHR ''u''")
        case True
        with run 2 t obtain q v y where "hex4 u = Some (q, v)"
          "unquote_body (snd (unicode_escape q v)) = Some (y, r)" "x = fst (unicode_escape q v) @ y"
          by (auto split: option.splits)
        with hex4_shorter [of u q v] unicode_escape_shorter [of q v] IH [of "snd (unicode_escape q v)" y] show ?thesis
          unfolding Cons t 2 True by (auto intro: scan_unicode simp: prod_eq_iff Cons t)
      next
        case False
        with run 2 t obtain d y where "simple_escape e = Some d" "unquote_body u = Some (y, r)" "x = d # y"
          by (auto split: option.splits)
        with IH [of u y] show ?thesis unfolding Cons t 2 by (auto intro: scan_escape simp: Cons t)
      qed
    next
      case 3
      then show ?thesis
        using run IH [of t] IH [of "drop (rune_width (c # t)) (c # t)"] unfolding Cons
        by (auto split: if_splits intro: scan_ascii scan_bad scan_rune simp: Cons not_less)
    qed
  qed
qed

lemma scan_unquote_body: "scan s x r \<Longrightarrow> unquote_body s = Some (x, r)"
  by (induction rule: scan.induct) (subst unquote_body.simps; auto split: option.splits)+

lemma unquote_body_iff: "unquote_body s = Some (x, r) \<longleftrightarrow> scan s x r"
  using unquote_body_scan scan_unquote_body by blast

section \<open>Compaction of strings\<close>

definition hex_char :: "char \<Rightarrow> bool" where
  "hex_char c \<longleftrightarrow> hex_val c \<noteq> None"

lemma hex_char_plain: "hex_char c \<Longrightarrow> byte c < 128 \<and> byte c \<notin> {34, 92, 60, 62, 38}"
  by (auto simp: hex_char_def hex_val_def split: if_splits)

lemma not_hex_quote [simp]: "\<not> hex_char (CHR 0x22)"
  using hex_char_plain by force

lemma is_line_sep_226: "is_line_sep (c # s) \<Longrightarrow> byte c = 226"
  by (auto simp: is_line_sep_def split: list.splits)

lemma strip_string_plain:
  assumes "byte c \<notin> {34, 92, 60, 62, 38, 226}"
  shows "strip_string (c # s) = c # strip_string s"
proof -
  have "c \<noteq> CHR 0x22" "c \<noteq> CHR 0x5C" "\<not> is_line_sep (c # s)" using assms is_line_sep_226 by force+
  with assms show ?thesis by simp
qed

declare strip_string.simps(2) [simp del]

lemma hex_char_strip: "hex_char c \<Longrightarrow> byte c \<notin> {34, 92, 60, 62, 38, 226}"
  using hex_char_plain [of c] by auto

lemma strip_string_hex: "\<forall>c\<in>set p. hex_char c \<Longrightarrow> strip_string (p @ s) = p @ strip_string s"
  by (induction p) (simp_all add: strip_string_plain [OF hex_char_strip])

lemma strip_string_cont: "cont (byte b) \<Longrightarrow> strip_string (b # t) = b # strip_string t"
  by (rule strip_string_plain) (auto simp: cont_def)

text \<open>What compaction puts in front is what was there, or a backslash in place of an ASCII byte or of 226.\<close>

lemma strip_string_hd:
  assumes "strip_string t = b # u"
  shows "\<exists>c s. t = c # s \<and> (b = c \<or> b = CHR 0x5C)"
  using assms by (cases t) (auto simp: strip_string.simps split: if_splits list.splits)

lemma strip_string_cont_rev:
  assumes "strip_string t = b # u" and "cont (byte b)"
  obtains t' where "t = b # t'" "u = strip_string t'"
proof -
  from strip_string_hd [OF assms(1)] assms(2) obtain t' where t: "t = b # t'" by (auto simp: cont_def)
  with assms strip_string_cont [of b t'] show thesis by (intro that [of t']) auto
qed

lemma take_drop_strip_string:
  "k \<le> length (takeWhile (\<lambda>b. cont (byte b)) t) \<Longrightarrow>
   take k (strip_string t) = take k t \<and> drop k (strip_string t) = strip_string (drop k t)"
proof (induction k arbitrary: t)
  case (Suc k)
  then obtain b s where t: "t = b # s" "cont (byte b)" by (cases t) (auto split: if_splits)
  with Suc.IH [of s] Suc.prems show ?case by (simp add: strip_string_cont)
qed simp

lemma takeWhile_strip_string:
  "takeWhile (\<lambda>b. cont (byte b)) (strip_string t) = takeWhile (\<lambda>b. cont (byte b)) t"
proof (induction t)
  case (Cons b s)
  show ?case
  proof (cases "cont (byte b)")
    case False
    obtain d u where "strip_string (b # s) = d # u" by (cases "strip_string (b # s)") (auto simp: strip_string.simps split: if_splits list.splits)
    with False strip_string_hd [OF this] show ?thesis by (auto simp: cont_def)
  qed (use Cons in \<open>simp add: strip_string_cont\<close>)
qed simp

lemma rune_width_conts:
  assumes "128 \<le> byte c"
  shows "rune_width (c # t) = rune_width (c # takeWhile (\<lambda>b. cont (byte b)) t)"
proof -
  have [simp]: "\<not> cont b \<Longrightarrow> \<not> width2 m b" "\<not> cont b \<Longrightarrow> \<not> width3 m b k" "\<not> cont k \<Longrightarrow> \<not> width3 m b k"
    "\<not> cont b \<Longrightarrow> \<not> width4 m b k l" "\<not> cont k \<Longrightarrow> \<not> width4 m b k l" "\<not> cont l \<Longrightarrow> \<not> width4 m b k l"
    for m b k l by (auto simp: width2_def width3_def width4_def cont_def)
  consider "t = []" | b where "t = [b]" | b k where "t = [b, k]" | b k l u where "t = b # k # l # u"
    by (metis list.exhaust)
  then show ?thesis
    by cases (use assms in \<open>simp_all add: rune_width.simps\<close>)
qed

lemma rune_width_strip: "128 \<le> byte c \<Longrightarrow> rune_width (c # strip_string t) = rune_width (c # t)"
  using rune_width_conts [of c t] rune_width_conts [of c "strip_string t"] by (simp add: takeWhile_strip_string)

lemma rune_width_bound: "128 \<le> byte c \<Longrightarrow> rune_width (c # t) \<le> Suc (length (takeWhile (\<lambda>b. cont (byte b)) t))"
  using rune_width_conts [of c t] rune_width_le [of "c # takeWhile (\<lambda>b. cont (byte b)) t"] by simp

section \<open>A string token does not depend on what follows\<close>

lemma hex4_split:
  assumes "hex4 s = Some (q, v)"
  obtains p where "s = p @ v" "\<forall>c\<in>set p. hex_char c" "\<forall>v'. hex4 (p @ v') = Some (q, v')"
proof (cases s rule: hex4.cases)
  case (1 a b c d t)
  show thesis
    by (rule that [of "[a, b, c, d]"]) (use assms 1 in \<open>auto simp: hex_char_def split: option.splits\<close>)
qed (use assms in auto)

lemma low_surrogate_split:
  assumes "low_surrogate s = Some (q, v)"
  obtains p where "s = p @ v" "CHR 0x22 \<notin> set p" "\<forall>v'. low_surrogate (p @ v') = Some (q, v')"
    "\<forall>v'. strip_string (p @ v') = p @ strip_string v'"
proof -
  from assms obtain t where t: "s = CHR 0x5C # CHR ''u'' # t" "hex4 t = Some (q, v)" "56320 \<le> q" "q < 57344"
    by (auto simp: low_surrogate_def split: list.splits if_splits option.splits)
  from t(2) obtain p where p: "t = p @ v" "\<forall>c\<in>set p. hex_char c" "\<forall>v'. hex4 (p @ v') = Some (q, v')"
    by (rule hex4_split)
  show thesis
    by (rule that [of "CHR 0x5C # CHR ''u'' # p"])
       (use t p in \<open>auto simp: low_surrogate_def strip_string_hex strip_string.simps\<close>)
qed

text \<open>Texts that hold a quote decide by themselves whether a low surrogate is in front.\<close>

lemma low_surrogate_None:
  assumes "low_surrogate (u @ r) = None" and "CHR 0x22 \<in> set u"
  shows "low_surrogate (u @ r') = None"
proof (cases "low_surrogate (u @ r')")
  case (Some a)
  obtain q v where "low_surrogate (u @ r') = Some (q, v)" using Some by (cases a) auto
  then obtain p where p: "u @ r' = p @ v" "CHR 0x22 \<notin> set p" "\<forall>v'. low_surrogate (p @ v') = Some (q, v')"
    by (rule low_surrogate_split) blast
  from p(1,2) assms(2) obtain us where "u = p @ us" by (auto simp: append_eq_append_conv2)
  with p(3) assms(1) show ?thesis by simp
qed

lemma rune_width_append:
  assumes "a \<in> set u" and "byte a < 128"
  shows "rune_width (u @ r) = rune_width u"
proof -
  have no: "\<not> width2 m (byte a)" "\<not> width3 m (byte a) n" "\<not> width3 m n (byte a)" "\<not> width4 m (byte a) n k"
    "\<not> width4 m n (byte a) k" "\<not> width4 m n k (byte a)" for m n k
    using assms(2) by (auto simp: width2_def width3_def width4_def cont_def)
  from assms no show ?thesis
    by (cases u rule: rune_width.cases) (auto simp: rune_width.simps split: list.splits)
qed

lemma byte_less [simp]: "byte c < 256"
  using range_nat_of_char by (auto simp: byte_def)

lemma char_of_byte [simp]: "char_of (byte c) = c"
  by (simp add: byte_def)

lemma byte_char_of [simp]: "n < 256 \<Longrightarrow> byte (char_of n) = n"
  by (simp add: byte_def)

lemma hex_val_02 [simp]: "hex_val (CHR ''0'') = Some 0" "hex_val (CHR ''2'') = Some 2"
  by (simp_all add: hex_val_def byte_def)

lemma hex4_00: "b < 256 \<Longrightarrow> hex4 (CHR ''0'' # CHR ''0'' # hex_digit (b div 16) # hex_digit (b mod 16) # v) = Some (b, v)"
  by simp

lemma hex4_202: "x < 16 \<Longrightarrow> hex4 (CHR ''2'' # CHR ''0'' # CHR ''2'' # hex_digit x # v) = Some (8224 + x, v)"
  by simp

lemma strip_string_hex_rev:
  assumes "strip_string t = p @ u" and "\<forall>c\<in>set p. hex_char c"
  shows "\<exists>t'. t = p @ t' \<and> u = strip_string t'"
  using assms
proof (induction p arbitrary: t)
  case (Cons c p)
  from strip_string_hd [of t c "p @ u"] Cons.prems obtain s where t: "t = c # s"
    using hex_char_plain [of c] by auto
  with Cons.prems Cons.IH [of s] show ?case
    by (simp add: strip_string_plain [OF hex_char_strip])
qed simp

lemma low_surrogate_strip:
  assumes "low_surrogate t = None"
  shows "low_surrogate (strip_string t) = None"
proof (rule ccontr)
  assume "low_surrogate (strip_string t) \<noteq> None"
  then obtain q v w where w: "strip_string t = CHR 0x5C # CHR ''u'' # w" "hex4 w = Some (q, v)" "56320 \<le> q" "q < 57344"
    by (auto simp: low_surrogate_def split: list.splits if_splits option.splits)
  obtain c s where t: "t = c # s" using w(1) by (cases t) auto
  consider "c = CHR 0x5C" | "hex4 w = Some (byte c, strip_string s)"
    | x where "hex4 w = Some (8224 + x, strip_string (drop 2 s))" "x < 16"
    using w(1) hex4_00 [of "byte c" "strip_string s"] hex4_202 [of "byte (s ! 1) mod 16" "strip_string (drop 2 s)"]
    unfolding t by (auto simp: strip_string.simps simp del: hex4.simps split: if_splits)
  then show False
  proof cases
    case 1
    with w(1) t obtain t2 where t2: "s = CHR ''u'' # t2" "strip_string t2 = w"
      by (cases s) (auto simp: strip_string.simps)
    from w(2) obtain p where p: "w = p @ v" "\<forall>c\<in>set p. hex_char c" "\<forall>v'. hex4 (p @ v') = Some (q, v')" by (rule hex4_split)
    with strip_string_hex_rev [of t2 p v] t2 obtain t3 where "t2 = p @ t3" by auto
    with assms t t2 1 p(3) w(3,4) show False by (simp add: low_surrogate_def)
  qed (use w byte_less [of c] in \<open>auto simp del: byte_less\<close>)
qed

text \<open>What a token consumes, on which it is read whatever follows, and which is compacted by itself.\<close>

definition token :: "string \<Rightarrow> string \<Rightarrow> bool" where
  "token u x \<longleftrightarrow> CHR 0x22 \<in> set u \<and> CHR 0x22 \<in> set (strip_string u) \<and> (\<forall>r. scan (u @ r) x r) \<and>
     (\<forall>r. strip_string (u @ r) = strip_string u @ strip_json r) \<and> (\<forall>r. scan (strip_string u @ r) x r)"

lemma tokenI:
  assumes "CHR 0x22 \<in> set u" and "CHR 0x22 \<in> set s" and "\<And>r. scan (u @ r) x r"
    and "\<And>r. strip_string (u @ r) = s @ strip_json r" and "\<And>r. scan (s @ r) x r"
  shows "token u x"
proof -
  have "strip_string u = s" using assms(4) [of "[]"] by simp
  with assms show ?thesis by (simp add: token_def)
qed

lemma token_quote: "token [CHR 0x22] []"
  by (rule tokenI [of _ "[CHR 0x22]"]) (auto intro: scan_quote simp: strip_string.simps)

lemma token_escape: "token u x \<Longrightarrow> simple_escape e = Some d \<Longrightarrow> token (CHR 0x5C # e # u) (d # x)"
  by (rule tokenI [of _ "CHR 0x5C # e # strip_string u"]) (auto simp: token_def strip_string.simps intro: scan_escape)

lemma token_unicode:
  assumes u: "token u x" and h: "\<forall>c\<in>set h. hex_char c" "\<forall>v. hex4 (h @ v) = Some (q, v)"
    and esc: "unicode_escape q v = (y, u @ r)"
  shows "\<exists>p. v = p @ u @ r \<and> token (CHR 0x5C # CHR ''u'' # h @ p @ u) (y @ x)"
proof -
  have "\<exists>p. v = p @ u @ r \<and> (\<forall>r'. unicode_escape q (p @ u @ r') = (y, u @ r')) \<and>
    (\<forall>r'. unicode_escape q (p @ strip_string u @ r') = (y, strip_string u @ r')) \<and>
    (\<forall>v'. strip_string (p @ v') = p @ strip_string v')"
  proof (cases "55296 \<le> q \<and> q < 56320 \<and> low_surrogate v \<noteq> None")
    case True
    then obtain q2 w where l: "low_surrogate v = Some (q2, w)" by auto
    then obtain p where p: "v = p @ w" "\<forall>v'. low_surrogate (p @ v') = Some (q2, v')"
      "\<forall>v'. strip_string (p @ v') = p @ strip_string v'" by (rule low_surrogate_split)
    have "y = encode_rune (65536 + (q - 55296) * 1024 + (q2 - 56320)) \<and> w = u @ r"
      using True l esc by (auto simp: unicode_escape_def)
    with p True show ?thesis by (intro exI [of _ p]) (auto simp: unicode_escape_def)
  next
    case False
    then have v: "v = u @ r" using esc by (auto simp: unicode_escape_def split: if_splits option.splits)
    have "low_surrogate (u @ r') = None \<and> low_surrogate (strip_string u @ r') = None" if "55296 \<le> q" "q < 56320" for r'
    proof -
      have none: "low_surrogate (u @ r) = None" using False that v by (simp del: not_None_eq)
      then have "low_surrogate (strip_string u @ strip_json r) = None"
        using low_surrogate_strip [of "u @ r"] u by (simp add: token_def)
      with none u show ?thesis by (auto simp: token_def intro: low_surrogate_None)
    qed
    with v esc show ?thesis by (intro exI [of _ "[]"]) (auto simp: unicode_escape_def split: if_splits)
  qed
  then obtain p where p: "v = p @ u @ r" "\<forall>r'. unicode_escape q (p @ u @ r') = (y, u @ r')"
    "\<forall>r'. unicode_escape q (p @ strip_string u @ r') = (y, strip_string u @ r')"
    "\<forall>v'. strip_string (p @ v') = p @ strip_string v'" by blast
  have "token (CHR 0x5C # CHR ''u'' # h @ p @ u) (y @ x)"
    by (rule tokenI [of _ "CHR 0x5C # CHR ''u'' # h @ p @ strip_string u"])
       (use u h p in \<open>auto simp: token_def strip_string.simps strip_string_hex intro: scan_unicode\<close>)
  with p(1) show ?thesis by blast
qed

lemma unicode_escape_ascii: "q < 128 \<Longrightarrow> unicode_escape q v = ([char_of q], v)"
  by (simp add: unicode_escape_def encode_rune_def)

lemma token_ascii:
  assumes "token u x" and "c \<noteq> CHR 0x22" and "c \<noteq> CHR 0x5C" and "32 \<le> byte c" and "byte c < 128"
  shows "token (c # u) (c # x)"
proof (cases "byte c \<in> {60, 62, 38}")
  case True
  have scan: "scan (CHR 0x5C # CHR ''u'' # CHR ''0'' # CHR ''0'' # hex_digit (byte c div 16) # hex_digit (byte c mod 16) # strip_string u @ r)
      ([c] @ x) r" for r
    by (rule scan_unicode [OF hex4_00 unicode_escape_ascii [OF assms(5), simplified]]) (use assms in \<open>simp_all add: token_def\<close>)
  show ?thesis
    by (rule tokenI [of _ "CHR 0x5C # CHR ''u'' # CHR ''0'' # CHR ''0'' # hex_digit (byte c div 16) # hex_digit (byte c mod 16) # strip_string u"])
       (use assms True scan in \<open>auto simp: token_def strip_string.simps intro: scan_ascii\<close>)
next
  case False
  have "byte c \<noteq> 34" "byte c \<noteq> 92" using assms(2,3) by (metis byte_simps char_of_byte)+
  with False assms(5) have "strip_string (c # s) = c # strip_string s" for s
    by (intro strip_string_plain) auto
  with assms show ?thesis
    by (intro tokenI [of _ "c # strip_string u"]) (auto simp: token_def intro: scan_ascii)
qed

lemma strip_string_rune:
  assumes "128 \<le> byte c" and "\<not> is_line_sep (c # s)"
  shows "strip_string (c # s) = c # strip_string s"
proof -
  have "c \<noteq> CHR 0x22" "c \<noteq> CHR 0x5C" using assms(1) by force+
  with assms show ?thesis by (simp add: strip_string.simps)
qed

lemma is_line_sep_width: "is_line_sep s \<Longrightarrow> rune_width s = 3"
  by (auto simp: is_line_sep_def rune_width.simps width2_def width3_def cont_def split: list.splits)

text \<open>A quote in the text fixes the width of a rune in front of it.\<close>

lemma rune_width_quote: "CHR 0x22 \<in> set u \<Longrightarrow> rune_width (c # u @ r) = rune_width (c # u)"
  using rune_width_append [of "CHR 0x22" "c # u" r] by simp

lemma token_width:
  assumes "token u x" and "128 \<le> byte c"
  shows "rune_width (c # strip_string u @ r) = rune_width (c # u)"
proof -
  have "rune_width (c # strip_string u @ r) = rune_width (c # strip_string (u @ []))"
    using assms(1) by (simp add: token_def rune_width_quote)
  with assms(2) show ?thesis by (simp add: rune_width_strip)
qed

lemma token_bad:
  assumes "token u x" and "128 \<le> byte c" and "rune_width (c # u) = 0"
  shows "token (c # u) (RuneError @ x)"
proof (rule tokenI [of _ "c # strip_string u"])
  have w: "rune_width (c # u @ r) = 0" for r using assms by (simp add: token_def rune_width_quote)
  then show "scan ((c # u) @ r) (RuneError @ x) r" for r using assms by (auto simp: token_def intro: scan_bad)
  show "strip_string ((c # u) @ r) = (c # strip_string u) @ strip_json r" for r
    using strip_string_rune [OF assms(2), of "u @ r"] is_line_sep_width [of "c # u @ r"] w [of r] assms(1)
    by (auto simp: token_def)
  show "scan ((c # strip_string u) @ r) (RuneError @ x) r" for r
    using assms token_width [OF assms(1,2)] by (auto simp: token_def intro: scan_bad)
qed (use assms in \<open>auto simp: token_def\<close>)

lemma scan_rune_at:
  assumes "128 \<le> byte c" and "rune_width (c # p @ s) = Suc (length p)" and "scan s x r"
  shows "scan (c # p @ s) (c # p @ x) r"
  using scan_rune [OF assms(1), of "p @ s" x r] assms(2,3) by simp

lemma line_sep_escape:
  assumes "byte a = 226" and "byte b = 128" and "byte d = 168 \<or> byte d = 169"
  shows "unicode_escape (8224 + byte d mod 16) v = ([a, b, d], v)"
proof -
  have "a = char_of (226::nat)" "b = char_of (128::nat)" "d = char_of (168::nat) \<or> d = char_of (169::nat)"
    using assms char_of_byte by metis+
  then show ?thesis by (auto simp: unicode_escape_def encode_rune_def)
qed

lemma token_rune:
  assumes u: "token u x" and c: "128 \<le> byte c" and w: "rune_width (c # p @ u) = Suc (length p)"
  shows "token (c # p @ u) (c # p @ x)"
proof -
  have wr: "rune_width (c # p @ u @ r) = Suc (length p)" for r
    using rune_width_quote [of "p @ u" c r] u w by (simp add: token_def)
  have scan_r: "scan (c # p @ u @ r) (c # p @ x) r" for r
    using scan_rune_at [OF c wr] u by (simp add: token_def)
  show ?thesis
  proof (cases "is_line_sep (c # p @ u)")
    case True
    then obtain b d where p: "p = [b, d]" "byte c = 226" "byte b = 128" "byte d = 168 \<or> byte d = 169"
      using is_line_sep_width [OF True] w by (cases p; cases "tl p") (auto simp: is_line_sep_def)
    let ?s = "CHR 0x5C # CHR ''u'' # CHR ''2'' # CHR ''0'' # CHR ''2'' # hex_digit (byte d mod 16) # strip_string u"
    have "unicode_escape (8224 + byte d mod 16) v = (c # p, v)" for v
      using line_sep_escape [OF p(2-4)] p(1) by simp
    then have "scan (?s @ r) ((c # p) @ x) r" for r
      using scan_unicode [OF hex4_202, of "byte d mod 16" "strip_string u @ r" "c # p" "strip_string u @ r" x r] u
      by (simp add: token_def)
    moreover have "strip_string (c # p @ u @ r) = ?s @ strip_json r" for r
    proof -
      have "c \<noteq> CHR 0x22" "c \<noteq> CHR 0x5C" "is_line_sep (c # p @ u @ r)" using p by (auto simp: is_line_sep_def)
      with u p show ?thesis by (simp add: strip_string.simps token_def)
    qed
    ultimately show ?thesis
      using scan_r u by (intro tokenI [of _ ?s]) (auto simp: token_def)
  next
    case False
    have nls: "\<not> is_line_sep (c # p @ u @ r)" for r
    proof
      assume l: "is_line_sep (c # p @ u @ r)"
      from is_line_sep_width [OF l] wr have "length p = 2" by simp
      then obtain b d where "p = [b, d]" by (auto simp: length_Suc_conv numeral_2_eq_2)
      with l False show False by (simp add: is_line_sep_def)
    qed
    have inert: "strip_string (p @ u @ r) = p @ strip_string (u @ r)" for r
    proof -
      have "length p \<le> length (takeWhile (\<lambda>b. cont (byte b)) (p @ u @ r))"
        using rune_width_bound [OF c, of "p @ u @ r"] wr by simp
      from take_drop_strip_string [OF this] show ?thesis by (metis append_take_drop_id append_eq_conv_conj)
    qed
    have strip: "strip_string (c # p @ u @ r) = c # p @ strip_string u @ strip_json r" for r
      using strip_string_rune [OF c nls] inert u by (simp add: token_def)
    have "rune_width (c # p @ strip_string u @ r) = Suc (length p)" for r
      using rune_width_quote [of "p @ strip_string u" c r] rune_width_strip [OF c, of "p @ u"] inert [of "[]"] u w
      by (simp add: token_def)
    then have "scan (c # p @ strip_string u @ r) (c # p @ x) r" for r
      using scan_rune_at [OF c] u by (simp add: token_def)
    with strip show ?thesis
      using scan_r u by (intro tokenI [of _ "c # p @ strip_string u"]) (auto simp: token_def)
  qed
qed

text \<open>Whatever is read as a string is a token.\<close>

lemma scan_token: "scan s x r \<Longrightarrow> \<exists>u. s = u @ r \<and> token u x"
proof (induction rule: scan.induct)
  case (scan_quote r)
  show ?case by (rule exI [of _ "[CHR 0x22]"]) (simp add: token_quote)
next
  case (scan_unicode u q v y w x r)
  then obtain w1 where w: "w = w1 @ r" "token w1 x" by blast
  from scan_unicode(1) obtain h where h: "u = h @ v" "\<forall>c\<in>set h. hex_char c" "\<forall>v'. hex4 (h @ v') = Some (q, v')"
    by (rule hex4_split)
  from token_unicode [OF w(2) h(2,3), of v y r] scan_unicode(2) w(1) obtain p
    where "v = p @ w1 @ r" "token (CHR 0x5C # CHR ''u'' # h @ p @ w1) (y @ x)" by auto
  with h(1) show ?case by (intro exI [of _ "CHR 0x5C # CHR ''u'' # h @ p @ w1"]) simp
next
  case (scan_escape e d u x r)
  then show ?case by (auto intro: token_escape exI [of _ "CHR 0x5C # e # _"])
next
  case (scan_ascii c t x r)
  then obtain u where "t = u @ r" "token u x" by blast
  with token_ascii [of u x c] scan_ascii show ?case by (intro exI [of _ "c # u"]) simp
next
  case (scan_bad c t x r)
  then obtain u where u: "t = u @ r" "token u x" by blast
  with scan_bad(2) have "rune_width (c # u) = 0" by (simp add: token_def rune_width_quote)
  with token_bad [OF u(2) scan_bad(1)] u(1) show ?case by (intro exI [of _ "c # u"]) simp
next
  case (scan_rune c t x r)
  let ?w = "rune_width (c # t)"
  from scan_rune obtain u where u: "drop ?w (c # t) = u @ r" "token u x" by blast
  obtain p where p: "take ?w (c # t) = c # p" using scan_rune(2) by (cases ?w) auto
  have t: "t = p @ u @ r" using append_take_drop_id [of ?w "c # t"] unfolding u p by simp
  have len: "?w = Suc (length p)"
    using rune_width_le [of "c # t"] arg_cong [OF p, of length] by simp
  have "rune_width (c # p @ u) = Suc (length p)"
    using rune_width_quote [of "p @ u" c r] u(2) len t by (simp add: token_def)
  from token_rune [OF u(2) scan_rune(1) this] t show ?case
    unfolding p by (intro exI [of _ "c # p @ u"]) simp
qed

section \<open>Number tokens\<close>

text \<open>The front of a text, tested for a character that would go on with a number.\<close>

definition front :: "(char \<Rightarrow> bool) \<Rightarrow> string \<Rightarrow> bool" where
  "front P t \<longleftrightarrow> (case t of [] \<Rightarrow> False | c # _ \<Rightarrow> P c)"

lemma front_simps [simp]: "\<not> front P []" "front P (c # t) = P c"
  by (simp_all add: front_def)

lemma front_append [simp]: "front P (u @ t) \<longleftrightarrow> (if u = [] then front P t else front P u)"
  by (cases u) simp_all

abbreviation exp_char :: "char \<Rightarrow> bool" where
  "exp_char c \<equiv> c = CHR ''e'' \<or> c = CHR ''E''"

definition num_char :: "char \<Rightarrow> bool" where
  "num_char c \<longleftrightarrow> is_digit c \<or> exp_char c \<or> c = CHR ''.'' \<or> c = CHR ''+'' \<or> c = CHR ''-''"

lemma skip_digits_split:
  assumes "skip_digits s = Some r"
  obtains u where "s = u @ r" "front is_digit u" "\<forall>c\<in>set u. num_char c" "\<forall>t. \<not> front is_digit t \<longrightarrow> skip_digits (u @ t) = Some t"
proof -
  from assms obtain c t where s: "s = c # t" "is_digit c" "r = dropWhile is_digit t"
    by (auto simp: skip_digits_def split: list.splits if_splits)
  have "dropWhile is_digit t = t" if "\<not> front is_digit t" for t
    using that by (cases t) auto
  moreover have "\<forall>x\<in>set (takeWhile is_digit t). is_digit x" by (auto dest: set_takeWhileD)
  ultimately show thesis
    using s by (intro that [of "c # takeWhile is_digit t"]) (auto simp: skip_digits_def num_char_def dropWhile_append1 dropWhile_append2)
qed

lemma skip_int_split:
  assumes "skip_int s = Some r"
  obtains u where "s = u @ r" "front is_digit u" "\<forall>c\<in>set u. num_char c" "\<forall>t. \<not> front is_digit t \<longrightarrow> skip_int (u @ t) = Some t"
proof (cases "front (\<lambda>c. c = CHR ''0'') s")
  case True
  with assms that [of "''0''"] show thesis by (cases s) (auto simp: skip_int_def num_char_def is_digit_def byte_def)
next
  case False
  then have "skip_digits s = Some r" using assms by (cases s) (auto simp: skip_int_def)
  then obtain u where u: "s = u @ r" "front is_digit u" "\<forall>c\<in>set u. num_char c" "\<forall>t. \<not> front is_digit t \<longrightarrow> skip_digits (u @ t) = Some t"
    by (rule skip_digits_split)
  then obtain c v where "u = c # v" "c \<noteq> CHR ''0''" using False by (cases u) auto
  with u show thesis by (intro that [of u]) (auto simp: skip_int_def)
qed

lemma skip_frac_split:
  assumes "skip_frac s = Some r"
  obtains u where "s = u @ r" "u \<noteq> [] \<longrightarrow> front (\<lambda>c. c = CHR ''.'') u" "\<forall>c\<in>set u. num_char c"
    "\<forall>t. \<not> front (\<lambda>c. is_digit c \<or> c = CHR ''.'') t \<longrightarrow> skip_frac (u @ t) = Some t"
proof (cases "front (\<lambda>c. c = CHR ''.'') s")
  case True
  then obtain t where s: "s = CHR ''.'' # t" by (cases s) auto
  with assms have "skip_digits t = Some r" by (simp add: skip_frac_def)
  then obtain u where u: "t = u @ r" "\<forall>c\<in>set u. num_char c" "\<forall>t. \<not> front is_digit t \<longrightarrow> skip_digits (u @ t) = Some t"
    by (rule skip_digits_split)
  then have "\<forall>t. \<not> front (\<lambda>c. is_digit c \<or> c = CHR ''.'') t \<longrightarrow> skip_digits (u @ t) = Some t"
    by (auto simp: front_def split: list.splits)
  with s u show thesis by (intro that [of "CHR ''.'' # u"]) (auto simp: skip_frac_def num_char_def)
next
  case False
  with assms have "r = s" by (cases s) (auto simp: skip_frac_def)
  then show thesis by (intro that [of "[]"]) (auto simp: skip_frac_def split: list.splits)
qed

lemma skip_exp_split:
  assumes "skip_exp s = Some r"
  obtains u where "s = u @ r" "u \<noteq> [] \<longrightarrow> front exp_char u" "\<forall>c\<in>set u. num_char c"
    "\<forall>t. \<not> front (\<lambda>c. is_digit c \<or> exp_char c) t \<longrightarrow> skip_exp (u @ t) = Some t"
proof (cases "front exp_char s")
  case True
  then obtain c t where s: "s = c # t" "exp_char c" by (cases s) auto
  with assms have d: "skip_digits (skip_sign t) = Some r" by (auto simp: skip_exp_def)
  obtain g where g: "t = g @ skip_sign t" "\<forall>c\<in>set g. num_char c" "\<forall>v. front is_digit v \<longrightarrow> skip_sign (g @ v) = v"
  proof (cases "front (\<lambda>c. c = CHR ''+'' \<or> c = CHR ''-'') t")
    case True
    then obtain c v where "t = c # v" "c = CHR ''+'' \<or> c = CHR ''-''" by (cases t) auto
    then show thesis by (intro that [of "[c]"]) (auto simp: skip_sign_def num_char_def)
  next
    case False
    then show thesis
      by (intro that [of "[]"]) (auto simp: skip_sign_def is_digit_def byte_def split: list.splits)
  qed
  from d obtain u where u: "skip_sign t = u @ r" "front is_digit u" "\<forall>c\<in>set u. num_char c"
    "\<forall>t. \<not> front is_digit t \<longrightarrow> skip_digits (u @ t) = Some t" by (rule skip_digits_split)
  then have "\<forall>t. \<not> front (\<lambda>c. is_digit c \<or> exp_char c) t \<longrightarrow> skip_digits (skip_sign (g @ u @ t)) = Some t"
    using g(3) by (auto simp: front_def split: list.splits)
  with s g u show thesis
    by (intro that [of "c # g @ u"]) (auto simp: skip_exp_def num_char_def)
next
  case False
  with assms have "r = s" by (cases s) (auto simp: skip_exp_def)
  then show thesis by (intro that [of "[]"]) (auto simp: skip_exp_def split: list.splits)
qed

lemma front_less: "\<not> front P t \<Longrightarrow> (\<And>c. Q c \<Longrightarrow> P c) \<Longrightarrow> \<not> front Q t"
  by (cases t) auto

lemma skip_number_split:
  assumes "skip_number s = Some r"
  obtains u where "s = u @ r" "front (\<lambda>c. is_digit c \<or> c = CHR ''-'') u" "\<forall>c\<in>set u. num_char c"
    "\<forall>t. \<not> front num_char t \<longrightarrow> skip_number (u @ t) = Some t"
proof -
  from assms obtain s1 s2 where run: "skip_int (skip_minus s) = Some s1" "skip_frac s1 = Some s2" "skip_exp s2 = Some r"
    by (auto simp: skip_number_def bind_eq_Some_conv)
  from run(1) obtain u1 where u1: "skip_minus s = u1 @ s1" "front is_digit u1" "\<forall>c\<in>set u1. num_char c"
    "\<forall>t. \<not> front is_digit t \<longrightarrow> skip_int (u1 @ t) = Some t" by (rule skip_int_split)
  from run(2) obtain u2 where u2: "s1 = u2 @ s2" "u2 \<noteq> [] \<longrightarrow> front (\<lambda>c. c = CHR ''.'') u2" "\<forall>c\<in>set u2. num_char c"
    "\<forall>t. \<not> front (\<lambda>c. is_digit c \<or> c = CHR ''.'') t \<longrightarrow> skip_frac (u2 @ t) = Some t" by (rule skip_frac_split)
  from run(3) obtain u3 where u3: "s2 = u3 @ r" "u3 \<noteq> [] \<longrightarrow> front exp_char u3" "\<forall>c\<in>set u3. num_char c"
    "\<forall>t. \<not> front (\<lambda>c. is_digit c \<or> exp_char c) t \<longrightarrow> skip_exp (u3 @ t) = Some t" by (rule skip_exp_split)
  obtain g where g: "s = g @ skip_minus s" "g = [] \<or> g = ''-''" "\<forall>v. front is_digit v \<longrightarrow> skip_minus (g @ v) = v"
  proof (cases "front (\<lambda>c. c = CHR ''-'') s")
    case True
    then obtain v where "s = CHR ''-'' # v" by (cases s) auto
    then show thesis by (intro that [of "''-''"]) (auto simp: skip_minus_def)
  next
    case False
    then show thesis by (intro that [of "[]"]) (auto simp: skip_minus_def is_digit_def byte_def split: list.splits)
  qed
  have "skip_number ((g @ u1 @ u2 @ u3) @ t) = Some t" if "\<not> front num_char t" for t
  proof -
    have t: "\<not> front is_digit t" "\<not> front (\<lambda>c. c = CHR ''.'') t" "\<not> front (\<lambda>c. is_digit c \<or> exp_char c) t"
      by (rule front_less [OF that]; auto simp: num_char_def)+
    then have "skip_exp (u3 @ t) = Some t" using u3(4) by blast
    moreover have "\<not> front (\<lambda>c. is_digit c \<or> c = CHR ''.'') (u3 @ t)"
      using u3(2) t by (cases u3; cases t) (auto simp: is_digit_def byte_def)
    then have "skip_frac (u2 @ u3 @ t) = Some (u3 @ t)" using u2(4) by blast
    moreover have "\<not> front is_digit (u2 @ u3 @ t)"
      using u2(2) u3(2) t by (cases u2; cases u3) (auto simp: is_digit_def byte_def)
    then have "skip_int (u1 @ u2 @ u3 @ t) = Some (u2 @ u3 @ t)" using u1(4) by blast
    moreover have "front is_digit (u1 @ u2 @ u3 @ t)" using u1(2) by (cases u1) auto
    then have "skip_minus (g @ u1 @ u2 @ u3 @ t) = u1 @ u2 @ u3 @ t" using g(3) by blast
    ultimately show ?thesis by (simp add: skip_number_def)
  qed
  with g u1 u2 u3 show thesis
    by (intro that [of "g @ u1 @ u2 @ u3"]) (cases u1; auto simp: num_char_def)+
qed

section \<open>Value texts\<close>

text \<open>What may follow a value inside a JSON text.\<close>

definition delim :: "string \<Rightarrow> bool" where
  "delim t \<longleftrightarrow> t = [] \<or> hd t = CHR '','' \<or> hd t = CHR '']'' \<or> hd t = CHR ''}''"

text \<open>
  \<open>u\<close> is read as \<open>v\<close> in front of any delimiter, with any fuel from twice its length less
  one; \<open>compacts\<close> says in addition that compaction acts on \<open>u\<close> by itself and leaves a
  value text.
\<close>

definition value_text :: "int \<Rightarrow> string \<Rightarrow> json \<Rightarrow> bool" where
  "value_text d u v \<longleftrightarrow> u \<noteq> [] \<and> \<not> is_ws (hd u) \<and>
     (\<forall>n t. delim (skip_ws t) \<longrightarrow> 2 * length u \<le> n + 1 \<longrightarrow> parse_value n d (u @ t) = Some (v, t))"

definition compacts :: "int \<Rightarrow> string \<Rightarrow> json \<Rightarrow> bool" where
  "compacts d u v \<longleftrightarrow> value_text d u v \<and> (\<forall>t. strip_json (u @ t) = strip_json u @ strip_json t) \<and>
     (\<exists>v'. value_text d (strip_json u) v')"

lemma skip_ws_id: "u \<noteq> [] \<Longrightarrow> \<not> is_ws (hd u) \<Longrightarrow> skip_ws (u @ t) = u @ t"
  by (cases u) (simp_all add: skip_ws_def)

lemma delim_front: "delim (skip_ws t) \<Longrightarrow> \<not> front num_char t"
  by (cases t) (auto simp: delim_def skip_ws_def num_char_def is_ws_def is_digit_def byte_def split: if_splits)

lemma value_textD:
  "value_text d u v \<Longrightarrow> delim (skip_ws t) \<Longrightarrow> 2 * length u \<le> n + 1 \<Longrightarrow> parse_value n d (u @ t) = Some (v, t)"
  by (simp add: value_text_def)

definition ws :: "string \<Rightarrow> bool" where
  "ws w \<longleftrightarrow> (\<forall>c\<in>set w. is_ws c)"

lemma ws_Nil [simp]: "ws []"
  by (simp add: ws_def)

lemma skip_ws_ws [simp]: "ws w \<Longrightarrow> skip_ws (w @ t) = skip_ws t"
  by (simp add: ws_def skip_ws_def dropWhile_append2)

lemma skip_ws_Cons [simp]: "skip_ws (c # t) = (if is_ws c then skip_ws t else c # t)"
  by (simp add: skip_ws_def)

lemma skip_ws_split:
  obtains w where "s = w @ skip_ws s" "ws w"
  by (rule that [of "takeWhile is_ws s"]) (auto simp: skip_ws_def ws_def dest: set_takeWhileD)

lemma skip_ws_split_Cons:
  assumes "skip_ws s = c # t"
  obtains w where "s = w @ c # t" "ws w" "\<not> is_ws c"
proof -
  obtain w where "s = w @ skip_ws s" "ws w" by (rule skip_ws_split)
  moreover have "\<not> is_ws c" using assms hd_dropWhile [of is_ws s] by (auto simp: skip_ws_def)
  ultimately show thesis using that assms by metis
qed

lemma punctuation [simp]:
  "\<not> is_ws (CHR '','')" "\<not> is_ws (CHR ''['')" "\<not> is_ws (CHR '']'')" "\<not> is_ws (CHR ''{'')" "\<not> is_ws (CHR ''}'')"
  "\<not> is_ws (CHR '':'')" "\<not> is_ws (CHR 0x22)"
  by (simp_all add: is_ws_def byte_def)

lemma strip_json_ws [simp]: "ws w \<Longrightarrow> strip_json (w @ t) = strip_json t"
  by (induction w) (simp_all add: ws_def)

lemma strip_json_other: "\<not> is_ws c \<Longrightarrow> c \<noteq> CHR 0x22 \<Longrightarrow> strip_json (c # s) = c # strip_json s"
  by simp

declare strip_json.simps(2) [simp del]

lemma strip_json_quote [simp]: "strip_json (CHR 0x22 # s) = CHR 0x22 # strip_string s"
  by (simp add: strip_json.simps)

lemma strip_json_punctuation [simp]:
  "strip_json (CHR '','' # s) = CHR '','' # strip_json s" "strip_json (CHR ''['' # s) = CHR ''['' # strip_json s"
  "strip_json (CHR '']'' # s) = CHR '']'' # strip_json s" "strip_json (CHR ''{'' # s) = CHR ''{'' # strip_json s"
  "strip_json (CHR ''}'' # s) = CHR ''}'' # strip_json s" "strip_json (CHR '':'' # s) = CHR '':'' # strip_json s"
  by (simp_all add: strip_json_other)

lemma strip_json_hd: "u \<noteq> [] \<Longrightarrow> \<not> is_ws (hd u) \<Longrightarrow> strip_json u \<noteq> [] \<and> hd (strip_json u) = hd u"
  by (cases u) (auto simp: strip_json.simps)

lemma delim_punctuation [simp]: "delim (CHR '','' # t)" "delim (CHR '']'' # t)" "delim (CHR ''}'' # t)"
  by (simp_all add: delim_def)

subsection \<open>Strings, numbers and literals\<close>

lemma string_value: "\<forall>r. scan (u @ r) x r \<Longrightarrow> value_text d (CHR 0x22 # u) (JString x)"
  unfolding value_text_def
  by (intro conjI allI impI) (auto simp: unquote_body_iff gr0_conv_Suc split: nat.splits elim!: allE [of _ "_ - 1 :: nat"] dest!: Suc_le_D)

lemma string_compacts: "token u x \<Longrightarrow> compacts d (CHR 0x22 # u) (JString x)"
  by (auto simp: compacts_def token_def intro: string_value)

lemma strip_json_plain: "\<forall>c\<in>set u. \<not> is_ws c \<and> c \<noteq> CHR 0x22 \<Longrightarrow> strip_json (u @ t) = u @ strip_json t"
  by (induction u) (simp_all add: strip_json_other)

text \<open>A text without quotes and white space is its own compact form.\<close>

lemma plain_compacts:
  assumes "value_text d u v" and "\<forall>c\<in>set u. \<not> is_ws c \<and> c \<noteq> CHR 0x22"
  shows "compacts d u v"
  using assms strip_json_plain [OF assms(2)] strip_json_plain [OF assms(2), of "[]"] by (auto simp: compacts_def)

lemma literal_value:
  assumes "u \<noteq> []" and "hd u \<notin> {CHR ''{'', CHR ''['', CHR 0x22}" and "\<not> is_ws (hd u)"
    and "\<And>t. delim (skip_ws t) \<Longrightarrow> literal (u @ t) = Some (v, t)"
  shows "value_text d u v"
  unfolding value_text_def
proof (intro conjI allI impI)
  fix n :: nat and t
  assume t: "delim (skip_ws t)" and n: "2 * length u \<le> n + 1"
  then obtain m where "n = Suc m" using assms(1) by (cases n; cases u) auto
  then show "parse_value n d (u @ t) = Some (v, t)" using assms(1,2) assms(4) [OF t] by (cases u) auto
qed (use assms in auto)

lemma HasPrefix_append [simp]: "HasPrefix (p @ t) p"
  by (simp add: HasPrefix_def)

lemma HasPrefix_hd: "HasPrefix (u @ t) p \<Longrightarrow> u \<noteq> [] \<Longrightarrow> p \<noteq> [] \<Longrightarrow> hd u = hd p"
  by (cases u; cases p) (auto simp: HasPrefix_def)

lemma literal_words:
  "literal (''null'' @ t) = Some (JNull, t)" "literal (''true'' @ t) = Some (JBool True, t)"
  "literal (''false'' @ t) = Some (JBool False, t)"
  by (simp_all add: literal_def HasPrefix_def)

lemma number_value:
  assumes "skip_number s = Some r" and "delim (skip_ws r)"
  shows "\<exists>u. s = u @ r \<and> compacts d u (JNumber u)"
proof -
  from assms(1) obtain u where u: "s = u @ r" "front (\<lambda>c. is_digit c \<or> c = CHR ''-'') u" "\<forall>c\<in>set u. num_char c"
    "\<forall>t. \<not> front num_char t \<longrightarrow> skip_number (u @ t) = Some t" by (rule skip_number_split)
  then have hd: "u \<noteq> []" "is_digit (hd u) \<or> hd u = CHR ''-''" by (cases u; simp)+
  have "literal (u @ t) = Some (JNumber u, t)" if "delim (skip_ws t)" for t
    using u(4) delim_front [OF that] hd HasPrefix_hd [of u t]
    by (fastforce simp: literal_def is_digit_def byte_def)
  moreover have "\<not> is_ws c \<and> c \<noteq> CHR 0x22" if "num_char c" for c
    using that by (auto simp: num_char_def is_ws_def is_digit_def byte_def)
  ultimately have "compacts d u (JNumber u)"
    using u(3) hd by (intro plain_compacts literal_value) (auto simp: is_digit_def byte_def)
  with u(1) show ?thesis by blast
qed

lemma literal_compacts:
  assumes "literal s = Some (v, r)" and "delim (skip_ws r)"
  shows "\<exists>u. s = u @ r \<and> compacts d u v"
proof -
  have word: "compacts d u w" if "\<And>t. literal (u @ t) = Some (w, t)" "\<forall>c\<in>set u. \<not> is_ws c \<and> c \<noteq> CHR 0x22 \<and> c \<noteq> CHR ''{'' \<and> c \<noteq> CHR ''[''" "u \<noteq> []" for u w
    by (rule plain_compacts, rule literal_value) (use that in auto)
  have words: "compacts d ''null'' JNull" "compacts d ''true'' (JBool True)" "compacts d ''false'' (JBool False)"
    using literal_words by (auto intro!: word simp: is_ws_def byte_def)
  have by_word: ?thesis if "HasPrefix s p" "drop (length p) s = r" "compacts d p v" for p
    using that by (metis HasPrefix_def append_take_drop_id)
  consider "HasPrefix s ''null''" | "\<not> HasPrefix s ''null''" "HasPrefix s ''true''"
    | "\<not> HasPrefix s ''null''" "\<not> HasPrefix s ''true''" "HasPrefix s ''false''"
    | "\<not> HasPrefix s ''null''" "\<not> HasPrefix s ''true''" "\<not> HasPrefix s ''false''" by blast
  then show ?thesis
  proof cases
    case 1
    with assms(1) words(1) by_word [of "''null''"] show ?thesis by (simp add: literal_def eval_nat_numeral)
  next
    case 2
    with assms(1) words(2) by_word [of "''true''"] show ?thesis by (simp add: literal_def eval_nat_numeral)
  next
    case 3
    with assms(1) words(3) by_word [of "''false''"] show ?thesis by (simp add: literal_def eval_nat_numeral)
  next
    case 4
    then have "skip_number s = Some r" "v = JNumber (take (length s - length r) s)" using assms(1) by (auto simp: literal_def)
    with number_value [OF this(1) assms(2), of d] show ?thesis by auto
  qed
qed

subsection \<open>Arrays\<close>

definition elems_text :: "int \<Rightarrow> string \<Rightarrow> json list \<Rightarrow> bool" where
  "elems_text d u xs \<longleftrightarrow> u \<noteq> [] \<and> \<not> is_ws (hd u) \<and> (\<forall>n t. 2 * length u \<le> n \<longrightarrow> parse_elems n d (u @ t) = Some (xs, t))"

lemma elems_last:
  assumes "value_text d u x" and "ws w"
  shows "elems_text d (u @ w @ '']'') [x]"
  unfolding elems_text_def
proof (intro conjI allI impI)
  fix n :: nat and t
  assume n: "2 * length (u @ w @ '']'') \<le> n"
  then obtain m where m: "n = Suc m" by (cases n) auto
  have "parse_value m d (u @ w @ '']'' @ t) = Some (x, w @ '']'' @ t)"
    using assms n m by (intro value_textD) auto
  with assms(2) show "parse_elems n d ((u @ w @ '']'') @ t) = Some ([x], t)" by (simp add: m)
qed (use assms in \<open>auto simp: value_text_def\<close>)

lemma elems_more:
  assumes "value_text d u x" and "ws w" and "ws w2" and "elems_text d e xs"
  shows "elems_text d (u @ w @ '','' @ w2 @ e) (x # xs)"
  unfolding elems_text_def
proof (intro conjI allI impI)
  fix n :: nat and t
  assume n: "2 * length (u @ w @ '','' @ w2 @ e) \<le> n"
  then obtain m where m: "n = Suc m" by (cases n) auto
  have "parse_value m d (u @ w @ '','' @ w2 @ e @ t) = Some (x, w @ '','' @ w2 @ e @ t)"
    using assms n m by (intro value_textD) auto
  moreover have "skip_ws (w2 @ e @ t) = e @ t" using assms(3,4) skip_ws_id [of e t] by (simp add: elems_text_def)
  moreover have "parse_elems m d (e @ t) = Some (xs, t)" using assms(4) n m by (simp add: elems_text_def)
  ultimately show "parse_elems n d ((u @ w @ '','' @ w2 @ e) @ t) = Some (x # xs, t)"
    using assms(2) by (simp add: m)
qed (use assms in \<open>auto simp: value_text_def\<close>)

lemma array_value:
  assumes "elems_text (d - 1) e xs" and "hd e \<noteq> CHR '']''" and "0 < d" and "ws w"
  shows "value_text d (''['' @ w @ e) (JArray xs)"
  unfolding value_text_def
proof (intro conjI allI impI)
  fix n :: nat and t
  assume n: "2 * length (''['' @ w @ e) \<le> n + 1"
  have e: "e \<noteq> []" "skip_ws (w @ e @ t) = e @ t" using assms skip_ws_id [of e t] by (auto simp: elems_text_def)
  with n obtain m where m: "n = Suc m" by (cases n; cases e) auto
  have "parse_elems m (d - 1) (e @ t) = Some (xs, t)" using assms(1) n m by (simp add: elems_text_def)
  with e assms(2,3) show "parse_value n d ((''['' @ w @ e) @ t) = Some (JArray xs, t)"
    by (cases e) (auto simp: m)
qed simp_all

lemma empty_array_value: "0 < d \<Longrightarrow> ws w \<Longrightarrow> value_text d (''['' @ w @ '']'') (JArray [])"
  by (auto simp: value_text_def split: nat.split elim!: Suc_le_D [elim_format])

subsection \<open>Objects\<close>

definition members_text :: "int \<Rightarrow> string \<Rightarrow> (string \<times> string \<times> json) list \<Rightarrow> bool" where
  "members_text d u ms \<longleftrightarrow> u \<noteq> [] \<and> hd u = CHR 0x22 \<and>
     (\<forall>n t. 2 * length u \<le> n \<longrightarrow> parse_members n d (u @ t) = Some (ms, t))"

text \<open>One member, up to what follows its value.\<close>

lemma parse_member:
  assumes "\<forall>r. scan (kt @ r) k r" and "ws w1" and "ws w2" and "value_text d u x" and "delim (skip_ws r)"
    and "2 * length u \<le> m + 1"
  shows "parse_members (Suc m) d (CHR 0x22 # kt @ w1 @ CHR '':'' # w2 @ u @ r) =
    (case skip_ws r of
       [] \<Rightarrow> None
     | e # w \<Rightarrow>
         if e = CHR ''}'' then Some ([(k, u, x)], w)
         else if e = CHR '','' then map_option (\<lambda>(ms, y). ((k, u, x) # ms, y)) (parse_members m d (skip_ws w))
         else None)"
proof -
  have "unquote_body (kt @ w1 @ CHR '':'' # w2 @ u @ r) = Some (k, w1 @ CHR '':'' # w2 @ u @ r)"
    using assms(1) by (simp add: unquote_body_iff)
  moreover have "skip_ws (w2 @ u @ r) = u @ r" using assms(3,4) skip_ws_id [of u r] by (simp add: value_text_def)
  moreover have "parse_value m d (u @ r) = Some (x, r)" using assms(4-6) by (intro value_textD) auto
  ultimately show ?thesis using assms(2) by (simp add: Let_def split: list.split)
qed

lemma members_last:
  assumes "\<forall>r. scan (kt @ r) k r" and "ws w1" and "ws w2" and "value_text d u x" and "ws w3"
  shows "members_text d (CHR 0x22 # kt @ w1 @ CHR '':'' # w2 @ u @ w3 @ ''}'') [(k, u, x)]"
  unfolding members_text_def
proof (intro conjI allI impI)
  fix n :: nat and t
  assume n: "2 * length (CHR 0x22 # kt @ w1 @ CHR '':'' # w2 @ u @ w3 @ ''}'') \<le> n"
  then obtain m where m: "n = Suc m" by (cases n) auto
  show "parse_members n d ((CHR 0x22 # kt @ w1 @ CHR '':'' # w2 @ u @ w3 @ ''}'') @ t) = Some ([(k, u, x)], t)"
    using parse_member [OF assms(1-4), of "w3 @ ''}'' @ t" m] assms(5) n m by simp
qed simp_all

lemma members_more:
  assumes "\<forall>r. scan (kt @ r) k r" and "ws w1" and "ws w2" and "value_text d u x" and "ws w3" and "ws w4"
    and "members_text d e ms"
  shows "members_text d (CHR 0x22 # kt @ w1 @ CHR '':'' # w2 @ u @ w3 @ CHR '','' # w4 @ e) ((k, u, x) # ms)"
  unfolding members_text_def
proof (intro conjI allI impI)
  fix n :: nat and t
  assume n: "2 * length (CHR 0x22 # kt @ w1 @ CHR '':'' # w2 @ u @ w3 @ CHR '','' # w4 @ e) \<le> n"
  then obtain m where m: "n = Suc m" by (cases n) auto
  have "skip_ws (w4 @ e @ t) = e @ t" "parse_members m d (e @ t) = Some (ms, t)"
    using assms(6,7) skip_ws_id [of e t] n m by (auto simp: members_text_def)
  then show "parse_members n d ((CHR 0x22 # kt @ w1 @ CHR '':'' # w2 @ u @ w3 @ CHR '','' # w4 @ e) @ t) = Some ((k, u, x) # ms, t)"
    using parse_member [OF assms(1-4), of "w3 @ CHR '','' # w4 @ e @ t" m] assms(5) n m by simp
qed simp_all

lemma object_value:
  assumes "members_text (d - 1) e ms" and "0 < d" and "ws w"
  shows "value_text d (''{'' @ w @ e) (JObject ms)"
  unfolding value_text_def
proof (intro conjI allI impI)
  fix n :: nat and t
  assume n: "2 * length (''{'' @ w @ e) \<le> n + 1"
  have e: "e \<noteq> []" "hd e = CHR 0x22" "skip_ws (w @ e @ t) = e @ t"
    using assms skip_ws_id [of e t] by (auto simp: members_text_def)
  with n obtain m where m: "n = Suc m" by (cases n; cases e) auto
  have "parse_members m (d - 1) (e @ t) = Some (ms, t)" using assms(1) n m by (simp add: members_text_def)
  with e assms(2) show "parse_value n d ((''{'' @ w @ e) @ t) = Some (JObject ms, t)"
    by (cases e) (auto simp: m)
qed simp_all

lemma empty_object_value: "0 < d \<Longrightarrow> ws w \<Longrightarrow> value_text d (''{'' @ w @ ''}'') (JObject [])"
  by (auto simp: value_text_def split: nat.split elim!: Suc_le_D [elim_format])

subsection \<open>Whatever is read as a value is a value text\<close>

definition self_strip :: "string \<Rightarrow> bool" where
  "self_strip u \<longleftrightarrow> (\<forall>t. strip_json (u @ t) = strip_json u @ strip_json t)"

lemma strip_json_append: "self_strip u \<Longrightarrow> strip_json (u @ t) = strip_json u @ strip_json t"
  by (simp add: self_strip_def)

lemma self_strip_append [simp]: "self_strip u \<Longrightarrow> self_strip v \<Longrightarrow> self_strip (u @ v)"
  by (simp add: self_strip_def)

lemma self_strip_ws [simp]: "ws w \<Longrightarrow> self_strip w"
  using strip_json_ws [of w "[]"] by (simp add: self_strip_def)

lemma self_strip_Cons [simp]: "\<not> is_ws c \<Longrightarrow> c \<noteq> CHR 0x22 \<Longrightarrow> self_strip u \<Longrightarrow> self_strip (c # u)"
  by (simp add: self_strip_def strip_json_other)

lemma self_strip_key: "token u x \<Longrightarrow> self_strip v \<Longrightarrow> self_strip (CHR 0x22 # u @ v)"
  by (simp add: self_strip_def token_def)

lemma compactsE:
  assumes "compacts d u x"
  obtains x' where "value_text d u x" "value_text d (strip_json u) x'" "self_strip u"
  using assms by (auto simp: compacts_def self_strip_def)

lemma compactsI: "value_text d u x \<Longrightarrow> value_text d (strip_json u) x' \<Longrightarrow> self_strip u \<Longrightarrow> compacts d u x"
  by (auto simp: compacts_def self_strip_def)

definition elems_compacts :: "int \<Rightarrow> string \<Rightarrow> json list \<Rightarrow> bool" where
  "elems_compacts d u xs \<longleftrightarrow> elems_text d u xs \<and> self_strip u \<and> (\<exists>ys. elems_text d (strip_json u) ys)"

definition members_compacts :: "int \<Rightarrow> string \<Rightarrow> (string \<times> string \<times> json) list \<Rightarrow> bool" where
  "members_compacts d u ms \<longleftrightarrow> members_text d u ms \<and> self_strip u \<and> (\<exists>ns. members_text d (strip_json u) ns)"

lemma elems_last_compacts:
  assumes "compacts d u x" and "ws w"
  shows "elems_compacts d (u @ w @ '']'') [x]"
proof -
  obtain x' where v: "value_text d u x" "value_text d (strip_json u) x'" "self_strip u"
    using assms(1) by (rule compactsE)
  with assms(2) elems_last [of d u x w] elems_last [of d "strip_json u" x' "[]"] show ?thesis
    by (auto simp: elems_compacts_def strip_json_append)
qed

lemma elems_more_compacts:
  assumes "compacts d u x" and "ws w" and "ws w2" and "elems_compacts d e xs"
  shows "elems_compacts d (u @ w @ '','' @ w2 @ e) (x # xs)"
proof -
  obtain x' where v: "value_text d u x" "value_text d (strip_json u) x'" "self_strip u"
    using assms(1) by (rule compactsE)
  obtain ys where e: "elems_text d e xs" "elems_text d (strip_json e) ys" "self_strip e"
    using assms(4) by (auto simp: elems_compacts_def)
  with v assms(2,3) elems_more [of d u x w w2 e xs] elems_more [of d "strip_json u" x' "[]" "[]" "strip_json e" ys]
  show ?thesis by (auto simp: elems_compacts_def strip_json_append)
qed

lemma array_compacts:
  assumes "elems_compacts (d - 1) e xs" and "hd e \<noteq> CHR '']''" and "0 < d" and "ws w"
  shows "compacts d (''['' @ w @ e) (JArray xs)"
proof -
  obtain ys where e: "elems_text (d - 1) e xs" "elems_text (d - 1) (strip_json e) ys" "self_strip e"
    using assms(1) by (auto simp: elems_compacts_def)
  then have "hd (strip_json e) \<noteq> CHR '']''" using assms(2) strip_json_hd [of e] by (simp add: elems_text_def)
  with e assms array_value [of d e xs w] array_value [of d "strip_json e" ys "[]"] show ?thesis
    by (intro compactsI) (auto simp: strip_json_append)
qed

lemma empty_compacts:
  assumes "0 < d" and "ws w"
  shows "compacts d (''['' @ w @ '']'') (JArray [])" and "compacts d (''{'' @ w @ ''}'') (JObject [])"
  using empty_array_value [OF assms] empty_array_value [OF assms(1) ws_Nil]
    empty_object_value [OF assms] empty_object_value [OF assms(1) ws_Nil] assms(2)
  by (auto intro!: compactsI)

lemma members_last_compacts:
  assumes "token kt k" and "ws w1" and "ws w2" and "compacts d u x" and "ws w3"
  shows "members_compacts d (CHR 0x22 # kt @ w1 @ CHR '':'' # w2 @ u @ w3 @ ''}'') [(k, u, x)]"
proof -
  obtain x' where v: "value_text d u x" "value_text d (strip_json u) x'" "self_strip u"
    using assms(4) by (rule compactsE)
  have k: "\<forall>r. scan (kt @ r) k r" "\<forall>r. scan (strip_string kt @ r) k r" "\<forall>r. strip_string (kt @ r) = strip_string kt @ strip_json r"
    using assms(1) by (simp_all add: token_def)
  show ?thesis
    using members_last [OF k(1) assms(2,3) v(1) assms(5)] members_last [OF k(2) ws_Nil ws_Nil v(2) ws_Nil] v k assms
    by (auto simp: members_compacts_def strip_json_append intro: self_strip_key)
qed

lemma members_more_compacts:
  assumes "token kt k" and "ws w1" and "ws w2" and "compacts d u x" and "ws w3" and "ws w4" and "members_compacts d e ms"
  shows "members_compacts d (CHR 0x22 # kt @ w1 @ CHR '':'' # w2 @ u @ w3 @ CHR '','' # w4 @ e) ((k, u, x) # ms)"
proof -
  obtain x' where v: "value_text d u x" "value_text d (strip_json u) x'" "self_strip u"
    using assms(4) by (rule compactsE)
  obtain ns where e: "members_text d e ms" "members_text d (strip_json e) ns" "self_strip e"
    using assms(7) by (auto simp: members_compacts_def)
  have k: "\<forall>r. scan (kt @ r) k r" "\<forall>r. scan (strip_string kt @ r) k r" "\<forall>r. strip_string (kt @ r) = strip_string kt @ strip_json r"
    using assms(1) by (simp_all add: token_def)
  show ?thesis
    using members_more [OF k(1) assms(2,3) v(1) assms(5,6) e(1)]
      members_more [OF k(2) ws_Nil ws_Nil v(2) ws_Nil ws_Nil e(2)] v k e assms
    by (auto simp: members_compacts_def strip_json_append intro: self_strip_key)
qed

lemma object_compacts:
  assumes "members_compacts (d - 1) e ms" and "0 < d" and "ws w"
  shows "compacts d (''{'' @ w @ e) (JObject ms)"
proof -
  obtain ns where e: "members_text (d - 1) e ms" "members_text (d - 1) (strip_json e) ns" "self_strip e"
    using assms(1) by (auto simp: members_compacts_def)
  with assms object_value [of d e ms w] object_value [of d "strip_json e" ns "[]"] show ?thesis
    by (intro compactsI) (auto simp: strip_json_append)
qed

text \<open>One step of each parser, given the laws for the fuel below.\<close>

lemma parse_object_compacts:
  assumes run: "parse_value (Suc n) d (CHR ''{'' # t) = Some (v, r)"
    and IH: "\<And>d s ms r. parse_members n d s = Some (ms, r) \<Longrightarrow> \<exists>u. s = u @ r \<and> members_compacts d u ms"
  shows "\<exists>u. CHR ''{'' # t = u @ r \<and> compacts d u v"
proof -
  from run obtain e u where t: "0 < d" "skip_ws t = e # u" by (auto split: if_splits list.splits)
  then obtain w where w: "t = w @ e # u" "ws w" by (blast elim: skip_ws_split_Cons)
  show ?thesis
  proof (cases "e = CHR ''}''")
    case True
    with run t w empty_compacts(2) [of d w] show ?thesis by (intro exI [of _ "''{'' @ w @ ''}''"]) auto
  next
    case False
    with run t obtain ms where ms: "parse_members n (d - 1) (e # u) = Some (ms, r)" "v = JObject ms" by auto
    from IH [OF ms(1)] obtain m where "e # u = m @ r" "members_compacts (d - 1) m ms" by blast
    with t w ms(2) object_compacts [of d m ms w] show ?thesis by (intro exI [of _ "''{'' @ w @ m"]) auto
  qed
qed

lemma parse_array_compacts:
  assumes run: "parse_value (Suc n) d (CHR ''['' # t) = Some (v, r)"
    and IH: "\<And>d s xs r. parse_elems n d s = Some (xs, r) \<Longrightarrow> \<exists>u. s = u @ r \<and> elems_compacts d u xs"
  shows "\<exists>u. CHR ''['' # t = u @ r \<and> compacts d u v"
proof -
  from run obtain e u where t: "0 < d" "skip_ws t = e # u" by (auto split: if_splits list.splits)
  then obtain w where w: "t = w @ e # u" "ws w" by (blast elim: skip_ws_split_Cons)
  show ?thesis
  proof (cases "e = CHR '']''")
    case True
    with run t w empty_compacts(1) [of d w] show ?thesis by (intro exI [of _ "''['' @ w @ '']''"]) auto
  next
    case False
    with run t obtain xs where xs: "parse_elems n (d - 1) (e # u) = Some (xs, r)" "v = JArray xs" by auto
    from IH [OF xs(1)] obtain m where m: "e # u = m @ r" "elems_compacts (d - 1) m xs" by blast
    then have "hd m = e" by (cases m) (auto simp: elems_compacts_def elems_text_def)
    with False t w xs(2) m array_compacts [of d m xs w] show ?thesis by (intro exI [of _ "''['' @ w @ m"]) auto
  qed
qed

lemma parse_elems_compacts:
  assumes run: "parse_elems (Suc n) d s = Some (xs, r)"
    and IHv: "\<And>d s v r. parse_value n d s = Some (v, r) \<Longrightarrow> delim (skip_ws r) \<Longrightarrow> \<exists>u. s = u @ r \<and> compacts d u v"
    and IHe: "\<And>d s xs r. parse_elems n d s = Some (xs, r) \<Longrightarrow> \<exists>u. s = u @ r \<and> elems_compacts d u xs"
  shows "\<exists>u. s = u @ r \<and> elems_compacts d u xs"
proof -
  from run obtain x r1 c t where v: "parse_value n d s = Some (x, r1)" "skip_ws r1 = c # t"
    and c: "c = CHR '']'' \<and> xs = [x] \<and> r = t \<or>
      c = CHR '','' \<and> (\<exists>ys. parse_elems n d (skip_ws t) = Some (ys, r) \<and> xs = x # ys)"
    by (auto split: option.splits list.splits if_splits)
  from v(2) obtain w where w: "r1 = w @ c # t" "ws w" by (rule skip_ws_split_Cons)
  have "delim (skip_ws r1)" using v(2) c by (auto simp: delim_def)
  from IHv [OF v(1) this] obtain u where u: "s = u @ r1" "compacts d u x" by blast
  from c show ?thesis
  proof (elim disjE conjE exE)
    assume "c = CHR '']''" "xs = [x]" "r = t"
    with u w elems_last_compacts [OF u(2) w(2)] show ?thesis by (intro exI [of _ "u @ w @ '']''"]) auto
  next
    fix ys
    assume c: "c = CHR '',''" "xs = x # ys" and ys: "parse_elems n d (skip_ws t) = Some (ys, r)"
    obtain w2 where w2: "t = w2 @ skip_ws t" "ws w2" by (rule skip_ws_split)
    from IHe [OF ys] obtain e where e: "skip_ws t = e @ r" "elems_compacts d e ys" by blast
    have "t = w2 @ e @ r" using w2(1) e(1) by simp
    with u w c elems_more_compacts [OF u(2) w(2) w2(2) e(2)] show ?thesis
      by (intro exI [of _ "u @ w @ '','' @ w2 @ e"]) auto
  qed
qed

lemma parse_members_compacts:
  assumes run: "parse_members (Suc n) d s = Some (ms, r)"
    and IHv: "\<And>d s v r. parse_value n d s = Some (v, r) \<Longrightarrow> delim (skip_ws r) \<Longrightarrow> \<exists>u. s = u @ r \<and> compacts d u v"
    and IHm: "\<And>d s ms r. parse_members n d s = Some (ms, r) \<Longrightarrow> \<exists>u. s = u @ r \<and> members_compacts d u ms"
  shows "\<exists>u. s = u @ r \<and> members_compacts d u ms"
proof -
  from run obtain t k u1 v1 where s: "s = CHR 0x22 # t" "scan t k u1" "skip_ws u1 = CHR '':'' # v1"
    by (auto split: option.splits list.splits if_splits simp: unquote_body_iff)
  with run obtain x r1 e w5 where v: "parse_value n d (skip_ws v1) = Some (x, r1)" "skip_ws r1 = e # w5"
    and c: "let raw = take (length (skip_ws v1) - length r1) (skip_ws v1) in
      e = CHR ''}'' \<and> ms = [(k, raw, x)] \<and> r = w5 \<or>
      e = CHR '','' \<and> (\<exists>ns. parse_members n d (skip_ws w5) = Some (ns, r) \<and> ms = (k, raw, x) # ns)"
    by (auto split: option.splits list.splits if_splits simp: unquote_body_iff [symmetric] Let_def)
  from scan_token [OF s(2)] obtain kt where kt: "t = kt @ u1" "token kt k" by blast
  from s(3) obtain w1 where w1: "u1 = w1 @ CHR '':'' # v1" "ws w1" by (rule skip_ws_split_Cons)
  obtain w2 where w2: "v1 = w2 @ skip_ws v1" "ws w2" by (rule skip_ws_split)
  from v(2) obtain w3 where w3: "r1 = w3 @ e # w5" "ws w3" by (rule skip_ws_split_Cons)
  have "delim (skip_ws r1)" using v(2) c by (auto simp: delim_def Let_def)
  from IHv [OF v(1) this] obtain u where u: "skip_ws v1 = u @ r1" "compacts d u x" by blast
  have s': "s = CHR 0x22 # kt @ w1 @ CHR '':'' # w2 @ u @ w3 @ e # w5"
    using s(1) kt(1) w1(1) w2(1) u(1) w3(1) by simp
  from c u(1) consider "e = CHR ''}''" "ms = [(k, u, x)]" "r = w5"
    | ns where "e = CHR '',''" "parse_members n d (skip_ws w5) = Some (ns, r)" "ms = (k, u, x) # ns"
    by (auto simp: Let_def)
  then show ?thesis
  proof cases
    case 1
    with s' members_last_compacts [OF kt(2) w1(2) w2(2) u(2) w3(2)] show ?thesis
      by (intro exI [of _ "CHR 0x22 # kt @ w1 @ CHR '':'' # w2 @ u @ w3 @ ''}''"]) simp
  next
    case 2
    obtain w4 where w4: "w5 = w4 @ skip_ws w5" "ws w4" by (rule skip_ws_split)
    from IHm [OF 2(2)] obtain m where m: "skip_ws w5 = m @ r" "members_compacts d m ns" by blast
    have "w5 = w4 @ m @ r" using w4(1) m(1) by simp
    with 2 s' members_more_compacts [OF kt(2) w1(2) w2(2) u(2) w3(2) w4(2) m(2)] show ?thesis
      by (intro exI [of _ "CHR 0x22 # kt @ w1 @ CHR '':'' # w2 @ u @ w3 @ CHR '','' # w4 @ m"]) simp
  qed
qed

lemma parse_compacts:
  "(\<forall>d s v r. parse_value n d s = Some (v, r) \<longrightarrow> delim (skip_ws r) \<longrightarrow> (\<exists>u. s = u @ r \<and> compacts d u v)) \<and>
   (\<forall>d s xs r. parse_elems n d s = Some (xs, r) \<longrightarrow> (\<exists>u. s = u @ r \<and> elems_compacts d u xs)) \<and>
   (\<forall>d s ms r. parse_members n d s = Some (ms, r) \<longrightarrow> (\<exists>u. s = u @ r \<and> members_compacts d u ms))"
proof (induction n)
  case (Suc n)
  have "\<exists>u. s = u @ r \<and> compacts d u v" if run: "parse_value (Suc n) d s = Some (v, r)" and r: "delim (skip_ws r)" for d s v r
  proof -
    obtain c t where s: "s = c # t" using run by (cases s) auto
    consider "c = CHR ''{''" | "c = CHR ''[''" | "c = CHR 0x22" | "c \<notin> {CHR ''{'', CHR ''['', CHR 0x22}" by blast
    then show ?thesis
    proof cases
      case 1
      with run s Suc.IH show ?thesis by (auto intro: parse_object_compacts)
    next
      case 2
      with run s Suc.IH show ?thesis by (auto intro: parse_array_compacts)
    next
      case 3
      with run s obtain x where "scan t x r" "v = JString x" by (auto simp: unquote_body_iff)
      with scan_token [of t x r] 3 s show ?thesis by (auto intro: string_compacts exI [of _ "CHR 0x22 # _"])
    next
      case 4
      with run s have "literal s = Some (v, r)" by auto
      then show ?thesis using r by (rule literal_compacts)
    qed
  qed
  moreover have "\<exists>u. s = u @ r \<and> elems_compacts d u xs" if "parse_elems (Suc n) d s = Some (xs, r)" for d s xs r
    using parse_elems_compacts [OF that] Suc.IH by blast
  moreover have "\<exists>u. s = u @ r \<and> members_compacts d u ms" if "parse_members (Suc n) d s = Some (ms, r)" for d s ms r
    using parse_members_compacts [OF that] Suc.IH by blast
  ultimately show ?case by blast
qed simp

section \<open>Consequences\<close>

lemma parse_value_text:
  assumes "parse_value n d s = Some (v, r)" and "delim (skip_ws r)"
  obtains u where "s = u @ r" "compacts d u v"
  using parse_compacts [of n] assms by blast

lemma json_parse_iff:
  "json_parse s = Some v \<longleftrightarrow> (\<exists>n r. parse_value n maxNestingDepth (skip_ws s) = Some (v, r) \<and> skip_ws r = [])"
proof
  assume "\<exists>n r. parse_value n maxNestingDepth (skip_ws s) = Some (v, r) \<and> skip_ws r = []"
  then obtain n r where p: "parse_value n maxNestingDepth (skip_ws s) = Some (v, r)" "skip_ws r = []" by blast
  then have r: "delim (skip_ws r)" by (simp add: delim_def)
  from p(1) r obtain u where u: "skip_ws s = u @ r" "value_text maxNestingDepth u v"
    by (rule parse_value_text) (auto simp: compacts_def)
  from value_textD [OF u(2) r, of "2 * length (skip_ws s) + 1"] u(1) p(2) show "json_parse s = Some v"
    by (simp add: json_parse_def json_value_def)
next
  assume "json_parse s = Some v"
  then obtain r where "json_value (skip_ws s) = Some (v, r)" "skip_ws r = []"
    by (auto simp: json_parse_def split: option.splits if_splits)
  then show "\<exists>n r. parse_value n maxNestingDepth (skip_ws s) = Some (v, r) \<and> skip_ws r = []"
    unfolding json_value_def by blast
qed

text \<open>A text that parses, and the compact form of it, stand as values wherever they are written.\<close>

lemma value_text_json_parse:
  assumes "value_text maxNestingDepth u v"
  shows "json_parse u = Some v"
proof -
  have "skip_ws u = u" using assms skip_ws_id [of u "[]"] by (simp add: value_text_def)
  moreover have "parse_value (2 * length u) maxNestingDepth u = Some (v, [])" "skip_ws [] = []"
    using value_textD [OF assms, of "[]" "2 * length u"] by (simp_all add: delim_def skip_ws_def)
  ultimately show ?thesis unfolding json_parse_iff by metis
qed

lemma compact_value_text:
  assumes "parse_value n d (skip_ws s) = Some (v, r)" and "skip_ws r = []"
  obtains v' where "value_text d (strip_json s) v'"
proof -
  from assms obtain u where u: "skip_ws s = u @ r" "compacts d u v"
    by (auto simp: delim_def elim: parse_value_text)
  obtain w where w: "s = w @ skip_ws s" "ws w" by (rule skip_ws_split)
  obtain w' where "r = w' @ skip_ws r" "ws w'" by (rule skip_ws_split)
  then have "ws r" using assms(2) by simp
  then have "strip_json r = []" using strip_json_ws [of r "[]"] by simp
  with w u have "strip_json s = strip_json u" by (metis strip_json_ws compacts_def append_Nil2)
  with u(2) that show thesis by (auto simp: compacts_def)
qed

text \<open>
  A text that is a value one level deep inside an object: the reader's limit on nesting
  counts the object as well.
\<close>

definition embeddable :: "string \<Rightarrow> bool" where
  "embeddable s \<longleftrightarrow>
     (case parse_value (2 * length s + 1) (maxNestingDepth - 1) (skip_ws s) of
        Some (_, r) \<Rightarrow> skip_ws r = []
      | None \<Rightarrow> False)"

lemma embeddable_value_text: "embeddable s \<Longrightarrow> \<exists>v. value_text (maxNestingDepth - 1) (strip_json s) v"
  by (auto simp: embeddable_def simp del: parse_value.simps split: option.splits elim: compact_value_text)

text \<open>A text that parses within a limit on nesting parses within any higher one.\<close>

lemma parse_deeper:
  "parse_value n d s = Some x \<Longrightarrow> d \<le> e \<Longrightarrow> parse_value n e s = Some x"
  "parse_elems n d s = Some y \<Longrightarrow> d \<le> e \<Longrightarrow> parse_elems n e s = Some y"
  "parse_members n d s = Some z \<Longrightarrow> d \<le> e \<Longrightarrow> parse_members n e s = Some z"
proof (induction n arbitrary: d e s x y z)
  case (Suc n)
  { case 1
    have step: "d - 1 \<le> e - 1" "d \<le> 0 \<or> \<not> e \<le> 0" using 1(2) by arith+
    from 1(1) step show ?case
      by (auto split: list.splits if_splits dest: Suc.IH(2,3) [OF _ step(1)])
  next
    case 2
    then obtain x' r where p: "parse_value n d s = Some (x', r)" by (auto split: option.splits)
    from 2 p Suc.IH(1) [OF p 2(2)] show ?case
      by (auto split: list.splits if_splits dest: Suc.IH(2) [OF _ 2(2)])
  next
    case 3
    then obtain t k u v x' r where p: "s = CHR 0x22 # t" "unquote_body t = Some (k, u)" "skip_ws u = CHR '':'' # v"
      "parse_value n d (skip_ws v) = Some (x', r)" by (auto split: list.splits if_splits option.splits)
    from 3 p Suc.IH(1) [OF p(4) 3(2)] show ?case
      by (auto simp: Let_def split: list.splits if_splits dest: Suc.IH(3) [OF _ 3(2)])
  }
qed simp_all

lemma embeddable_json: "embeddable s \<Longrightarrow> json_parse s \<noteq> None"
proof -
  assume "embeddable s"
  then obtain v r where p: "parse_value (2 * length s + 1) (maxNestingDepth - 1) (skip_ws s) = Some (v, r)" "skip_ws r = []"
    by (auto simp: embeddable_def simp del: parse_value.simps split: option.splits)
  from parse_deeper(1) [OF p(1), of maxNestingDepth] p(2) have "json_parse s = Some v"
    unfolding json_parse_iff by (intro exI conjI) (assumption | simp del: parse_value.simps)+
  then show ?thesis by simp
qed

lemma embeddable_value: "value_text (maxNestingDepth - 1) u v \<Longrightarrow> embeddable u"
proof -
  assume v: "value_text (maxNestingDepth - 1) u v"
  then have "skip_ws u = u" using skip_ws_id [of u "[]"] by (simp add: value_text_def)
  moreover have "parse_value (2 * length u + 1) (maxNestingDepth - 1) u = Some (v, [])"
    using value_textD [OF v, of "[]" "2 * length u + 1"] by (simp add: delim_def skip_ws_def)
  ultimately show ?thesis by (simp add: embeddable_def skip_ws_def del: parse_value.simps)
qed

lemma embeddable_strip: "embeddable s \<Longrightarrow> embeddable (strip_json s)"
  using embeddable_value_text embeddable_value by blast

lemma marshal_raw_embeddable: "embeddable s \<Longrightarrow> marshal_raw (Some s) = Inr (strip_json s)"
  using embeddable_json by (simp add: marshal_raw_def json_compact_def)

section \<open>Written strings\<close>

text \<open>A string with every byte that is not part of well-formed UTF-8 replaced by U+FFFD.\<close>

function to_valid :: "string \<Rightarrow> string" where
  "to_valid s =
     (if s = [] then []
      else if byte (hd s) < 128 then hd s # to_valid (tl s)
      else if rune_width s = 0 then RuneError @ to_valid (tl s)
      else take (rune_width s) s @ to_valid (drop (rune_width s) s))"
  by pat_completeness auto
termination
  by (relation "measure length") auto

declare to_valid.simps [simp del]

lemma to_valid_ascii: "\<forall>c\<in>set s. byte c < 128 \<Longrightarrow> to_valid s = s"
  by (induction s) (auto simp: to_valid.simps)

lemma rune_width_take:
  assumes "rune_width s \<noteq> 0"
  shows "rune_width (take (rune_width s) s @ t) = rune_width s"
  using assms by (cases s rule: rune_width.cases) (auto simp: rune_width.simps split: if_splits list.splits)

lemma scan_escape_byte:
  assumes "byte c < 128" and "scan t x r"
  shows "scan (escape_byte (byte c) @ t) (c # x) r"
proof -
  have simple: "scan (CHR 0x5C # e # t) (c # x) r" if "map_option byte (simple_escape e) = Some (byte c)" for e
    using that assms(2) char_of_byte by (metis (no_types, lifting) map_option_eq_Some scan_escape)
  have uni: "scan (CHR 0x5C # CHR ''u'' # CHR ''0'' # CHR ''0'' # hex_digit (byte c div 16) # hex_digit (byte c mod 16) # t) ([c] @ x) r"
    by (rule scan_unicode [OF hex4_00 unicode_escape_ascii [OF assms(1), simplified]]) (use assms in simp_all)
  consider "byte c = 34" | "byte c = 92" | "byte c = 8" | "byte c = 12" | "byte c = 10" | "byte c = 13" | "byte c = 9"
    | "byte c \<notin> {34, 92, 8, 12, 10, 13, 9}" by blast
  then show ?thesis
  proof cases
    case 8
    then have "c \<noteq> CHR 0x22" "c \<noteq> CHR 0x5C" by auto
    with 8 uni assms show ?thesis by (auto simp: escape_byte_def not_less intro: scan_ascii)
  qed (auto simp: escape_byte_def simple_escape_def intro!: simple)
qed

lemma scan_quote_body: "scan (quote_body s @ CHR 0x22 # r) (to_valid s) r"
proof (induction s rule: quote_body.induct)
  case (1 s)
  show ?case
  proof (cases s)
    case Nil
    then show ?thesis by (simp add: quote_body.simps [of "[]"] to_valid.simps [of "[]"] scan_quote)
  next
    case (Cons c t)
    let ?w = "rune_width s"
    have s: "s \<noteq> []" "hd s = c" "tl s = t" using Cons by simp_all
    note unfolds = quote_body.simps [of s] to_valid.simps [of s]
    consider "byte c < 128" | "128 \<le> byte c" "?w = 0" | "128 \<le> byte c" "?w \<noteq> 0" "is_line_sep s"
      | "128 \<le> byte c" "?w \<noteq> 0" "\<not> is_line_sep s" by linarith
    then show ?thesis
    proof cases
      case 1
      with s "1.IH"(1) scan_escape_byte [OF 1] show ?thesis by (simp add: unfolds)
    next
      case 2
      have "scan (CHR 0x5C # CHR ''u'' # ''fffd'' @ (quote_body t @ CHR 0x22 # r)) (RuneError @ to_valid t) r"
        using 2 s "1.IH"(2)
        by (intro scan_unicode [of _ 65533]) (auto simp: hex_val_def byte_def unicode_escape_def RuneError_def)
      with 2 s show ?thesis by (simp add: unfolds)
    next
      case 3
      from 3(3) obtain a b d u where sep: "s = a # b # d # u" "byte a = 226" "byte b = 128" "byte d = 168 \<or> byte d = 169"
        by (auto simp: is_line_sep_def split: list.splits)
      have "scan (CHR 0x5C # CHR ''u'' # CHR ''2'' # CHR ''0'' # CHR ''2'' # hex_digit (byte d mod 16) # quote_body u @ CHR 0x22 # r)
          ([a, b, d] @ to_valid u) r"
        using 3 s sep "1.IH"(3) line_sep_escape [OF sep(2-4)] by (intro scan_unicode [OF hex4_202]) auto
      with 3 sep is_line_sep_width [OF 3(3)] show ?thesis
        by (simp add: quote_body.simps [of "a # b # d # u"] to_valid.simps [of "a # b # d # u"])
    next
      case 4
      have "rune_width (take ?w s @ quote_body (drop ?w s) @ CHR 0x22 # r) = ?w"
        using rune_width_take 4(2) by blast
      moreover obtain p where p: "take ?w s = c # p" using 4(2) Cons by (cases ?w) auto
      moreover have "length (take ?w s) = ?w" using rune_width_le [of s] by simp
      ultimately have "scan (c # p @ quote_body (drop ?w s) @ CHR 0x22 # r) (c # p @ to_valid (drop ?w s)) r"
        using 4 s "1.IH"(4) by (intro scan_rune_at) auto
      with 4 s p show ?thesis by (simp add: unfolds)
    qed
  qed
qed

lemma quote_value: "value_text d (quote s) (JString (to_valid s))"
  unfolding quote_def by (rule string_value) (simp add: scan_quote_body)

section \<open>Written objects\<close>

text \<open>What a list of fields is read back as: every field must be written with a value text.\<close>

fun members_of :: "(string \<times> string \<times> json) list \<Rightarrow> (string \<times> string \<times> json) list" where
  "members_of fs = map (\<lambda>(k, u, v). (to_valid k, u, v)) fs"

lemma json_fields_members:
  assumes "fs \<noteq> []" and "\<forall>(k, u, v)\<in>set fs. value_text d u v"
  shows "members_text d (json_fields (map (\<lambda>(k, u, v). (k, u)) fs) @ ''}'') (members_of fs)"
  using assms
proof (induction fs rule: induct_list012)
  case (2 f)
  obtain k u v where f: "f = (k, u, v)" by (cases f)
  with 2 members_last [of "quote_body k @ [CHR 0x22]" "to_valid k" "[]" "[]" d u v "[]"] show ?case
    by (simp add: quote_def scan_quote_body)
next
  case (3 f g fs)
  obtain k u v where f: "f = (k, u, v)" by (cases f)
  have "members_text d (json_fields (map (\<lambda>(k, u, v). (k, u)) (g # fs)) @ ''}'') (members_of (g # fs))"
    using 3 by auto
  with 3(4) f members_more [of "quote_body k @ [CHR 0x22]" "to_valid k" "[]" "[]" d u v "[]" "[]"
      "json_fields (map (\<lambda>(k, u, v). (k, u)) (g # fs)) @ ''}''" "members_of (g # fs)"]
  show ?case by (cases g) (simp add: quote_def scan_quote_body)
qed simp

lemma json_object_parse:
  assumes "fs \<noteq> []" and "\<forall>(k, u, v)\<in>set fs. value_text (maxNestingDepth - 1) u v"
  shows "json_parse (json_object (map (\<lambda>(k, u, v). (k, u)) fs)) = Some (JObject (members_of fs))"
  using object_value [OF json_fields_members [OF assms], of "[]"]
  by (intro value_text_json_parse) (simp add: json_object_def maxNestingDepth_def)

lemma json_object_embeddable:
  assumes "fs \<noteq> []" and "\<forall>(k, u, v)\<in>set fs. value_text (maxNestingDepth - 2) u v"
  shows "embeddable (json_object (map (\<lambda>(k, u, v). (k, u)) fs))"
  using object_value [of "maxNestingDepth - 1" _ _ "[]"] json_fields_members [OF assms]
  by (intro embeddable_value) (simp add: json_object_def maxNestingDepth_def)

text \<open>A text of plain characters between quotes is read as it stands.\<close>

definition plain_char :: "char \<Rightarrow> bool" where
  "plain_char c \<longleftrightarrow> 32 \<le> byte c \<and> byte c < 128 \<and> byte c \<noteq> 34 \<and> byte c \<noteq> 92"

definition plain_text :: "string \<Rightarrow> bool" where
  "plain_text s \<longleftrightarrow> (\<forall>c\<in>set s. plain_char c)"

lemma plain_text_value:
  assumes "plain_text s"
  shows "value_text d (CHR 0x22 # s @ [CHR 0x22]) (JString s)"
proof (rule string_value, rule allI)
  fix r
  show "scan ((s @ [CHR 0x22]) @ r) s r"
    using assms
  proof (induction s)
    case (Cons c s)
    then have "c \<noteq> CHR 0x22" "c \<noteq> CHR 0x5C" by (auto simp: plain_text_def plain_char_def)
    with Cons show ?case by (auto simp: plain_text_def plain_char_def intro: scan_ascii)
  qed (simp add: scan_quote)
qed

end
