(* ===== verification/Time_Laws.thy ===== *)
theory Time_Laws
  imports Go_Time
begin

text \<open>
  A time written as JSON is read back as the same instant: the calendar of the writer and
  the day count of the reader are inverse to each other, and the reader finds the fields the
  writer wrote.
\<close>

section \<open>The calendar\<close>

definition days_to_year :: "int \<Rightarrow> int" where
  "days_to_year y = 365 * y + (y + 3) div 4 - (y + 99) div 100 + (y + 399) div 400"

lemma days_to_year_cycle: "days_to_year (400 * a + b) = 146097 * a + days_to_year b"
proof -
  have "(400 * a + b + 3) div 4 = 100 * a + (b + 3) div 4" "(400 * a + b + 99) div 100 = 4 * a + (b + 99) div 100"
    "(400 * a + b + 399) div 400 = a + (b + 399) div 400" by linarith+
  then show ?thesis by (simp add: days_to_year_def algebra_simps)
qed

lemma isLeap_cycle: "isLeap (400 * a + b) = isLeap b"
proof -
  have "(400 * a + b) mod 4 = b mod 4" "(400 * a + b) mod 100 = b mod 100" "(400 * a + b) mod 400 = b mod 400"
    using mod_mult_self4 [of 4 "100 * a" b] mod_mult_self4 [of 100 "4 * a" b] by simp_all
  then show ?thesis by (simp add: isLeap_def)
qed

lemma days_to_year_parts:
  assumes "0 \<le> c" "c \<le> 3" "0 \<le> f" "f \<le> 24" "0 \<le> n" "n \<le> 3"
  shows "days_to_year (1 + 100 * c + 4 * f + n) = 366 + 36524 * c + 1461 * f + 365 * n"
proof -
  have "(1 + 100 * c + 4 * f + n + 3) div 4 = 1 + 25 * c + f" "(1 + 100 * c + 4 * f + n + 99) div 100 = 1 + c"
    "(1 + 100 * c + 4 * f + n + 399) div 400 = 1" using assms by linarith+
  then show ?thesis by (simp add: days_to_year_def)
qed

lemma isLeap_parts:
  assumes "0 \<le> c" "0 \<le> f" "f \<le> 23"
  shows "isLeap (1 + 100 * c + 4 * f + 3)"
proof -
  have "(1 + 100 * c + 4 * f + 3) mod 4 = 0" using mod_mult_self4 [of 4 "1 + 25 * c + f" 0] by simp
  moreover have "(1 + 100 * c + 4 * f + 3) mod 100 = 4 * f + 4"
    using mod_mult_self4 [of 100 c "4 * f + 4"] assms by (simp add: algebra_simps)
  moreover have "4 * f + 4 \<noteq> 0" using assms by simp
  ultimately show ?thesis by (simp add: isLeap_def)
qed

lemma year_day_split:
  assumes "year_day D = (y, yd)"
  shows "D = days_to_year y + yd" "0 \<le> yd" "yd < (if isLeap y then 366 else 365)"
proof -
  define a d where "a = D div 146097" and "d = D mod 146097"
  have D: "D = 146097 * a + d" "0 \<le> d" "d < 146097" by (simp_all add: a_def d_def)
  have "D = days_to_year y + yd \<and> 0 \<le> yd \<and> yd < (if isLeap y then 366 else 365)"
  proof (cases "d < 366")
    case True
    then have "y = 400 * a + 0" "yd = d" using assms by (simp_all add: year_day_def a_def d_def Let_def)
    moreover have "days_to_year 0 = 0" "isLeap 0" by (simp_all add: days_to_year_def isLeap_def)
    ultimately show ?thesis using D True days_to_year_cycle [of a 0] isLeap_cycle [of a 0] by simp
  next
    case False
    define c d1 where "c = (d - 366) div 36524" and "d1 = (d - 366) mod 36524"
    define f d2 where "f = d1 div 1461" and "d2 = d1 mod 1461"
    have c: "d - 366 = 36524 * c + d1" "0 \<le> d1" "d1 < 36524" by (simp_all add: c_def d1_def)
    have c3: "0 \<le> c" "c \<le> 3" using D False unfolding c_def by linarith+
    have f: "d1 = 1461 * f + d2" "0 \<le> d2" "d2 < 1461" by (simp_all add: f_def d2_def)
    have f24: "0 \<le> f" "f \<le> 24" using c unfolding f_def by linarith+
    define n where "n = d2 div 365 - d2 div 365 div 4"
    have n: "0 \<le> n" "n \<le> 3" "0 \<le> d2 - 365 * n" "d2 - 365 * n < 365 \<or> n = 3 \<and> d2 = 1460"
    proof -
      define q where "q = d2 div 365"
      have q: "d2 = 365 * q + d2 mod 365" "0 \<le> q" "q \<le> 4" "0 \<le> d2 mod 365" "d2 mod 365 < 365"
        using f(2,3) by (simp_all add: q_def)
      have "n = (if q = 4 then 3 else q)" using q(2,3) unfolding n_def q_def [symmetric] by simp
      with q f show "0 \<le> n" "n \<le> 3" "0 \<le> d2 - 365 * n" "d2 - 365 * n < 365 \<or> n = 3 \<and> d2 = 1460"
        by (auto split: if_splits)
    qed
    have c4: "c div 4 = 0" using c3 by simp
    have d1: "d - 366 - 36524 * (c - c div 4) = d1" and d2: "d1 - 1461 * f = d2" using c f c4 by simp_all
    have "year_day D = (400 * a + 1 + 100 * (c - c div 4) + 4 * f + n, d2 - 365 * n)"
      unfolding year_day_def Let_def a_def [symmetric] d_def [symmetric] c_def [symmetric] d1 f_def [symmetric] d2 n_def [symmetric]
      using False by simp
    then have y: "y = 400 * a + (1 + 100 * c + 4 * f + n)" "yd = d2 - 365 * n" using assms c4 by simp_all
    have "isLeap y" if "n = 3" "d2 = 1460"
    proof -
      have "f \<le> 23" using that c f f24 by linarith
      with that isLeap_parts [OF c3(1) f24(1)] show ?thesis unfolding y(1) isLeap_cycle by simp
    qed
    moreover have "D = days_to_year y + yd"
      unfolding y(1) days_to_year_cycle days_to_year_parts [OF c3 f24 n(1,2)] using D(1) c(1) f(1) y(2) by simp
    ultimately show ?thesis using n y by auto
  qed
  then show "D = days_to_year y + yd" "0 \<le> yd" "yd < (if isLeap y then 366 else 365)" by blast+
qed

lemma month_index:
  fixes day :: int
  defines "k \<equiv> day div 31"
  defines "m \<equiv> (if daysBefore ! nat (k + 1) \<le> day then k + 1 else k)"
  assumes "0 \<le> day" and "day < 365"
  shows "0 \<le> m \<and> m \<le> 11 \<and> daysBefore ! nat m \<le> day \<and> day < daysBefore ! nat (m + 1) \<and> (2 \<le> m \<longleftrightarrow> 59 \<le> day)"
proof -
  have k: "31 * k \<le> day" "day < 31 * k + 31" by (simp_all add: k_def)
  have "0 \<le> k" "k \<le> 11" using k assms(3,4) by linarith+
  then have "k \<in> {0, 1, 2, 3, 4, 5, 6, 7, 8, 9, 10, 11}" by simp presburger
  then show ?thesis
    unfolding m_def by (elim insertE emptyE) (use k assms(3,4) in \<open>simp_all add: daysBefore_def\<close>)
qed

lemma month_day_split:
  assumes "month_day y yd = (m, d)" and "0 \<le> yd" and "yd < (if isLeap y then 366 else 365)"
  shows "days_since_year0 y m d = days_to_year y + yd" "1 \<le> m" "m \<le> 12" "1 \<le> d" "d \<le> daysIn m y"
proof -
  have "days_since_year0 y m d = days_to_year y + yd \<and> 1 \<le> m \<and> m \<le> 12 \<and> 1 \<le> d \<and> d \<le> daysIn m y"
  proof (cases "isLeap y \<and> yd = 59")
    case True
    with assms(1) show ?thesis
      by (auto simp: month_day_def days_since_year0_def days_to_year_def daysIn_def daysBefore_def)
  next
    case False
    define day where "day = (if isLeap y \<and> 59 < yd then yd - 1 else yd)"
    define i where "i = (if daysBefore ! nat (day div 31 + 1) \<le> day then day div 31 + 1 else day div 31)"
    have day: "0 \<le> day" "day < 365" using assms(2,3) False by (auto simp: day_def split: if_splits)
    have i: "0 \<le> i" "i \<le> 11" "daysBefore ! nat i \<le> day" "day < daysBefore ! nat (i + 1)" "2 \<le> i \<longleftrightarrow> 59 \<le> day"
      using month_index [OF day] by (simp_all add: i_def)
    have md: "m = i + 1" "d = day - daysBefore ! nat i + 1"
      using assms(1) False unfolding month_day_def Let_def day_def [symmetric] i_def [symmetric] by auto
    have "yd = day + (if 2 < m \<and> isLeap y then 1 else 0)"
      using i(5) False by (auto simp: day_def md(1) split: if_splits)
    moreover have "daysBefore ! nat m - daysBefore ! nat (m - 1) \<le> daysIn m y"
      by (auto simp: daysIn_def daysBefore_def)
    ultimately show ?thesis
      using i by (simp add: md days_since_year0_def days_to_year_def)
  qed
  then show "days_since_year0 y m d = days_to_year y + yd" "1 \<le> m" "m \<le> 12" "1 \<le> d" "d \<le> daysIn m y" by blast+
qed

section \<open>Digits\<close>

lemma byte_digit: "0 \<le> n \<Longrightarrow> n \<le> 9 \<Longrightarrow> byte (digit n) = nat (48 + n)"
  by (simp add: digit_def byte_def)

lemma digit_digit: "0 \<le> n \<Longrightarrow> n \<le> 9 \<Longrightarrow> is_digit (digit n) \<and> digit_val (digit n) = n"
  by (auto simp: is_digit_def digit_val_def byte_digit)

lemma two_digits: "0 \<le> n \<Longrightarrow> n < 100 \<Longrightarrow> length (two n) = 2 \<and> list_all is_digit (two n) \<and> digits_val (two n) = n"
  using digit_digit [of "n div 10"] digit_digit [of "n mod 10"] by (auto simp: two_def digits_val_def)

lemma digits_val_append: "digits_val (u @ v) = digits_val u * 10 ^ length v + digits_val v"
proof -
  have "foldl (\<lambda>n c. 10 * n + digit_val c) a v = a * 10 ^ length v + foldl (\<lambda>n c. 10 * n + digit_val c) 0 v" for a
  proof (induction v arbitrary: a)
    case (Cons c v)
    show ?case using Cons [of "10 * a + digit_val c"] Cons [of "digit_val c"] by (simp add: algebra_simps)
  qed simp
  then show ?thesis unfolding digits_val_def foldl_append by blast
qed

lemma four_digits:
  assumes "0 \<le> n" and "n < 10000"
  shows "length (four n) = 4 \<and> list_all is_digit (four n) \<and> digits_val (four n) = n"
proof -
  have "0 \<le> n div 100" "n div 100 < 100" "0 \<le> n mod 100" "n mod 100 < 100" using assms by linarith+
  note two_digits [OF this(1,2)] two_digits [OF this(3,4)]
  moreover have "n div 100 * 10 ^ 2 + n mod 100 = n" using div_mult_mod_eq [of n 100] by simp
  ultimately show ?thesis unfolding four_def digits_val_append by (metis length_append list_all_append num_double numeral_times_numeral mult_2 numeral_Bit0)
qed

lemma nine_digits:
  assumes "0 \<le> n" and "n < Second"
  shows "length (nine n) = 9 \<and> list_all is_digit (nine n) \<and> digits_val (nine n) = n"
proof -
  have d: "is_digit (digit (n div 100000000)) \<and> digit_val (digit (n div 100000000)) = n div 100000000"
    by (rule digit_digit) (use assms in \<open>simp_all add: div_less_iff_less_mult\<close>)
  have f: "length (four (n div 10000 mod 10000)) = 4 \<and> list_all is_digit (four (n div 10000 mod 10000)) \<and>
      digits_val (four (n div 10000 mod 10000)) = n div 10000 mod 10000"
    "length (four (n mod 10000)) = 4 \<and> list_all is_digit (four (n mod 10000)) \<and> digits_val (four (n mod 10000)) = n mod 10000"
    by (rule four_digits; simp)+
  have nine: "nine n = [digit (n div 100000000)] @ four (n div 10000 mod 10000) @ four (n mod 10000)" by (simp add: nine_def)
  have "digits_val (nine n) = n div 100000000 * 100000000 + n div 10000 mod 10000 * 10000 + n mod 10000"
    unfolding nine digits_val_append using d f by (simp add: digits_val_def)
  also have "\<dots> = n"
  proof -
    have "n div 10000 div 10000 = n div 100000000" by (simp flip: zdiv_zmult2_eq)
    with div_mult_mod_eq [of n 10000] div_mult_mod_eq [of "n div 10000" 10000] show ?thesis by linarith
  qed
  finally show ?thesis using d f by (simp add: nine)
qed

text \<open>Reading digits back.\<close>

lemma take_num_digits: "length u = k \<Longrightarrow> list_all is_digit u \<Longrightarrow> take_num k (u @ s) = Some (digits_val u, s)"
  by (simp add: take_num_def)

lemma take_two [simp]: "0 \<le> n \<Longrightarrow> n < 100 \<Longrightarrow> take_num 2 (two n @ s) = Some (n, s)"
  using two_digits [of n] by (simp add: take_num_digits)

lemma take_four [simp]: "0 \<le> n \<Longrightarrow> n < 10000 \<Longrightarrow> take_num 4 (four n @ s) = Some (n, s)"
  using four_digits [of n] by (simp add: take_num_digits)

lemma take_12 [simp]: "0 \<le> n \<Longrightarrow> n < 100 \<Longrightarrow> take_num12 (two n @ s) = Some (n, s)"
  by (simp add: take_num12_def)

lemma expect_Cons [simp]: "expect c (c # s) = Some s"
  by (simp add: expect_def)

section \<open>The round trip\<close>

lemma zone_text_front: "\<exists>c s. zone_text off @ r = c # s \<and> \<not> is_digit c \<and> c \<noteq> CHR ''.'' \<and> c \<noteq> CHR '',''"
  by (auto simp: zone_text_def is_digit_def byte_def)

lemma take_zone_text:
  assumes "\<bar>off\<bar> < 1440"
  shows "take_zone (zone_text off @ r) = Some (off, r)"
proof -
  have "0 \<le> \<bar>off\<bar> div 60" "\<bar>off\<bar> div 60 < 24" "0 \<le> \<bar>off\<bar> mod 60" "\<bar>off\<bar> mod 60 < 60"
    using assms by linarith+
  then show ?thesis
    using div_mult_mod_eq [of "\<bar>off\<bar>" 60] by (auto simp: zone_text_def take_zone_def split: if_splits)
qed

text \<open>Zeros that were cut off at the end are put back.\<close>

lemma pad_zeros:
  "length ds = 9 \<Longrightarrow> take 9 (rev (dropWhile (\<lambda>c. c = z) (rev ds)) @ replicate 9 z) = ds"
proof -
  assume len: "length ds = 9"
  define k where "k = length (takeWhile (\<lambda>c. c = z) (rev ds))"
  have "takeWhile (\<lambda>c. c = z) (rev ds) = replicate k z"
    unfolding k_def by (rule replicate_eqI) (auto dest: set_takeWhileD)
  then have "rev ds = replicate k z @ dropWhile (\<lambda>c. c = z) (rev ds)" by (metis takeWhile_dropWhile_id)
  then have ds: "ds = rev (dropWhile (\<lambda>c. c = z) (rev ds)) @ replicate k z" by (metis rev_append rev_replicate rev_rev_ident)
  let ?p = "rev (dropWhile (\<lambda>c. c = z) (rev ds))"
  have "length ?p + k = 9" using arg_cong [OF ds, of length] len by simp
  then show ?thesis
    by (subst (2) ds) (simp add: min_def)
qed

lemma span_append:
  "\<forall>c\<in>set p. P c \<Longrightarrow> \<not> P c \<Longrightarrow> takeWhile P (p @ c # s) = p \<and> dropWhile P (p @ c # s) = c # s"
  by (induction p) auto

lemma take_frac_fraction:
  assumes "0 \<le> n" and "n < Second" and "\<exists>c s. r = c # s \<and> \<not> is_digit c \<and> c \<noteq> CHR ''.'' \<and> c \<noteq> CHR '',''"
  shows "take_frac (fraction n @ r) = (n, r)"
proof (cases "n = 0")
  case True
  with assms(3) show ?thesis by (auto simp: fraction_def take_frac_def split: list.split)
next
  case False
  let ?p = "rev (dropWhile (\<lambda>c. c = CHR ''0'') (rev (nine n)))"
  have nine: "length (nine n) = 9" "list_all is_digit (nine n)" "digits_val (nine n) = n"
    using nine_digits [OF assms(1,2)] by blast+
  have pad: "take 9 (?p @ replicate 9 (CHR ''0'')) = nine n" by (rule pad_zeros [OF nine(1)])
  have dig: "\<forall>c\<in>set ?p. is_digit c" using nine(2) by (auto simp: list_all_iff dest: set_dropWhileD)
  have "?p \<noteq> []"
  proof
    assume "?p = []"
    have "nine n = replicate 9 (CHR ''0'')" using pad unfolding \<open>?p = []\<close> by simp
    then have "digits_val (nine n) = 0" by (simp add: digits_val_def digit_val_def byte_def numeral_eq_Suc)
    with nine(3) False show False by simp
  qed
  then obtain d q where p: "?p = d # q" by (cases ?p) auto
  have "takeWhile is_digit (?p @ r) = ?p \<and> dropWhile is_digit (?p @ r) = r"
    using span_append [OF dig] assms(3) by auto
  with p dig nine(3) pad False show ?thesis
    by (simp add: fraction_def take_frac_def Let_def)
qed

lemma time_parts:
  fixes l :: int
  defines "sec \<equiv> l div Second" and "sod \<equiv> l div Second mod 86400"
  shows "0 \<le> sod div 3600" "sod div 3600 \<le> 23" "0 \<le> sod div 60 mod 60" "sod div 60 mod 60 \<le> 59"
    "0 \<le> sod mod 60" "sod mod 60 \<le> 59" "sec div 86400 * 86400 + sod div 3600 * 3600 + sod div 60 mod 60 * 60 + sod mod 60 = sec"
proof -
  have sod: "0 \<le> sod" "sod < 86400" "sec div 86400 * 86400 + sod = sec" by (simp_all add: sod_def sec_def)
  have "sod div 60 div 60 = sod div 3600" by (simp flip: zdiv_zmult2_eq)
  with div_mult_mod_eq [of sod 60] div_mult_mod_eq [of "sod div 60" 60] sod
  show "sec div 86400 * 86400 + sod div 3600 * 3600 + sod div 60 mod 60 * 60 + sod mod 60 = sec" by linarith
  show "0 \<le> sod div 3600" "sod div 3600 \<le> 23" "0 \<le> sod div 60 mod 60" "sod div 60 mod 60 \<le> 59"
    "0 \<le> sod mod 60" "sod mod 60 \<le> 59" using sod by linarith+
qed

lemma daysIn_le:
  assumes "1 \<le> m" and "m \<le> 12"
  shows "daysIn m y \<le> 31"
proof -
  have "m \<in> {1, 2, 3, 4, 5, 6, 7, 8, 9, 10, 11, 12}" using assms by simp presburger
  then show ?thesis by (elim insertE emptyE) (simp_all add: daysIn_def daysBefore_def)
qed

text \<open>A written time as the fields it shows; they denote the instant.\<close>

definition timestamp :: "int \<Rightarrow> int \<Rightarrow> int \<Rightarrow> int \<Rightarrow> int \<Rightarrow> int \<Rightarrow> int \<Rightarrow> int \<Rightarrow> string" where
  "timestamp y m d h mi sc n off =
     four y @ CHR ''-'' # two m @ CHR ''-'' # two d @ CHR ''T'' # two h @ CHR '':'' # two mi @ CHR '':'' #
     two sc @ fraction n @ zone_text off @ []"

definition timestamp_ok :: "int \<Rightarrow> int \<Rightarrow> int \<Rightarrow> int \<Rightarrow> int \<Rightarrow> int \<Rightarrow> int \<Rightarrow> int \<Rightarrow> bool" where
  "timestamp_ok y m d h mi sc n off \<longleftrightarrow> 0 \<le> y \<and> y < 10000 \<and> 1 \<le> m \<and> m \<le> 12 \<and> 1 \<le> d \<and> d \<le> daysIn m y \<and>
     0 \<le> h \<and> h \<le> 23 \<and> 0 \<le> mi \<and> mi \<le> 59 \<and> 0 \<le> sc \<and> sc \<le> 59 \<and> 0 \<le> n \<and> n < Second \<and> \<bar>off\<bar> < 1440"

definition instant :: "int \<Rightarrow> int \<Rightarrow> int \<Rightarrow> int \<Rightarrow> int \<Rightarrow> int \<Rightarrow> int \<Rightarrow> int \<Rightarrow> time" where
  "instant y m d h mi sc n off =
     (((days_since_year0 y m d - epoch_days) * 86400 + h * 3600 + mi * 60 + sc) - off * 60) * Second + n"

lemma parse_timestamp:
  assumes "timestamp_ok y m d h mi sc n off"
  shows "parse_rfc3339 (timestamp y m d h mi sc n off) = Some (instant y m d h mi sc n off)"
proof -
  note bounds = assms [unfolded timestamp_ok_def]
  have frac: "take_frac (fraction n @ zone_text off @ []) = (n, zone_text off @ [])"
    by (rule take_frac_fraction) (use bounds zone_text_front [of off "[]"] in auto)
  have "d < 100" using bounds daysIn_le [of m y] by linarith
  with bounds show ?thesis
    unfolding parse_rfc3339_def timestamp_def instant_def
    by (simp add: frac take_zone_text del: append_Nil2)
qed

lemma rfc3339_timestamp:
  assumes "rfc3339 zone t = Some s"
  shows "\<exists>y m d h mi sc n off. s = timestamp y m d h mi sc n off \<and> timestamp_ok y m d h mi sc n off \<and>
    t = instant y m d h mi sc n off"
proof -
  define off l where "off = zone t" and "l = t + zone t * Minute"
  define sec sod where "sec = l div Second" and "sod = l div Second mod 86400"
  obtain y yd where yd: "year_day (sec div 86400 + epoch_days) = (y, yd)" by (rule prod.exhaust)
  obtain m d where md: "month_day y yd = (m, d)" by (rule prod.exhaust)
  have s: "s = timestamp y m d (sod div 3600) (sod div 60 mod 60) (sod mod 60) (l mod Second) off"
    and bounds: "0 \<le> y" "y < 10000" "\<bar>off\<bar> < 1440"
    using assms yd md
    by (auto simp: rfc3339_def timestamp_def Let_def off_def l_def sec_def sod_def not_less split: if_splits)
  note day = year_day_split [OF yd]
  note month = month_day_split [OF md day(2,3)]
  note clock = time_parts [of l, folded sec_def sod_def]
  have days: "days_since_year0 y m d - epoch_days = sec div 86400" using month(1) day(1) by simp
  have t: "t = l - off * Minute" by (simp add: l_def off_def)
  have "(sec - off * 60) * Second + r = l - off * Minute" if "sec * Second + r = l" for r using that by simp
  from this [OF div_mult_mod_eq [of l Second, folded sec_def]]
  have "instant y m d (sod div 3600) (sod div 60 mod 60) (sod mod 60) (l mod Second) off = t"
    unfolding instant_def days clock(7) t .
  moreover have "timestamp_ok y m d (sod div 3600) (sod div 60 mod 60) (sod mod 60) (l mod Second) off"
  proof -
    have "0 \<le> l mod Second" "l mod Second < Second" by simp_all
    with bounds month(2-5) clock(1-6) show ?thesis unfolding timestamp_ok_def by blast
  qed
  ultimately show ?thesis using s by metis
qed

lemma time_roundtrip:
  assumes "marshal_time zone t = Inr s"
  shows "unmarshal_time s old = Some t"
proof -
  from assms obtain u where u: "rfc3339 zone t = Some u" "s = CHR 0x22 # u @ [CHR 0x22]"
    by (auto simp: marshal_time_def split: option.splits)
  from rfc3339_timestamp [OF u(1)] have "parse_rfc3339 u = Some t" using parse_timestamp by blast
  with u(2) show ?thesis by (simp add: unmarshal_time_def)
qed

end
