(* ===== verification/Event_Laws.thy ===== *)
theory Event_Laws
  imports Events Json_Laws Time_Laws
begin

text \<open>
  The envelope of an event survives the wire: what the relay marshals the notification
  service unmarshals, up to the two things JSON does not keep (bytes that are not UTF-8, and
  white space in the payload).
\<close>

section \<open>A written time is a JSON string\<close>

lemma plain_append [simp]: "plain_text (u @ v) \<longleftrightarrow> plain_text u \<and> plain_text v"
  by (auto simp: plain_text_def)

lemma plain_Cons [simp]: "plain_text []" "plain_text (c # v) \<longleftrightarrow> plain_char c \<and> plain_text v"
  by (auto simp: plain_text_def)

lemma plain_digits: "list_all is_digit u \<Longrightarrow> plain_text u"
  by (auto simp: plain_text_def plain_char_def list_all_iff is_digit_def)

lemma plain_two: "0 \<le> n \<Longrightarrow> n < 100 \<Longrightarrow> plain_text (two n)"
  using two_digits [of n] by (simp add: plain_digits)

lemma plain_marks:
  "plain_char (CHR ''-'')" "plain_char (CHR ''T'')" "plain_char (CHR '':'')" "plain_char (CHR ''.'')"
  "plain_char (CHR ''Z'')" "plain_char (CHR ''+'')"
  by (simp_all add: plain_char_def byte_def)

lemma plain_fraction:
  assumes "0 \<le> n" and "n < Second"
  shows "plain_text (fraction n)"
proof -
  have "list_all is_digit (rev (dropWhile (\<lambda>c. c = CHR ''0'') (rev (nine n))))"
    using nine_digits [OF assms] by (auto simp: list_all_iff dest: set_dropWhileD)
  then show ?thesis by (simp add: fraction_def plain_marks plain_digits)
qed

lemma plain_zone:
  assumes "\<bar>off\<bar> < 1440"
  shows "plain_text (zone_text off)"
proof -
  have "0 \<le> \<bar>off\<bar> div 60" "\<bar>off\<bar> div 60 < 100" "0 \<le> \<bar>off\<bar> mod 60" "\<bar>off\<bar> mod 60 < 100" using assms by linarith+
  then show ?thesis by (simp add: zone_text_def plain_marks plain_two)
qed

lemma plain_timestamp:
  assumes "timestamp_ok y m d h mi sc n off"
  shows "plain_text (timestamp y m d h mi sc n off)"
proof -
  note bounds = assms [unfolded timestamp_ok_def]
  have "d < 100" using bounds daysIn_le [of m y] by linarith
  moreover have "plain_text (four y)" using bounds four_digits [of y] by (simp add: plain_digits)
  ultimately show ?thesis
    using bounds by (simp add: timestamp_def plain_marks plain_two plain_fraction plain_zone)
qed

lemma marshal_time_value:
  assumes "marshal_time zone t = Inr s"
  shows "\<exists>v. value_text d s v"
proof -
  from assms obtain u where u: "rfc3339 zone t = Some u" "s = CHR 0x22 # u @ [CHR 0x22]"
    by (auto simp: marshal_time_def split: option.splits)
  from rfc3339_timestamp [OF u(1)] have "plain_text u" using plain_timestamp by blast
  with u(2) plain_text_value show ?thesis by blast
qed

section \<open>The round trip of an envelope\<close>

text \<open>What a reader gets of an envelope written with the compact payload \<open>p\<close>.\<close>

definition received :: "Envelope \<Rightarrow> string \<Rightarrow> Envelope" where
  "received e p = \<lparr>env_EventID = to_valid (env_EventID e), env_EventType = to_valid (env_EventType e),
     env_OccurredAt = env_OccurredAt e, env_Aggregate = to_valid (env_Aggregate e),
     env_AggregateID = to_valid (env_AggregateID e), env_RequestID = to_valid (env_RequestID e),
     env_Payload = Some p\<rparr>"

definition payload_ok :: "Envelope \<Rightarrow> bool" where
  "payload_ok e \<longleftrightarrow> (case env_Payload e of None \<Rightarrow> True | Some s \<Rightarrow> embeddable s)"

lemma field_names:
  "to_valid ''event_id'' = ''event_id''" "to_valid ''event_type'' = ''event_type''"
  "to_valid ''occurred_at'' = ''occurred_at''" "to_valid ''aggregate'' = ''aggregate''"
  "to_valid ''aggregate_id'' = ''aggregate_id''" "to_valid ''request_id'' = ''request_id''" "to_valid ''payload'' = ''payload''"
  by (rule to_valid_ascii; simp add: byte_def)+

lemma field_of_name:
  "json_field envelope_names ''event_id'' = Some ''event_id''" "json_field envelope_names ''event_type'' = Some ''event_type''"
  "json_field envelope_names ''occurred_at'' = Some ''occurred_at''" "json_field envelope_names ''aggregate'' = Some ''aggregate''"
  "json_field envelope_names ''aggregate_id'' = Some ''aggregate_id''" "json_field envelope_names ''request_id'' = Some ''request_id''"
  "json_field envelope_names ''payload'' = Some ''payload''"
  by (simp_all add: json_field_def envelope_names_def)

lemma marshal_raw_value:
  assumes "marshal_raw m = Inr p" and "case m of None \<Rightarrow> True | Some s \<Rightarrow> embeddable s"
  shows "\<exists>v. value_text (maxNestingDepth - 1) p v"
proof (cases m)
  case None
  have "value_text (maxNestingDepth - 1) ''null'' JNull"
    by (rule literal_value) (use literal_words(1) in \<open>auto simp: is_ws_def byte_def\<close>)
  with None assms(1) show ?thesis by (auto simp: marshal_raw_def)
next
  case (Some s)
  with assms embeddable_value_text [of s] show ?thesis
    by (auto simp: marshal_raw_def json_compact_def split: option.splits if_splits)
qed

lemma unmarshal_marshal:
  assumes "marshal_Envelope zone e = Inr b" and "marshal_raw (env_Payload e) = Inr p" and "payload_ok e"
  shows "unmarshal_Envelope b = (None, received e p)"
proof -
  from assms(1,2) obtain t where t: "marshal_time zone (env_OccurredAt e) = Inr t" "b = json_object (envelope_fields e t p)"
    by (auto simp: marshal_Envelope_def split: sum.splits)
  obtain vt where vt: "value_text (maxNestingDepth - 1) t vt" using marshal_time_value [OF t(1)] by blast
  obtain vp where vp: "value_text (maxNestingDepth - 1) p vp"
    using marshal_raw_value [OF assms(2)] assms(3) by (auto simp: payload_ok_def)
  define fs where "fs =
     [(''event_id'', quote (env_EventID e), JString (to_valid (env_EventID e))),
      (''event_type'', quote (env_EventType e), JString (to_valid (env_EventType e))),
      (''occurred_at'', t, vt),
      (''aggregate'', quote (env_Aggregate e), JString (to_valid (env_Aggregate e))),
      (''aggregate_id'', quote (env_AggregateID e), JString (to_valid (env_AggregateID e)))]
     @ (if env_RequestID e = [] then [] else [(''request_id'', quote (env_RequestID e), JString (to_valid (env_RequestID e)))])
     @ [(''payload'', p, vp)]"
  have "b = json_object (map (\<lambda>(k, u, v). (k, u)) fs)" unfolding t(2) by (simp add: fs_def envelope_fields_def)
  moreover have "fs \<noteq> []" "\<forall>(k, u, v)\<in>set fs. value_text (maxNestingDepth - 1) u v"
    using vt vp quote_value by (auto simp: fs_def)
  ultimately have parse: "json_parse b = Some (JObject (members_of fs))" using json_object_parse by simp
  have empty: "to_valid [] = []" by (simp add: to_valid.simps)
  note time = time_roundtrip [OF t(1)]
  show ?thesis
    unfolding unmarshal_Envelope_def parse
    by (simp add: fs_def field_names field_of_name store_string_def time received_def zero_Envelope_def empty Let_def)
qed

section \<open>Properties\<close>

text \<open>
  C15. The envelope survives the wire: every envelope that is marshalled without an error, and
  whose payload does not exceed the reader's limit on nesting together with the envelope
  around it, is unmarshalled without an error, with the same five texts and the same instant.
  In the texts only bytes that are no UTF-8 are replaced. The payload comes back as
  \<open>json.Marshal\<close> writes a raw message: without white space between the tokens, with <, >, & and
  U+2028, U+2029 written as escapes, and a nil payload as \<open>null\<close>.
\<close>

theorem envelope_roundtrip:
  assumes "marshal_Envelope zone e = Inr b" and "payload_ok e"
  shows "\<exists>p. marshal_raw (env_Payload e) = Inr p \<and> unmarshal_Envelope b = (None, received e p)"
proof -
  obtain p where p: "marshal_raw (env_Payload e) = Inr p"
    using assms(1) by (auto simp: marshal_Envelope_def split: sum.splits)
  with unmarshal_marshal [OF assms(1) p assms(2)] show ?thesis by blast
qed

definition wire_example :: Envelope where
  "wire_example = \<lparr>env_EventID = ''u1'', env_EventType = EventTypeTicketCreated, env_OccurredAt = 1700000000123456789,
     env_Aggregate = ''ticket'', env_AggregateID = ''t1'', env_RequestID = [], env_Payload = Some ''{ }''\<rparr>"

theorem envelope_roundtrip_witness:
  "\<exists>b. marshal_Envelope (\<lambda>_. 90) wire_example = Inr b \<and> unmarshal_Envelope b = (None, wire_example\<lparr>env_Payload := Some ''{}''\<rparr>)"
proof -
  have raw: "marshal_raw (env_Payload wire_example) = Inr ''{}''" by code_simp
  have "payload_ok wire_example" by code_simp
  moreover have "case marshal_time (\<lambda>_. 90) (env_OccurredAt wire_example) of Inr _ \<Rightarrow> True | Inl _ \<Rightarrow> False" by code_simp
  with raw obtain b where b: "marshal_Envelope (\<lambda>_. 90) wire_example = Inr b"
    by (auto simp: marshal_Envelope_def split: sum.splits)
  ultimately obtain p where "marshal_raw (env_Payload wire_example) = Inr p" "unmarshal_Envelope b = (None, received wire_example p)"
    using envelope_roundtrip by blast
  moreover have "received wire_example ''{}'' = wire_example\<lparr>env_Payload := Some ''{}''\<rparr>"
    by (simp add: received_def wire_example_def EventTypeTicketCreated_def to_valid_ascii byte_def)
  ultimately show ?thesis using b raw by simp
qed

end
