(* ===== verification/Consumer_Laws.thy ===== *)
theory Consumer_Laws
  imports Notification_Service "HOL-Library.Option_ord"
begin

text \<open>
  Laws of the notification service as a whole: the contract by which a property of the
  database and the topics is carried through its loops, the progress its table makes, and
  what a committed message means.
\<close>

section \<open>The contract of a consumer invariant\<close>

text \<open>
  The contract of a property of the database and the topics that the notification service
  keeps: its four statements and the writing of dead letters keep it.
\<close>

definition service_ok :: "service \<Rightarrow> bool" where
  "service_ok sv \<longleftrightarrow> (\<forall>d. sv_dlq sv = Some d \<longrightarrow> producer_ok d)"

locale consumer_contract =
  fixes pg :: "'r postgres" and I :: "world \<Rightarrow> bool"
  assumes frame: "w_db w' = w_db w \<Longrightarrow> w_topics w' = w_topics w \<Longrightarrow> I w \<Longrightarrow> I w'"
    and start: "keeps I (processed_call (\<lambda>ev. StartProcessing pg (ev_db ev) (ev_time ev) e))"
    and finish: "keeps I (processed_call (\<lambda>ev. notify_MarkDone pg (ev_db ev) (ev_time ev) eid))"
    and retry: "keeps I (processed_call (\<lambda>ev. notify_MarkFailed pg (ev_db ev) (ev_time ev) eid msg))"
    and bury: "keeps I (processed_call (\<lambda>ev. notify_MarkDead pg (ev_db ev) (ev_time ev) eid msg))"
    and letter: "producer_ok p \<Longrightarrow> valid I (Produce p k v t) (\<lambda>(r, p') w. producer_ok p' \<and> I w)"
begin

lemma quiet:
  "keeps I next_event" "keeps I time_Now" "keeps I (notify_event u)" "keeps I (count_processed et st)"
  "keeps I (count_error et reason)" "keeps I count_fetched" "keeps I (commit_dead m)" "keeps I (commit_done sv m)"
  "keeps I (idle_round sv)"
proof -
  have silent: "keeps I f" if "\<And>w a w'. run_state f w = (a, w') \<Longrightarrow> w_db w' = w_db w \<and> w_topics w' = w_topics w" for f
    by (rule validI) (use that frame in blast)
  show "keeps I next_event" "keeps I time_Now" "keeps I (notify_event u)" "keeps I (count_processed et st)"
    "keeps I (count_error et reason)" "keeps I count_fetched"
    by (rule silent; auto simp: notify_event_def count_processed_def count_error_def count_fetched_def)+
  show "keeps I (commit_dead m)" "keeps I (commit_done sv m)"
    by (rule silent; auto simp: commit_dead_def commit_done_def count_committed_def Let_def split: sum.splits)+
  show "keeps I (idle_round sv)"
    by (rule silent) (auto simp: idle_round_def Let_def split: if_splits)
qed

lemma handleMessage_keeps: "keeps I (handleMessage pg c value out)"
  unfolding handleMessage_def process_event_def
  by (intro valid_case_prod valid_case_option valid_bind [OF start] valid_case_sum valid_if valid_return
      valid_bind [OF quiet(3)] valid_bind [OF retry] valid_bind [OF finish])

lemma send_dlq_keeps:
  assumes "service_ok sv"
  shows "valid I (send_dlq sv m err) (\<lambda>sv' w. I w \<and> service_ok sv')"
  unfolding send_dlq_def
proof (intro valid_case_option)
  fix d assume "sv_dlq sv = Some d"
  with assms have "producer_ok d" by (simp add: service_ok_def)
  from letter [OF this] show "valid I (State_Monad.bind (Produce d (m_Key m) (wrapDLQ (value_slice m) err) (5 * Second))
      (\<lambda>(_, d'). return (sv\<lparr>sv_dlq := Some d'\<rparr>))) (\<lambda>sv' w. I w \<and> service_ok sv')"
    by (rule valid_bind) (auto simp: service_ok_def intro!: valid_case_prod valid_return)
qed (use assms in \<open>simp add: valid_return\<close>)

lemma same_dlq:
  assumes "keeps I f" and "\<And>w sv' w'. run_state f w = (sv', w') \<Longrightarrow> sv_dlq sv' = sv_dlq sv" and "service_ok sv"
  shows "valid I f (\<lambda>sv' w. I w \<and> service_ok sv')"
  by (rule validI) (use assms(2,3) validD [OF assms(1)] in \<open>auto simp: service_ok_def\<close>)

lemma commit_done_service: "service_ok sv \<Longrightarrow> valid I (commit_done sv m) (\<lambda>sv' w. I w \<and> service_ok sv')"
  by (rule same_dlq [OF quiet(8)])
     (auto simp: commit_done_def count_committed_def Let_def split: sum.splits)

lemma idle_round_service: "service_ok sv \<Longrightarrow> valid I (idle_round sv) (\<lambda>sv' w. I w \<and> service_ok sv')"
  by (rule same_dlq [OF quiet(9)]) (auto simp: idle_round_def Let_def split: if_splits)

definition after_round :: "round \<Rightarrow> world \<Rightarrow> bool" where
  "after_round r w \<longleftrightarrow> I w \<and> (case r of Break sv \<Rightarrow> service_ok sv | Stop \<Rightarrow> True | Again sv _ \<Rightarrow> service_ok sv)"

lemma after_round_eq: "after_round (Again sv out) = (\<lambda>w. I w \<and> service_ok sv)"
  by (simp add: after_round_def fun_eq_iff)

lemma retry_round_keeps:
  assumes ok: "service_ok sv"
  shows "valid I (retry_round pg c m sv out) after_round"
  unfolding retry_round_def
proof (rule valid_bind [OF handleMessage_keeps], intro valid_case_prod valid_case_option)
  fix e et k
  have buried: "valid (\<lambda>w. I w \<and> service_ok sv') (do { commit_dead m; count_processed et ''dead''; return (Break sv') }) after_round" for sv'
    by (rule valid_assume, intro valid_bind [OF quiet(7)] valid_bind [OF quiet(4)] valid_return) (simp add: after_round_def)
  have marked: "valid (\<lambda>w. I w \<and> service_ok sv') (do {
      _ \<leftarrow> processed_call (\<lambda>ev. notify_MarkDead pg (ev_db ev) (ev_time ev) (extractEventID (m_Value m)) (Error e));
      commit_dead m; count_processed et ''dead''; return (Break sv') }) after_round" for sv'
    by (rule valid_assume, rule valid_bind [OF bury], rule valid_pre [OF buried]) simp
  show "valid I (do { count_error et (classify e);
      if classify e = ''unmarshal'' then do { sv' \<leftarrow> send_dlq sv m e; commit_dead m; count_processed et ''dead''; return (Break sv') }
      else if 0 < nc_maxAttempts c \<and> nc_maxAttempts c \<le> k then do { sv' \<leftarrow> send_dlq sv m e;
        _ \<leftarrow> processed_call (\<lambda>ev. notify_MarkDead pg (ev_db ev) (ev_time ev) (extractEventID (m_Value m)) (Error e));
        commit_dead m; count_processed et ''dead''; return (Break sv') }
      else do { ev \<leftarrow> next_event; return (if ev_done ev then Stop else Again sv (et, k)) } }) after_round"
    by (intro valid_bind [OF quiet(5)] valid_if valid_bind [OF send_dlq_keeps [OF ok]] buried marked
        valid_bind [OF quiet(1)] valid_return) (simp add: after_round_def ok)
  show "valid I (do { count_processed et ''ok''; sv' \<leftarrow> commit_done sv m; return (Break sv') }) after_round"
    by (intro valid_bind [OF quiet(4)] valid_bind [OF commit_done_service [OF ok]] valid_return) (simp add: after_round_def)
qed

definition after_loop :: "service option option \<Rightarrow> world \<Rightarrow> bool" where
  "after_loop r w \<longleftrightarrow> I w \<and> (\<forall>sv. r = Some (Some sv) \<longrightarrow> service_ok sv)"

lemma after_loop_eq: "after_loop (Some (Some sv)) = (\<lambda>w. I w \<and> service_ok sv)"
  by (simp add: after_loop_def fun_eq_iff)

lemma retry_loop_keeps: "service_ok sv \<Longrightarrow> valid I (retry_loop fuel pg c m sv out) after_loop"
proof (induction fuel arbitrary: sv out)
  case (Suc fuel)
  have "valid (after_round r) (case r of Break sv' \<Rightarrow> return (Some (Some sv')) | Stop \<Rightarrow> return (Some None)
      | Again sv' out' \<Rightarrow> retry_loop fuel pg c m sv' out') after_loop" for r
  proof (cases r)
    case (Again sv' out')
    show ?thesis unfolding Again round.case after_round_eq by (rule valid_assume) (rule Suc.IH)
  qed (auto simp: after_round_def after_loop_def intro!: valid_return)
  then show ?case unfolding retry_loop.simps by (rule valid_bind [OF retry_round_keeps [OF Suc.prems]])
qed (simp add: valid_return after_loop_def)

lemma fetch_round_keeps:
  assumes ok: "service_ok sv"
  shows "valid I (fetch_round fuel pg c sv p) after_loop"
proof (cases p)
  case (Fetched m)
  have "service_ok (sv\<lparr>sv_timeoutStreak := 0\<rparr>)" using ok by (simp add: service_ok_def)
  then show ?thesis unfolding fetch_round_def Fetched poll.case
    by (intro valid_bind [OF quiet(6)] retry_loop_keeps)
next
  case (FetchFailed err b)
  show ?thesis unfolding fetch_round_def FetchFailed poll.case
    by (intro valid_if valid_bind [OF idle_round_service [OF ok]] valid_bind [OF quiet(2)] valid_return)
       (use ok in \<open>auto simp: after_loop_def service_ok_def\<close>)
qed (simp add: fetch_round_def valid_return after_loop_def)

lemma fetch_loop_keeps: "service_ok sv \<Longrightarrow> valid I (fetch_loop fuel pg c sv ps) after_loop"
proof (induction ps arbitrary: sv)
  case (Cons p ps)
  have "valid (after_loop r) (case r of Some (Some sv') \<Rightarrow> fetch_loop fuel pg c sv' ps | _ \<Rightarrow> return r) after_loop" for r
  proof (cases "\<exists>sv'. r = Some (Some sv')")
    case True
    then obtain sv' where r: "r = Some (Some sv')" by auto
    show ?thesis unfolding r option.case after_loop_eq by (rule valid_assume) (rule Cons.IH)
  qed (auto intro!: valid_return split: option.split)
  then show ?case unfolding fetch_loop.simps by (rule valid_bind [OF fetch_round_keeps [OF Cons.prems]])
qed (simp add: valid_return after_loop_def)

end

lemma new_service_ok: "service_ok (new_service c)"
  by (simp add: service_ok_def new_service_def)

section \<open>The reader\<close>

text \<open>
  Reopening gives the reader its configuration describes, and nothing in the loops closes it:
  every \<open>FetchMessage\<close> finds a reader of the configured topic and group.
\<close>

definition connected :: "ConsumerConfig \<Rightarrow> service \<Rightarrow> bool" where
  "connected cfg sv \<longleftrightarrow> sv_consumer sv = NewConsumer cfg"

lemma Reopen_connected [simp]: "Reopen (NewConsumer cfg) = NewConsumer cfg"
  by (simp add: Reopen_def NewConsumer_def)

lemma send_dlq_connected: "run_state (send_dlq sv m e) w = (sv', w') \<Longrightarrow> sv_consumer sv' = sv_consumer sv"
  by (auto simp: send_dlq_def split: option.splits prod.splits)

lemma commit_done_connected: "connected cfg sv \<Longrightarrow> run_state (commit_done sv m) w = (sv', w') \<Longrightarrow> connected cfg sv'"
  by (auto simp: commit_done_def connected_def Let_def split: sum.splits prod.splits)

lemma idle_round_connected: "connected cfg sv \<Longrightarrow> run_state (idle_round sv) w = (sv', w') \<Longrightarrow> connected cfg sv'"
  by (auto simp: idle_round_def connected_def Let_def split: if_splits)

lemma retry_round_connected:
  assumes "connected cfg sv" and "run_state (retry_round pg c m sv out) w = (r, w')"
  shows "case r of Break sv' \<Rightarrow> connected cfg sv' | Stop \<Rightarrow> True | Again sv' _ \<Rightarrow> connected cfg sv'"
  using assms
  by (auto simp: retry_round_def split: prod.splits option.splits if_splits
      dest: commit_done_connected dest!: send_dlq_connected) (auto simp: connected_def)

lemma retry_loop_connected:
  "connected cfg sv \<Longrightarrow> run_state (retry_loop n pg c m sv out) w = (Some (Some sv'), w') \<Longrightarrow> connected cfg sv'"
proof (induction n arbitrary: sv out w)
  case (Suc n)
  obtain r w1 where 1: "run_state (retry_round pg c m sv out) w = (r, w1)" by fastforce
  from retry_round_connected [OF Suc.prems(1) 1] Suc.prems(2) Suc.IH 1 show ?case
    by (cases r) auto
qed simp

lemma fetch_round_connected:
  assumes "connected cfg sv" and "run_state (fetch_round n pg c sv p) w = (Some (Some sv'), w')"
  shows "connected cfg sv'"
proof (cases p)
  case (Fetched m)
  have "connected cfg (sv\<lparr>sv_timeoutStreak := 0\<rparr>)" using assms(1) by (simp add: connected_def)
  with assms(2) Fetched show ?thesis by (auto simp: fetch_round_def split: prod.splits intro: retry_loop_connected)
next
  case (FetchFailed err ctxErr)
  with assms show ?thesis
    by (auto simp: fetch_round_def split: if_splits prod.splits dest: idle_round_connected) (simp_all add: connected_def)
qed (use assms in \<open>simp add: fetch_round_def\<close>)

lemma fetch_loop_connected:
  "connected cfg sv \<Longrightarrow> run_state (fetch_loop n pg c sv ps) w = (Some (Some sv'), w') \<Longrightarrow> connected cfg sv'"
proof (induction ps arbitrary: sv w)
  case (Cons p ps)
  obtain r w1 where 1: "run_state (fetch_round n pg c sv p) w = (r, w1)" by fastforce
  with Cons.prems(2) obtain sv1 where "r = Some (Some sv1)" "run_state (fetch_loop n pg c sv1 ps) w1 = (Some (Some sv'), w')"
    by (auto split: option.splits)
  with fetch_round_connected [OF Cons.prems(1)] 1 Cons.IH show ?case by blast
qed simp

text \<open>
  However the fetches, the commits and the database fail, the service goes on with a reader of
  the configured topic and group: \<open>FetchMessage\<close> never meets a closed consumer.
\<close>

lemma reader_never_lost:
  assumes "run_state (fetch_loop n pg c (new_service c) ps) w = (Some (Some sv), w')"
  shows "FetchMessage fetch (sv_consumer sv) = Some (fetch (newReader (c_cfg (sv_consumer (new_service c)))))"
proof -
  have "connected (c_cfg (sv_consumer (new_service c))) (new_service c)"
    by (simp add: connected_def new_service_def NewConsumer_def)
  from fetch_loop_connected [OF this assms] show ?thesis by (simp add: connected_def FetchMessage_def NewConsumer_def)
qed

section \<open>Progress of the table\<close>

text \<open>The statuses in the order of progress.\<close>

instantiation proc_status :: linorder
begin

fun rank_proc_status :: "proc_status \<Rightarrow> nat" where
  "rank_proc_status PProcessing = 0"
| "rank_proc_status PFailed = 1"
| "rank_proc_status PDone = 2"

definition less_eq_proc_status :: "proc_status \<Rightarrow> proc_status \<Rightarrow> bool" where
  "x \<le> y \<longleftrightarrow> rank_proc_status x \<le> rank_proc_status y"

definition less_proc_status :: "proc_status \<Rightarrow> proc_status \<Rightarrow> bool" where
  "x < y \<longleftrightarrow> rank_proc_status x < rank_proc_status y"

instance
proof
  fix x y :: proc_status
  assume "x \<le> y" "y \<le> x"
  then show "x = y" by (cases x; cases y) (simp_all add: less_eq_proc_status_def)
qed (auto simp: less_eq_proc_status_def less_proc_status_def)

end

lemma PProcessing_least [simp]: "PProcessing \<le> st"
  by (simp add: less_eq_proc_status_def)

text \<open>No row disappears and no count of attempts falls.\<close>

definition progress :: "processed_row list \<Rightarrow> processed_row list \<Rightarrow> bool" where
  "progress tab tab' \<longleftrightarrow>
     (\<forall>u r. row_of u tab = Some r \<longrightarrow> (\<exists>r'. row_of u tab' = Some r' \<and> pe_attempts r \<le> pe_attempts r'))"

lemma progress_refl [simp]: "progress tab tab"
  by (simp add: progress_def)

lemma progress_trans: "progress tab tab' \<Longrightarrow> progress tab' tab'' \<Longrightarrow> progress tab tab''"
  unfolding progress_def by (meson order_trans)

lemma progress_exec: "(\<And>x tab'. stmt = Inr (x, tab') \<Longrightarrow> progress tab tab') \<Longrightarrow> progress tab (snd (exec oc tab stmt))"
  by (rule exec_keeps [where I = "progress tab"]) auto

lemma progress_update:
  assumes "\<And>r. pe_event_id (upd r) = pe_event_id r" and "\<And>r. pe_attempts r \<le> pe_attempts (upd r)"
  shows "progress tab (sql_update (\<lambda>r. pe_event_id r = v) upd tab)"
  using assms find_sql_update [of pe_event_id upd] by (auto simp: progress_def row_of_def)

lemma store_progress:
  "progress tab (snd (StartProcessing pg oc now e tab))"
  "progress tab (snd (notify_MarkDone pg oc now eid tab))"
  "progress tab (snd (notify_MarkFailed pg oc now eid msg tab))"
  "progress tab (snd (notify_MarkDead pg oc now eid msg tab))"
proof -
  have "progress tab tab'" if "upsert pg now e tab = Inr (x, tab')" for x tab'
    using that
  proof (cases rule: upsert_cases)
    case (insert uuid payload)
    then show ?thesis by (auto simp: progress_def row_of_def find_key_append)
  next
    case (update uuid r)
    then show ?thesis unfolding update(5) by (intro progress_update) (simp_all add: row_defs)
  qed
  then show "progress tab (snd (StartProcessing pg oc now e tab))" unfolding StartProcessing_snd by (rule progress_exec)
  have marked: "progress tab tab'"
    if "by_event_id pg eid upd tab = Inr (x, tab')" "\<And>r. pe_event_id (upd r) = pe_event_id r" "\<And>r. pe_attempts (upd r) = pe_attempts r"
    for upd x tab'
    using that progress_update [of upd tab] by (auto simp: by_event_id_def split: option.splits)
  show "progress tab (snd (notify_MarkDone pg oc now eid tab))"
    "progress tab (snd (notify_MarkFailed pg oc now eid msg tab))"
    "progress tab (snd (notify_MarkDead pg oc now eid msg tab))"
    unfolding notify_MarkDone_def notify_MarkFailed_def notify_MarkDead_def
    by (rule progress_exec, auto split: if_split_asm elim!: marked simp: row_defs)+
qed

interpretation advancing: consumer_contract pg "\<lambda>w. progress tab (db_processed (w_db w))" for pg :: "'r postgres" and tab
proof (unfold_locales, goal_cases)
  case (6 p k v t)
  from Produce_wrote [OF 6] show ?case by (intro validI) (fastforce simp: wrote_def)
qed (auto intro!: valid_processed_call progress_trans [OF _ store_progress(1)] progress_trans [OF _ store_progress(2)]
    progress_trans [OF _ store_progress(3)] progress_trans [OF _ store_progress(4)])

text \<open>The event has a row with at least \<open>n\<close> attempts.\<close>

definition tried :: "string \<Rightarrow> int \<Rightarrow> processed_row list \<Rightarrow> bool" where
  "tried u n tab \<longleftrightarrow> (\<exists>r. row_of u tab = Some r \<and> n \<le> pe_attempts r)"

lemma tried_progress: "tried u n tab \<Longrightarrow> progress tab tab' \<Longrightarrow> tried u n tab'"
  unfolding tried_def progress_def by (meson order_trans)

lemma finished_settled: "finished_in u tab \<longleftrightarrow> (\<exists>st n. settled u st n tab)"
  by (auto simp: finished_in_def settled_def split: option.splits)

section \<open>What a handled message leaves behind\<close>

lemma StartProcessing_Inr:
  assumes "StartProcessing pg oc now e tab = (Inr (go, n, st), tab')"
  obtains u r where "uuid_in pg (p_EventID e) = Some u" "row_of u tab' = Some r" "pe_attempts r = n" "pe_status r = st"
    "go \<longleftrightarrow> \<not> finished st"
proof -
  obtain res tab1 where x: "exec oc tab (upsert pg now e tab) = (res, tab1)" by (rule prod.exhaust)
  with assms have up: "upsert pg now e tab = Inr ((st, n), tab')" and go: "go \<longleftrightarrow> \<not> finished st"
    by (auto simp: StartProcessing_def exec_Inr finished_def split: sum.splits prod.splits if_splits)
  from up show thesis
  proof (cases rule: upsert_cases)
    case (insert u payload)
    then show thesis using go by (intro that [of u "fresh_row now u payload e"]) (auto simp: row_of_def find_key_append row_defs)
  next
    case (update u r)
    then have "row_of u tab = Some r" by (simp add: row_of_def)
    with update show thesis using go by (intro that [of u "restart_row now r"]) (simp_all add: row_of_update)
  qed
qed

text \<open>The count a handler reports is zero, the one it was given, or backed by the event's row.\<close>

definition backed :: "'r postgres \<Rightarrow> message \<Rightarrow> int \<Rightarrow> processed_row list \<Rightarrow> bool" where
  "backed pg m k tab \<longleftrightarrow> k \<le> 0 \<or> (\<exists>u. event_of pg m = Some u \<and> tried u k tab)"

lemma backed_progress: "backed pg m k tab \<Longrightarrow> progress tab tab' \<Longrightarrow> backed pg m k tab'"
  by (auto simp: backed_def intro: tried_progress)

lemma process_event_progress: "run_state (process_event pg c env k) w = (res, w') \<Longrightarrow> progress (ptab w) (ptab w')"
  by (auto simp: process_event_def notify_event_def split: if_splits sum.splits
      intro: store_progress progress_trans [OF store_progress(2) store_progress(3)])

lemma process_event_None:
  assumes "run_state (process_event pg c env k) w = ((None, et, k'), w')" and "uuid_in pg (env_EventID env) = Some u"
    and "row_of u (ptab w) \<noteq> None"
  shows "finished_in u (ptab w')"
proof -
  have "fst (notify_MarkDone pg (ev_db (cur_event w)) (ev_time (cur_event w)) (env_EventID env) (ptab w)) = Inr ()"
    and w': "ptab w' = snd (notify_MarkDone pg (ev_db (cur_event w)) (ev_time (cur_event w)) (env_EventID env) (ptab w))"
    using assms(1) by (auto simp: process_event_def notify_event_def split: if_splits sum.splits)
  then have "ev_db (cur_event w) = Success" using assms(2)
    by (cases "ev_db (cur_event w)") (auto simp: notify_MarkDone_def by_event_id_def)
  then show ?thesis using assms(2,3) unfolding w'
    by (auto simp: notify_MarkDone_def by_event_id_def finished_in_def row_of_update done_row_def finished_def)
qed

lemma handleMessage_result:
  assumes run: "run_state (handleMessage pg c (m_Value m) out) w = ((err, et, k), w')" and out: "backed pg m (snd out) (ptab w)"
  shows "backed pg m k (ptab w') \<and> progress (ptab w) (ptab w') \<and>
    (err = None \<longrightarrow> (\<exists>u. event_of pg m = Some u \<and> finished_in u (ptab w'))) \<and>
    (\<forall>e. err = Some e \<longrightarrow> classify e = ''unmarshal'' \<longrightarrow> fst (unmarshal_Envelope (m_Value m)) \<noteq> None)"
proof (cases "unmarshal_Envelope (m_Value m)")
  case (Pair derr env)
  show ?thesis
  proof (cases derr)
    case (Some e)
    with run out Pair show ?thesis by (auto simp: handleMessage_def)
  next
    case None
    have ev: "event_of pg m = uuid_in pg (env_EventID env)" by (simp add: event_of_def extractEventID_def Pair None)
    define w1 where "w1 = snd (run_state (processed_call (\<lambda>ev. StartProcessing pg (ev_db ev) (ev_time ev) (processed_event env))) w)"
    obtain res tab1 where s: "StartProcessing pg (ev_db (cur_event w)) (ev_time (cur_event w)) (processed_event env) (ptab w) = (res, tab1)"
      by (rule prod.exhaust)
    have w1: "ptab w1 = tab1" by (simp add: w1_def s)
    have p1: "progress (ptab w) tab1" using store_progress(1) [of "ptab w"] s by (metis snd_conv)
    show ?thesis
    proof (cases res)
      case (Inl e)
      with run s have "err = Some (wrap ''db_start'' e)" "k = snd out" "ptab w' = tab1"
        by (auto simp: handleMessage_def Pair None)
      then show ?thesis using p1 out by (auto simp: wrap_def intro: backed_progress)
    next
      case (Inr x)
      obtain start n st where x: "x = (start, n, st)" by (cases x)
      obtain u r where u: "uuid_in pg (env_EventID env) = Some u" "row_of u tab1 = Some r" "pe_attempts r = n"
          "pe_status r = st" "start \<longleftrightarrow> \<not> finished st"
        using StartProcessing_Inr s Inr x by (metis ProcessedEvent.select_convs(1) processed_event_def)
      have bk: "backed pg m n tab1" using u by (auto simp: backed_def ev tried_def)
      show ?thesis
      proof (cases start)
        case False
        with run s Inr x have "err = None" "k = n" "ptab w' = tab1" by (auto simp: handleMessage_def Pair None)
        then show ?thesis using bk p1 u False by (auto simp: ev finished_in_def)
      next
        case True
        have pr: "run_state (process_event pg c env n) w1 = ((err, et, k), w')"
          using run s Inr x True by (simp add: handleMessage_def Pair None w1_def)
        then have "k = n" "\<forall>e. err = Some e \<longrightarrow> classify e \<noteq> ''unmarshal''"
          by (auto simp: process_event_def wrap_def split: if_splits sum.splits prod.splits)
        moreover have "finished_in u (ptab w')" if "err = None"
          using process_event_None [OF pr [unfolded that] u(1)] u(2) w1 by simp
        ultimately show ?thesis
          using process_event_progress [OF pr] bk p1 u(1) unfolding w1 ev by (auto intro: backed_progress progress_trans)
      qed
    qed
  qed
qed

text \<open>
  A message is accounted for when it can not be decoded, when its event is finished, or when
  the attempts at its event are used up.
\<close>

definition accounted :: "'r postgres \<Rightarrow> notify_cfg \<Rightarrow> processed_row list \<Rightarrow> message \<Rightarrow> bool" where
  "accounted pg c tab m \<longleftrightarrow>
     fst (unmarshal_Envelope (m_Value m)) \<noteq> None \<or>
     (\<exists>u. event_of pg m = Some u \<and> (finished_in u tab \<or> 0 < nc_maxAttempts c \<and> tried u (nc_maxAttempts c) tab))"

lemma accounted_mono:
  "accounted pg c tab m \<Longrightarrow> progress tab tab' \<Longrightarrow> (\<And>u. finished_in u tab \<Longrightarrow> finished_in u tab') \<Longrightarrow> accounted pg c tab' m"
  unfolding accounted_def using tried_progress by metis

lemma finished_handleMessage:
  assumes "run_state (handleMessage pg c value out) w = (res, w')" and "finished_in u (ptab w)"
  shows "finished_in u (ptab w')"
proof -
  from assms(2) obtain st n where "at_rest pg u st n (told pg u w) w" by (auto simp: finished_settled at_rest_def)
  from validD [OF valid_handleMessage_at_rest this assms(1)] show ?thesis by (auto simp: finished_settled at_rest_def)
qed

lemma finished_MarkDead: "finished_in u tab \<Longrightarrow> finished_in u (snd (notify_MarkDead pg oc now i msg tab))"
  unfolding notify_MarkDead_def
  by (rule exec_keeps [where I = "finished_in u"])
     (auto simp: by_event_id_def finished_in_def row_of_update buried_row_def finished_def split: if_splits option.splits)

text \<open>One round: it goes on from the handler's table, which it changes at most by burying the event.\<close>

definition may_bury :: "'r postgres \<Rightarrow> message \<Rightarrow> processed_row list \<Rightarrow> processed_row list \<Rightarrow> bool" where
  "may_bury pg m tab tab' \<longleftrightarrow>
     tab' = tab \<or> (\<exists>oc now msg. tab' = snd (notify_MarkDead pg oc now (extractEventID (m_Value m)) msg tab))"

lemma may_buryI [simp]:
  "may_bury pg m tab tab" "may_bury pg m tab (snd (notify_MarkDead pg oc now (extractEventID (m_Value m)) msg tab))"
  by (auto simp: may_bury_def)

lemma may_bury_keeps:
  "may_bury pg m tab tab' \<Longrightarrow> progress tab tab'" "may_bury pg m tab tab' \<Longrightarrow> finished_in u tab \<Longrightarrow> finished_in u tab'"
  by (auto simp: may_bury_def intro: store_progress finished_MarkDead)

lemma retry_round_after:
  assumes "run_state (handleMessage pg c (m_Value m) out) w = ((err, et, k), w1)"
    and "run_state (retry_round pg c m sv out) w = (r, w')"
  shows "may_bury pg m (ptab w1) (ptab w') \<and>
    (\<forall>sv' out'. r = Again sv' out' \<longrightarrow> snd out' = k \<and> ptab w' = ptab w1)"
  using assms(2)
  by (auto simp: retry_round_def assms(1) count_processed_def count_error_def same_but_topics_def
      split: option.splits if_splits prod.splits dest!: send_dlq_frame commit_frames)

lemma retry_round_accounts:
  assumes run: "run_state (retry_round pg c m sv out) w = (r, w')" and out: "backed pg m (snd out) (ptab w)"
  shows "(w_commits w' = w_commits w \<or> w_commits w' = w_commits w @ [m] \<and> accounted pg c (ptab w') m) \<and>
    (\<forall>m0. accounted pg c (ptab w) m0 \<longrightarrow> accounted pg c (ptab w') m0) \<and>
    (\<forall>sv' out'. r = Again sv' out' \<longrightarrow> backed pg m (snd out') (ptab w'))"
proof -
  obtain err et k w1 where h: "run_state (handleMessage pg c (m_Value m) out) w = ((err, et, k), w1)" by (metis prod.exhaust)
  note res = handleMessage_result [OF h out]
  note after = retry_round_after [OF h run]
  have p: "progress (ptab w1) (ptab w')" and f: "finished_in u (ptab w1) \<Longrightarrow> finished_in u (ptab w')" for u
    using after may_bury_keeps by blast+
  have acc: "accounted pg c (ptab w') m"
    if "err = None \<or> (\<exists>e. err = Some e \<and> (classify e = ''unmarshal'' \<or> 0 < nc_maxAttempts c \<and> nc_maxAttempts c \<le> k))"
  proof -
    have "accounted pg c (ptab w1) m"
      using that res by (fastforce simp: accounted_def backed_def tried_def)
    then show ?thesis using p f by (rule accounted_mono)
  qed
  have old: "accounted pg c (ptab w') m0" if "accounted pg c (ptab w) m0" for m0
    using that progress_trans [of "ptab w" "ptab w1" "ptab w'"] res p f finished_handleMessage [OF h]
    by (auto intro: accounted_mono)
  show ?thesis
    using retry_round_commits [OF h run] acc old after res by auto
qed

definition commits_ok :: "'r postgres \<Rightarrow> notify_cfg \<Rightarrow> world \<Rightarrow> bool" where
  "commits_ok pg c w \<longleftrightarrow> (\<forall>m\<in>set (w_commits w). accounted pg c (ptab w) m)"

lemma retry_loop_commits_ok:
  "backed pg m (snd out) (ptab w) \<Longrightarrow> commits_ok pg c w \<Longrightarrow> run_state (retry_loop fuel pg c m sv out) w = (r, w') \<Longrightarrow> commits_ok pg c w'"
proof (induction fuel arbitrary: sv out w)
  case (Suc fuel)
  obtain x w1 where round: "run_state (retry_round pg c m sv out) w = (x, w1)" by (rule prod.exhaust)
  note acc = retry_round_accounts [OF round Suc.prems(1)]
  have ok: "commits_ok pg c w1" using acc Suc.prems(2) by (auto simp: commits_ok_def)
  show ?case
  proof (cases x)
    case (Again sv' out')
    then show ?thesis using Suc.IH [of out' w1 sv'] acc ok round Suc.prems(3) by simp
  qed (use ok round Suc.prems(3) in auto)
qed simp

lemma fetch_round_commits_ok:
  assumes "commits_ok pg c w" and "run_state (fetch_round fuel pg c sv p) w = (r, w')"
  shows "commits_ok pg c w'"
proof (cases p)
  case (Fetched m)
  have "commits_ok pg c (snd (run_state count_fetched w))" using assms(1) by (simp add: commits_ok_def count_fetched_def)
  then show ?thesis
    using retry_loop_commits_ok [of pg m "(''unknown'', 0)" "snd (run_state count_fetched w)" c fuel "sv\<lparr>sv_timeoutStreak := 0\<rparr>" r w'] assms(2)
    by (simp add: fetch_round_def Fetched backed_def count_fetched_def)
qed (use assms in \<open>auto simp: fetch_round_def idle_round_def commits_ok_def Let_def split: if_splits\<close>)

section \<open>Properties\<close>

text \<open>
  C8. A committed message is accounted for: whatever the database and Kafka answer, every
  message the consumer has committed is one that can not be decoded, or its event is finished
  in the table, or the attempts counted there have reached the limit. No event is lost by
  committing it too early.
\<close>

theorem committed_accounted:
  assumes "\<forall>m\<in>set (w_commits w). accounted pg c (db_processed (w_db w)) m"
    and "run_state (fetch_loop fuel pg c sv ps) w = (r, w')"
  shows "\<forall>m\<in>set (w_commits w'). accounted pg c (db_processed (w_db w')) m"
proof -
  have "commits_ok pg c w \<Longrightarrow> run_state (fetch_loop fuel pg c sv ps) w = (r, w') \<Longrightarrow> commits_ok pg c w'"
  proof (induction ps arbitrary: sv w)
    case (Cons p ps)
    obtain x w1 where round: "run_state (fetch_round fuel pg c sv p) w = (x, w1)" by (rule prod.exhaust)
    have "commits_ok pg c w1" by (rule fetch_round_commits_ok [OF Cons.prems(1) round])
    with Cons round show ?case by (auto split: option.splits)
  qed simp
  with assms show ?thesis by (simp add: commits_ok_def)
qed

theorem committed_accounted_witness:
  "\<exists>r w'. run_state (fetch_loop 3 (plain_postgres :: unit postgres) example_notify_cfg (new_service example_notify_cfg)
        [Fetched (example_message ''u1''), Fetched (example_message ''u1'')]) notify_world = (r, w') \<and>
     (\<forall>m\<in>set (w_commits w'). accounted (plain_postgres :: unit postgres) example_notify_cfg (db_processed (w_db w')) m)"
proof -
  obtain r w' where run: "run_state (fetch_loop 3 (plain_postgres :: unit postgres) example_notify_cfg
      (new_service example_notify_cfg) [Fetched (example_message ''u1''), Fetched (example_message ''u1'')]) notify_world = (r, w')"
    by (rule prod.exhaust)
  from committed_accounted [OF _ run] run show ?thesis by (auto simp: notify_world_def)
qed

text \<open>The recorded status of an event, if it has one.\<close>

definition status_of :: "string \<Rightarrow> processed_row list \<Rightarrow> proc_status option" where
  "status_of u tab = map_option pe_status (row_of u tab)"

text \<open>
  From the start of a run to its end the record does not go back: the status recorded for an
  event stays or rises from none over processing to failed or done, a status that was finished
  at the start stays what it is, and the count of attempts does not fall. Within a run a row
  can be done for a moment and in processing again; that is the property below it.
\<close>

theorem status_never_falls:
  assumes "service_ok sv" and "run_state (fetch_loop fuel pg c sv ps) w = (r, w')"
  shows "status_of u (db_processed (w_db w)) \<le> status_of u (db_processed (w_db w')) \<and>
    (finished_in u (db_processed (w_db w)) \<longrightarrow> status_of u (db_processed (w_db w')) = status_of u (db_processed (w_db w))) \<and>
    (\<forall>n. tried u n (db_processed (w_db w)) \<longrightarrow> tried u n (db_processed (w_db w')))"
proof -
  have p: "progress (ptab w) (ptab w')"
    using validD [OF advancing.fetch_loop_keeps [OF assms(1)] progress_refl assms(2)] by (simp add: advancing.after_loop_def)
  have same: "status_of u (ptab w') = status_of u (ptab w)" if "finished_in u (ptab w)"
  proof -
    from that obtain st n where s: "settled u st n (ptab w)" by (auto simp: finished_settled)
    then have "at_rest pg u st n (told pg u w) w" by (simp add: at_rest_def)
    from validD [OF valid_fetch_loop_at_rest this assms(2)] s show ?thesis by (auto simp: at_rest_def settled_def status_of_def)
  qed
  have "status_of u (ptab w) \<le> status_of u (ptab w')"
  proof (cases "finished_in u (ptab w)")
    case False
    show ?thesis
    proof (cases "row_of u (ptab w)")
      case (Some x)
      with p obtain x' where "row_of u (ptab w') = Some x'" by (auto simp: progress_def)
      moreover have "pe_status x = PProcessing" using False Some by (cases "pe_status x") (auto simp: finished_in_def finished_def)
      ultimately show ?thesis by (simp add: status_of_def Some)
    qed (simp add: status_of_def)
  qed (simp add: same)
  then show ?thesis using same p tried_progress by blast
qed

theorem status_never_falls_witness:
  "\<exists>r w'. run_state (fetch_loop 3 (plain_postgres :: unit postgres) example_notify_cfg (new_service example_notify_cfg)
        [Fetched (example_message ''u1'')]) (notify_world\<lparr>w_db := empty_db\<lparr>db_processed := [example_done]\<rparr>\<rparr>) = (r, w') \<and>
     Some PDone \<le> status_of ''u1'' (db_processed (w_db w'))"
proof -
  let ?w = "notify_world\<lparr>w_db := empty_db\<lparr>db_processed := [example_done]\<rparr>\<rparr>"
  obtain r w' where run: "run_state (fetch_loop 3 (plain_postgres :: unit postgres) example_notify_cfg
      (new_service example_notify_cfg) [Fetched (example_message ''u1'')]) ?w = (r, w')" by (rule prod.exhaust)
  have "status_of ''u1'' (db_processed (w_db ?w)) = Some PDone"
    by (simp add: status_of_def row_of_def example_done_def)
  with status_never_falls [OF new_service_ok run, of "''u1''"] run show ?thesis by auto
qed

section \<open>Dead letters\<close>

lemma handleMessage_frame:
  "run_state (handleMessage pg c value out) w = (res, w') \<Longrightarrow>
   w_topics w' = w_topics w \<and> w_script w' = w_script w \<and> w_commits w' = w_commits w"
  by (auto simp: handleMessage_def process_event_def notify_event_def split: prod.splits option.splits sum.splits if_splits)

lemma Produce_acknowledged:
  assumes "ev_kafka (cur_event w) = Success" and "p_w p = Some wr"
  shows "run_state (Produce p k v t) w =
    ((None, p), wrote (wr_Topic wr) (replicate (copies (cur_event w)) \<lparr>m_Key = k, m_Value = v\<rparr>) (Suc (w_cursor w)) w)"
  using assms by (simp add: Produce_def write_once_def wrote_def Let_def)

text \<open>What a commit adds is decided by the one answer it gets.\<close>

definition committed_by :: "outcome \<Rightarrow> message \<Rightarrow> message list" where
  "committed_by oc m = (case oc of Refused _ \<Rightarrow> [] | _ \<Rightarrow> [m])"

lemma commit_dead_run:
  "\<exists>w'. run_state (commit_dead m) w = ((), w') \<and> w_commits w' = w_commits w @ committed_by (ev_kafka (cur_event w)) m \<and>
     w_topics w' = w_topics w"
  by (cases "ev_kafka (cur_event w)") (simp_all add: commit_dead_def count_committed_def committed_by_def)

text \<open>
  C14. What is given up on is kept as a dead letter, before it is committed: when a message can
  not be decoded or its attempts are used up and a dead-letter topic is configured, the first
  call after the handler is the write of the letter \<open>wrapDLQ\<close> makes of it. If Kafka accepts
  that one write the letter is in the topic, as often as the writer repeated it and no more,
  whatever the commit that follows is answered: the commit comes one call later, or two when
  the event is marked dead in between, and its own answer decides it. The loop then goes on.
\<close>

theorem given_up_is_dead_lettered:
  assumes "sv_dlq sv = Some d" and "p_w d = Some wr"
    and "run_state (handleMessage pg c (m_Value m) out) w = ((Some e, et, k), w1)"
    and "classify e = ''unmarshal'' \<or> 0 < nc_maxAttempts c \<and> nc_maxAttempts c \<le> k"
    and "ev_kafka (cur_event w1) = Success"
    and "pos = w_cursor w1 + (if classify e = ''unmarshal'' then 1 else 2)"
  shows "\<exists>w'. run_state (retry_round pg c m sv out) w = (Break sv, w') \<and>
    w_topics w' = (w_topics w)(wr_Topic wr := w_topics w (wr_Topic wr) @
      replicate (copies (cur_event w1)) \<lparr>m_Key = m_Key m, m_Value = wrapDLQ (value_slice m) e\<rparr>) \<and>
    w_commits w' = w_commits w @ committed_by (ev_kafka (w_script w pos)) m"
proof -
  let ?letter = "\<lparr>m_Key = m_Key m, m_Value = wrapDLQ (value_slice m) e\<rparr>"
  note frame = handleMessage_frame [OF assms(3)]
  define w2 where "w2 = snd (run_state (count_error et (classify e)) w1)"
  have w2: "run_state (count_error et (classify e)) w1 = ((), w2)" "w_topics w2 = w_topics w" "w_script w2 = w_script w"
    "w_commits w2 = w_commits w" "w_cursor w2 = w_cursor w1" using frame by (simp_all add: w2_def count_error_def)
  have script: "w_script w2 = w_script w1" using frame w2 by simp
  define w3 where "w3 = wrote (wr_Topic wr) (replicate (copies (cur_event w1)) ?letter) (Suc (w_cursor w1)) w2"
  have same: "sv\<lparr>sv_dlq := Some d\<rparr> = sv" using assms(1) by simp
  have dlq: "run_state (send_dlq sv m e) w2 = (sv, w3)"
    using assms(1,2,5) Produce_acknowledged [of w2 d wr "m_Key m" "wrapDLQ (value_slice m) e" "5 * Second"] same
    by (simp add: send_dlq_def w3_def script w2(5))
  have w3: "w_topics w3 = (w_topics w)(wr_Topic wr := w_topics w (wr_Topic wr) @ replicate (copies (cur_event w1)) ?letter)"
    "w_script w3 = w_script w" "w_commits w3 = w_commits w" "w_cursor w3 = Suc (w_cursor w1)"
    by (simp_all add: w3_def wrote_def w2)
  have tail: "\<exists>w'. run_state (do { commit_dead m; count_processed et ''dead''; return (Break sv) }) w4 = (Break sv, w') \<and>
      w_topics w' = w_topics w3 \<and> w_commits w' = w_commits w @ committed_by (ev_kafka (w_script w pos)) m"
    if "w_topics w4 = w_topics w3" "w_script w4 = w_script w" "w_commits w4 = w_commits w" "w_cursor w4 = pos" for w4
    using commit_dead_run [of m w4] that by (auto simp: count_processed_def)
  show ?thesis
    using tail [of w3] tail [of "snd (run_state (processed_call (\<lambda>ev. notify_MarkDead pg (ev_db ev) (ev_time ev)
        (extractEventID (m_Value m)) (Error e))) w3)"] assms(4,6)
    by (auto simp: retry_round_def assms(3) w2(1) dlq w3)
qed

theorem given_up_is_dead_lettered_witness:
  "\<exists>w'. run_state (retry_round (plain_postgres :: unit postgres) example_notify_cfg \<lparr>m_Key = ''t1'', m_Value = ''{''\<rparr>
       (new_service (example_notify_cfg\<lparr>nc_dlqTopic := ''dlq''\<rparr>)) (''unknown'', 0)) notify_world =
         (Break (new_service (example_notify_cfg\<lparr>nc_dlqTopic := ''dlq''\<rparr>)), w') \<and>
     length (w_topics w' ''dlq'') = 1 \<and> length (w_commits w') = 1"
proof -
  let ?pg = "plain_postgres :: unit postgres" and ?m = "\<lparr>m_Key = ''t1'', m_Value = ''{''\<rparr>"
  let ?sv = "new_service (example_notify_cfg\<lparr>nc_dlqTopic := ''dlq''\<rparr>)"
  have "json_parse ''{'' = None" by code_simp
  then have h: "run_state (handleMessage ?pg example_notify_cfg (m_Value ?m) (''unknown'', 0)) notify_world =
      ((Some (wrap ''unmarshal'' (the (fst (unmarshal_Envelope ''{'')))), ''unknown'', 0), notify_world)"
    by (simp add: handleMessage_def unmarshal_Envelope_def)
  obtain d wr where d: "sv_dlq ?sv = Some d" "p_w d = Some wr" "wr_Topic wr = ''dlq''"
    by (simp add: new_service_def NewProducer_def newWriter_def)
  have up: "ev_kafka (w_script notify_world n) = Success" "copies (w_script notify_world n) = 1" for n
    by (simp_all add: notify_world_def copies_def)
  from given_up_is_dead_lettered [OF d(1,2) h _ up(1) refl] d(3) show ?thesis
    by (auto simp: wrap_def notify_world_def up committed_by_def copies_def)
qed

section \<open>A lost answer\<close>

text \<open>
  C13. A lost answer undoes a finished event: when \<open>MarkDone\<close> takes effect but its answer is
  lost, the service takes it for a failure and calls \<open>MarkFailed\<close>, which does not look at the
  status it finds. The row, done by then, is in processing again, the round ends with another
  attempt, and the event, already notified once in this round, will be started again.
\<close>

theorem lost_done_reopens:
  assumes "unmarshal_Envelope (m_Value m) = (None, env)" and "acceptable pg env u" and "\<not> nc_forceFail c"
    and "\<not> finished_in u (db_processed (w_db w))" and "attempts_of u (db_processed (w_db w)) < int4_max"
    and "ev_db (cur_event w) = Success" and "ev_db (w_script w (w_cursor w + 1)) = Lost err"
    and "ev_db (w_script w (w_cursor w + 2)) = Success" and "text_ok pg (Error err)"
    and "\<not> ev_done (w_script w (w_cursor w + 3))"
    and "nc_maxAttempts c \<le> 0 \<or> attempts_of u (db_processed (w_db w)) + 1 < nc_maxAttempts c"
    and "started = snd (StartProcessing pg Success (ev_time (cur_event w)) (processed_event env) (db_processed (w_db w)))"
  shows "finished_in u (snd (notify_MarkDone pg (Lost err) now (env_EventID env) started)) \<and>
    (\<exists>w'. run_state (retry_round pg c m sv out) w =
         (Again sv (env_EventType env, attempts_of u (db_processed (w_db w)) + 1), w') \<and>
       row_of u (db_processed (w_db w')) \<noteq> None \<and> \<not> finished_in u (db_processed (w_db w')) \<and>
       told pg u w' = told pg u w @ [env_EventID env])"
  using assms(2) disjI2 [OF assms(5)]
proof (cases rule: StartProcessing_up [where now = "ev_time (cur_event w)"])
  case (started tab')
  let ?n = "attempts_of u (ptab w) + 1" and ?i = "env_EventID env"
  let ?t1 = "ev_time (w_script w (Suc (w_cursor w)))" and ?t2 = "ev_time (w_script w (Suc (Suc (w_cursor w))))"
  have tab': "started = tab'" using assms(12) started by simp
  have uuid: "uuid_in pg ?i = Some u" using assms(2) by (simp add: acceptable_def)
  have pos: "ev_db (w_script w (Suc (w_cursor w))) = Lost err" "ev_db (w_script w (Suc (Suc (w_cursor w)))) = Success"
    "\<not> ev_done (w_script w (Suc (Suc (Suc (w_cursor w)))))" using assms(7,8,10) by (simp_all add: eval_nat_numeral)
  have "finished_in u (snd (notify_MarkDone pg (Lost err) now ?i tab'))"
    using started(3) by (auto simp: notify_MarkDone_def by_event_id_def uuid row_of_update finished_in_def done_row_def finished_def
        split: option.splits)
  moreover define w' where "w' = snd (run_state (handleMessage pg c (m_Value m) out) w)"
  have h: "run_state (handleMessage pg c (m_Value m) out) w = ((Some (wrap ''db_done'' err), env_EventType env, ?n), w')"
    "ptab w' = sql_update (\<lambda>r. pe_event_id r = u) (retry_row ?t2 (Error err))
       (sql_update (\<lambda>r. pe_event_id r = u) (done_row ?t1) tab')"
    "w_script w' = w_script w" "w_cursor w' = w_cursor w + 3" "w_notified w' = w_notified w @ [?i]"
    using assms(1,3,6,9) started(5) pos
    by (simp_all add: w'_def handleMessage_def process_event_def matchForceFail_def notify_event_def notify_MarkDone_def
        notify_MarkFailed_def by_event_id_def uuid eval_nat_numeral)
  have row: "row_of u (ptab w') \<noteq> None" "\<not> finished_in u (ptab w')"
    using started(3) by (auto simp: h(2) row_of_update finished_in_def retry_row_def done_row_def finished_def split: option.splits)
  have "told pg u w' = told pg u w @ [?i]" by (simp add: told_def h(5) uuid)
  moreover have "\<exists>w2. run_state (retry_round pg c m sv out) w = (Again sv (env_EventType env, ?n), w2) \<and>
      ptab w2 = ptab w' \<and> told pg u w2 = told pg u w'"
    using assms(11) pos(3)
    by (simp add: retry_round_def h(1,3,4) wrap_def count_error_def told_def eval_nat_numeral) auto
  ultimately show ?thesis using row unfolding tab' by metis
qed (use assms(4) in simp)

text \<open>The database loses the answer to the second statement of the example world.\<close>

definition losing_world :: world where
  "losing_world = notify_world\<lparr>w_script := \<lambda>n. (w_script notify_world n)\<lparr>ev_db := (if n = 1 then Lost EOF else Success)\<rparr>\<rparr>"

theorem lost_done_reopens_witness:
  "\<exists>w'. run_state (retry_round (plain_postgres :: unit postgres) example_notify_cfg (example_message ''u1'')
       (new_service example_notify_cfg) (''unknown'', 0)) losing_world =
         (Again (new_service example_notify_cfg)
            (env_EventType (snd (unmarshal_Envelope (example_envelope ''u1''))), 1), w') \<and>
     told (plain_postgres :: unit postgres) ''u1'' w' = [''u1''] \<and> \<not> finished_in ''u1'' (db_processed (w_db w'))"
proof -
  let ?pg = "plain_postgres :: unit postgres" and ?m = "example_message ''u1''"
  let ?env = "snd (unmarshal_Envelope (example_envelope ''u1''))"
  have dec: "unmarshal_Envelope (m_Value ?m) = (None, ?env)"
    using example_message_decoded(1) by (simp add: prod_eq_iff example_message_def)
  have acc: "acceptable ?pg ?env ''u1''"
    using example_message_decoded by (simp add: acceptable_def plain_postgres_def)
  have free: "\<not> nc_forceFail example_notify_cfg" and max: "nc_maxAttempts example_notify_cfg = 10" by code_simp+
  have w: "ev_db (cur_event losing_world) = Success" "ev_db (w_script losing_world (w_cursor losing_world + 1)) = Lost EOF"
    "ev_db (w_script losing_world (w_cursor losing_world + 2)) = Success"
    "\<not> ev_done (w_script losing_world (w_cursor losing_world + 3))" "text_ok ?pg (Error EOF)"
    by (simp_all add: losing_world_def notify_world_def plain_postgres_def)
  have tab: "attempts_of ''u1'' (db_processed (w_db losing_world)) = 0" "\<not> finished_in ''u1'' (db_processed (w_db losing_world))"
    "told ?pg ''u1'' losing_world = []"
    by (simp_all add: attempts_of_def finished_in_def row_of_def told_def losing_world_def notify_world_def empty_db_def)
  from lost_done_reopens [OF dec acc free tab(2) _ w(1-3,5,4) _ refl, of 0 "new_service example_notify_cfg" "(''unknown'', 0)"]
  show ?thesis by (auto simp: tab max int4_max_def example_message_decoded(2))
qed

end
