(* ===== verification/Transactions.thy ===== *)
theory Transactions
  imports Ticket_Store
begin

text \<open>
  The transactions of \<open>internal/ticket/store_postgres.go\<close> at the grain at which those of
  several ticket services overlap: one statement at a time, with any number of transactions
  open. \<open>pg_Create\<close> of theory \<open>Ticket_Store\<close> is shown to be a run of these steps.
\<close>

section \<open>Open transactions\<close>

text \<open>
  What a transaction has inserted and not yet committed: the ticket, and the event once the
  second statement has run. Nobody else sees it, except through the unique indexes: an insert
  of a key that an open transaction holds waits for that transaction to end.
\<close>

record tx =
  tx_ticket :: Ticket
  tx_event :: "outbox_row option"

type_synonym open_txs = "nat \<rightharpoonup> tx"

definition open_ids :: "open_txs \<Rightarrow> string set" where
  "open_ids txs = {t_ID (tx_ticket x) |x. x \<in> ran txs}"

definition open_uuids :: "open_txs \<Rightarrow> string set" where
  "open_uuids txs = {ob_event_id r |x r. x \<in> ran txs \<and> tx_event x = Some r}"

text \<open>
  One step of the transaction in slot \<open>k\<close>: the ticket is inserted; the event is inserted and
  takes a number of the sequence; the second statement takes a number and fails; the commit
  makes both rows visible, wherever the server has put them among the others; the transaction
  is rolled back.
\<close>

inductive create_step :: "outbox_row postgres \<Rightarrow> nat \<Rightarrow> pgdb \<times> open_txs \<Rightarrow> pgdb \<times> open_txs \<Rightarrow> bool"
  for pg k where
  inserts_ticket: "txs k = None \<Longrightarrow> insert_ticket pg t db = Inr (out, db1) \<Longrightarrow> t_ID t \<notin> open_ids txs \<Longrightarrow>
    create_step pg k (db, txs) (db, txs(k \<mapsto> \<lparr>tx_ticket = out, tx_event = None\<rparr>))"
| inserts_event: "txs k = Some x \<Longrightarrow> tx_event x = None \<Longrightarrow> ticket_payload zone rid (tx_ticket x) = Inr raw \<Longrightarrow>
    insert_outbox pg now uuid ''ticket'' (t_ID (tx_ticket x)) EventTypeTicketCreated raw db = Inr ((), db1) \<Longrightarrow>
    uuid \<notin> open_uuids txs \<Longrightarrow>
    create_step pg k (db, txs) (use_seq db, txs(k \<mapsto> x\<lparr>tx_event := Some (last (db_outbox db1))\<rparr>))"
| takes_number: "txs k = Some x \<Longrightarrow> tx_event x = None \<Longrightarrow> create_step pg k (db, txs) (use_seq db, txs)"
| commits: "txs k = Some x \<Longrightarrow> tx_event x = Some r \<Longrightarrow>
    db_tickets db = ts1 @ ts2 \<Longrightarrow> db_outbox db = rs1 @ rs2 \<Longrightarrow>
    create_step pg k (db, txs)
      (db\<lparr>db_tickets := ts1 @ tx_ticket x # ts2, db_outbox := rs1 @ r # rs2\<rparr>, txs(k := None))"
| rolls_back: "create_step pg k (db, txs) (db, txs(k := None))"

abbreviation create_steps :: "outbox_row postgres \<Rightarrow> nat \<Rightarrow> pgdb \<times> open_txs \<Rightarrow> pgdb \<times> open_txs \<Rightarrow> bool" where
  "create_steps pg k \<equiv> (create_step pg k)\<^sup>*\<^sup>*"

section \<open>The invariant of open transactions\<close>

text \<open>Against the committed tables, and against each other.\<close>

definition tx_fresh :: "pgdb \<Rightarrow> tx \<Rightarrow> bool" where
  "tx_fresh db x \<longleftrightarrow>
     t_ID (tx_ticket x) \<notin> t_ID ` set (db_tickets db) \<and>
     (\<forall>r. tx_event x = Some r \<longrightarrow>
        row_ok r \<and> ob_status r = Pending \<and> ob_aggregate_id r = t_ID (tx_ticket x) \<and> ob_id r \<le> db_outbox_seq db \<and>
        ob_id r \<notin> ob_id ` set (db_outbox db) \<and> ob_event_id r \<notin> ob_event_id ` set (db_outbox db))"

definition tx_apart :: "tx \<Rightarrow> tx \<Rightarrow> bool" where
  "tx_apart x y \<longleftrightarrow>
     t_ID (tx_ticket x) \<noteq> t_ID (tx_ticket y) \<and>
     (\<forall>r q. tx_event x = Some r \<longrightarrow> tx_event y = Some q \<longrightarrow> ob_id r \<noteq> ob_id q \<and> ob_event_id r \<noteq> ob_event_id q)"

definition open_ok :: "pgdb \<Rightarrow> open_txs \<Rightarrow> bool" where
  "open_ok db txs \<longleftrightarrow>
     (\<forall>k x. txs k = Some x \<longrightarrow> tx_fresh db x) \<and>
     (\<forall>j k x y. txs j = Some x \<longrightarrow> txs k = Some y \<longrightarrow> j \<noteq> k \<longrightarrow> tx_apart x y)"

text \<open>Every ticket of the table has its one event.\<close>

definition paired :: "pgdb \<Rightarrow> bool" where
  "paired db \<longleftrightarrow> mset (map ob_aggregate_id (db_outbox db)) = mset (map t_ID (db_tickets db))"

lemma tx_apart_sym: "tx_apart x y \<Longrightarrow> tx_apart y x"
  unfolding tx_apart_def by metis

lemma open_ok_none: "open_ok db Map.empty"
  by (simp add: open_ok_def)

lemma open_ok_close: "open_ok db txs \<Longrightarrow> open_ok db (txs(k := None))"
  by (auto simp: open_ok_def split: if_splits)

text \<open>A slot is filled by a transaction that is fresh and apart from the others.\<close>

lemma open_ok_put:
  assumes "open_ok db txs" and "tx_fresh db x" and "\<And>j y. j \<noteq> k \<Longrightarrow> txs j = Some y \<Longrightarrow> tx_apart x y"
  shows "open_ok db (txs(k \<mapsto> x))"
  using assms by (auto simp: open_ok_def dest: tx_apart_sym split: if_splits)

lemma open_ok_fresh: "open_ok db txs \<Longrightarrow> txs k = Some x \<Longrightarrow> tx_fresh db x"
  by (simp add: open_ok_def)

lemma paired_use_seq: "paired (use_seq db) = paired db"
  by (simp add: paired_def use_seq_def)

lemma tx_fresh_use_seq: "tx_fresh db x \<Longrightarrow> tx_fresh (use_seq db) x"
  by (auto simp: tx_fresh_def use_seq_def)

lemma open_ok_db:
  assumes "open_ok db txs" and "\<And>k x. txs k = Some x \<Longrightarrow> tx_fresh db x \<Longrightarrow> tx_fresh db' x"
  shows "open_ok db' txs"
  using assms by (auto simp: open_ok_def)

lemma open_id: "txs j = Some y \<Longrightarrow> t_ID (tx_ticket y) \<in> open_ids txs"
  by (auto simp: open_ids_def ran_def)

lemma open_uuid: "txs j = Some y \<Longrightarrow> tx_event y = Some q \<Longrightarrow> ob_event_id q \<in> open_uuids txs"
  by (auto simp: open_uuids_def ran_def)

lemma insert_outbox_row:
  assumes "insert_outbox pg now uuid agg aid et raw db = Inr (u, db1)"
  obtains p where "jsonb_in pg raw = Some p" "uuid \<notin> ob_event_id ` set (db_outbox db)"
    "last (db_outbox db1) = new_outbox_row now uuid (db_outbox_seq db + 1) agg aid et p"
  using assms by (auto simp: insert_outbox_def split: option.splits if_splits)

lemma inserts_ticket_ok:
  assumes "open_ok db txs" and "insert_ticket pg t db = Inr (out, db1)" and "t_ID t \<notin> open_ids txs"
  shows "open_ok db (txs(k \<mapsto> \<lparr>tx_ticket = out, tx_event = None\<rparr>))"
proof (rule open_ok_put [OF assms(1)])
  show "tx_fresh db \<lparr>tx_ticket = out, tx_event = None\<rparr>" using assms(2) by (auto simp: tx_fresh_def insert_ticket_Inr)
  show "tx_apart \<lparr>tx_ticket = out, tx_event = None\<rparr> y" if "txs j = Some y" for j y
    using open_id [of txs, OF that] assms(2,3) by (auto simp: tx_apart_def insert_ticket_Inr)
qed

lemma inserts_event_ok:
  assumes ok: "open_ok db txs" "db_ok db" and x: "txs k = Some x"
    and ins: "insert_outbox pg now uuid agg (t_ID (tx_ticket x)) et raw db = Inr ((), db1)" and uuid: "uuid \<notin> open_uuids txs"
  shows "open_ok (use_seq db) (txs(k \<mapsto> x\<lparr>tx_event := Some (last (db_outbox db1))\<rparr>))"
proof -
  obtain p where p: "uuid \<notin> ob_event_id ` set (db_outbox db)"
    "last (db_outbox db1) = new_outbox_row now uuid (db_outbox_seq db + 1) agg (t_ID (tx_ticket x)) et p" (is "_ = ?r")
    using ins by (rule insert_outbox_row)
  have new: "ob_id ?r = db_outbox_seq db + 1" "ob_event_id ?r = uuid" by (simp_all add: new_outbox_row_def)
  have "ob_id ?r \<notin> ob_id ` set (db_outbox db)" using ok(2) by (force simp: db_ok_def new)
  then have fresh: "tx_fresh (use_seq db) (x\<lparr>tx_event := Some ?r\<rparr>)"
    using open_ok_fresh [OF ok(1) x] p(1) new_outbox_row_ok
    by (auto simp: tx_fresh_def use_seq_def) (auto simp: new_outbox_row_def)
  show ?thesis unfolding p(2)
  proof (rule open_ok_put [OF open_ok_db [OF ok(1)] fresh])
    show "tx_fresh (use_seq db) z" if "tx_fresh db z" for z using that by (rule tx_fresh_use_seq)
    fix j y
    assume y: "j \<noteq> k" "txs j = Some y"
    have "tx_apart x y" using ok(1) x y by (auto simp: open_ok_def)
    moreover have "ob_id ?r \<noteq> ob_id q \<and> ob_event_id ?r \<noteq> ob_event_id q" if q: "tx_event y = Some q" for q
      using open_ok_fresh [OF ok(1) y(2)] open_uuid [of txs, OF y(2) q] uuid q by (auto simp: tx_fresh_def new)
    ultimately show "tx_apart (x\<lparr>tx_event := Some ?r\<rparr>) y" by (simp add: tx_apart_def)
  qed
qed

lemma commits_ok:
  assumes ok: "open_ok db txs" "db_ok db" "paired db" and x: "txs k = Some x" "tx_event x = Some r"
    and tabs: "db_tickets db = ts1 @ ts2" "db_outbox db = rs1 @ rs2"
  defines "db' \<equiv> db\<lparr>db_tickets := ts1 @ tx_ticket x # ts2, db_outbox := rs1 @ r # rs2\<rparr>"
  shows "open_ok db' (txs(k := None)) \<and> db_ok db' \<and> paired db'"
proof (intro conjI)
  have fresh: "tx_fresh db x" using ok(1) x(1) by (rule open_ok_fresh)
  show "db_ok db'" using ok(2) fresh x(2)
    by (auto simp: db'_def db_ok_def outbox_ok_def tx_fresh_def tabs)
  show "paired db'" using ok(3) fresh x(2) by (simp add: db'_def paired_def tx_fresh_def tabs)
  show "open_ok db' (txs(k := None))"
  proof (rule open_ok_db [OF open_ok_close [OF ok(1)]])
    fix j y
    assume y: "(txs(k := None)) j = Some y" "tx_fresh db y"
    then have "j \<noteq> k" "txs j = Some y" by (auto split: if_splits)
    then have "tx_apart y x" using ok(1) x(1) unfolding open_ok_def by metis
    then show "tx_fresh db' y" using y(2) x(2) by (auto simp: db'_def tx_fresh_def tx_apart_def tabs)
  qed
qed

lemma create_step_ok:
  assumes "create_step pg k (db, txs) (db', txs')" and "open_ok db txs" "db_ok db" "paired db"
  shows "open_ok db' txs' \<and> db_ok db' \<and> paired db'"
  using assms(1)
proof (cases rule: create_step.cases)
  case (inserts_ticket t out db1)
  then show ?thesis using assms(2-4) inserts_ticket_ok by simp
next
  case (inserts_event x zone rid raw now uuid db1)
  then show ?thesis using assms(2-4) inserts_event_ok [OF assms(2,3)] by (simp add: db_ok_use_seq paired_use_seq)
next
  case (takes_number x)
  then show ?thesis using assms(2-4) open_ok_db [OF assms(2) tx_fresh_use_seq]
    by (simp add: db_ok_use_seq paired_use_seq)
next
  case (commits x r ts1 ts2 rs1 rs2)
  show ?thesis unfolding commits(1,2) by (rule commits_ok [OF assms(2-4) commits(3-6)])
next
  case rolls_back
  then show ?thesis using assms(2-4) open_ok_close by simp
qed

text \<open>Rows of the outbox are only added, and an added row is pending.\<close>

lemma create_step_rows:
  assumes "create_step pg k (db, txs) (db', txs')" and "open_ok db txs"
  shows "set (db_outbox db) \<subseteq> set (db_outbox db')"
    and "r \<in> set (db_outbox db') \<Longrightarrow> r \<in> set (db_outbox db) \<or> ob_status r = Pending"
    and "db_processed db' = db_processed db"
  using assms by (auto elim!: create_step.cases dest: open_ok_fresh simp: tx_fresh_def use_seq_def)

section \<open>A call of Create is a run of these steps\<close>

lemma pg_Create_inserted:
  "snd (pg_Create pg ce ctx t db) \<noteq> db \<Longrightarrow>
     \<exists>db1. insert_ticket pg t db = Inr (stored_ticket pg t, db1)"
  by (cases "insert_ticket pg t db"; cases "ce_begin ce"; cases "ce_ticket ce") (auto simp: pg_Create_def insert_ticket_Inr)

lemma numbered_steps:
  assumes "txs k = None" and "insert_ticket pg t db = Inr (out, db1)" and "t_ID t \<notin> open_ids txs"
  shows "create_steps pg k (db, txs) (use_seq db, txs)"
proof -
  let ?txs = "txs(k \<mapsto> \<lparr>tx_ticket = out, tx_event = None\<rparr>)"
  have "create_step pg k (db, txs) (db, ?txs)" using assms by (rule inserts_ticket)
  moreover have "create_step pg k (db, ?txs) (use_seq db, ?txs)" by (rule takes_number [of _ _ "\<lparr>tx_ticket = out, tx_event = None\<rparr>"]) simp_all
  moreover have "create_step pg k (use_seq db, ?txs) (use_seq db, ?txs(k := None))" by (rule rolls_back)
  ultimately have "create_steps pg k (db, txs) (use_seq db, ?txs(k := None))"
    by (meson converse_rtranclp_into_rtranclp rtranclp.rtrancl_refl)
  moreover have "?txs(k := None) = txs" using assms(1) by auto
  ultimately show ?thesis by simp
qed

lemma created_steps:
  assumes free: "txs k = None" "t_ID t \<notin> open_ids txs" "ce_uuid ce \<notin> open_uuids txs"
    and ins: "insert_ticket pg t db = Inr (stored_ticket pg t, db1)"
    and raw: "ticket_payload (ce_zone ce) rid (stored_ticket pg t) = Inr raw" "jsonb_in pg raw = Some payload"
    and uuid: "ce_uuid ce \<notin> ob_event_id ` set (db_outbox db)"
  shows "create_steps pg k (db, txs) (created pg ce payload t db, txs)"
proof -
  let ?x = "\<lparr>tx_ticket = stored_ticket pg t, tx_event = None\<rparr>"
  let ?r = "new_outbox_row (ce_now ce) (ce_uuid ce) (db_outbox_seq db + 1) ''ticket'' (t_ID t) EventTypeTicketCreated payload"
  let ?y = "?x\<lparr>tx_event := Some ?r\<rparr>"
  let ?txs1 = "txs(k \<mapsto> ?x)" and ?txs2 = "txs(k \<mapsto> ?x, k \<mapsto> ?y)"
  have "create_step pg k (db, txs) (db, ?txs1)" using free(1) ins free(2) by (rule inserts_ticket)
  moreover have "create_step pg k (db, ?txs1) (use_seq db, ?txs2)"
  proof -
    have "ce_uuid ce \<notin> open_uuids ?txs1" using free(1,3) by (auto simp: open_uuids_def ran_map_upd)
    moreover have "insert_outbox pg (ce_now ce) (ce_uuid ce) ''ticket'' (t_ID t) EventTypeTicketCreated raw db =
        Inr ((), db\<lparr>db_outbox := db_outbox db @ [?r]\<rparr>)" using raw(2) uuid by (simp add: insert_outbox_def)
    ultimately show ?thesis
      using inserts_event [of ?txs1 k ?x "ce_zone ce" rid raw pg "ce_now ce" "ce_uuid ce" db "db\<lparr>db_outbox := db_outbox db @ [?r]\<rparr>"] raw(1)
      by simp
  qed
  moreover have "create_step pg k (use_seq db, ?txs2) (created pg ce payload t db, txs)"
  proof -
    have "created pg ce payload t db = (use_seq db)\<lparr>db_tickets := db_tickets db @ [stored_ticket pg t], db_outbox := db_outbox db @ [?r]\<rparr>"
      by (cases db) (simp add: use_seq_def created_def)
    then show ?thesis
      using commits [of ?txs2 k ?y ?r "use_seq db" "db_tickets db" "[]" "db_outbox db" "[]" pg] free(1)
      by (simp add: use_seq_def fun_upd_idem)
  qed
  ultimately show ?thesis by (meson converse_rtranclp_into_rtranclp rtranclp.rtrancl_refl)
qed

text \<open>
  The call as a whole, with any transactions of others open meanwhile: however its round trips
  end, it makes steps of its own slot and leaves the slot free.
\<close>

lemma pg_Create_steps:
  assumes free: "txs k = None" "t_ID t \<notin> open_ids txs" "ce_uuid ce \<notin> open_uuids txs"
  shows "create_steps pg k (db, txs) (snd (pg_Create pg ce ctx t db), txs)"
proof (cases "snd (pg_Create pg ce ctx t db) = db")
  case False
  then obtain db1 where ins: "insert_ticket pg t db = Inr (stored_ticket pg t, db1)"
    using pg_Create_inserted by blast
  show ?thesis
  proof (cases rule: pg_Create_cases [of pg ce ctx t db])
    case (rolled_back e)
    then show ?thesis using False numbered_steps [OF free(1) ins free(2)] by simp
  next
    case (committed raw payload)
    then show ?thesis using created_steps [OF free ins committed(1,2,4)] by simp
  qed
qed simp

end
