(* ===== verification/System_Steps.thy ===== *)
theory System_Steps
  imports Outbox_Relay Consumer_Laws Transactions
begin

text \<open>
  The three services at work together, at the grain at which they interleave: one statement
  of Postgres, one write to Kafka at a time. Any number of ticket services (each with its
  transactions of theory \<open>Transactions\<close>), relays and notification services take steps in any
  order; a relay may crash at any moment. The invariant holds in every reachable state, and
  the programs of the relay and of the notification service are shown to make steps of this
  relation only.
\<close>

section \<open>States and steps\<close>

text \<open>
  Beside the database and the events topic the state holds the transactions that are open,
  and for every relay process the events it claimed last and those of them whose message Kafka
  acknowledged to it.
\<close>

record system =
  sys_db :: pgdb
  sys_tx :: open_txs
  sys_topic :: "message list"
  sys_hand :: "nat \<Rightarrow> Event list"
  sys_acked :: "nat \<Rightarrow> Event set"

definition empty_system :: system where
  "empty_system = \<lparr>sys_db = empty_db, sys_tx = Map.empty, sys_topic = [], sys_hand = (\<lambda>_. []), sys_acked = (\<lambda>_. {})\<rparr>"

abbreviation on_outbox :: "outbox_row list \<Rightarrow> system \<Rightarrow> system" where
  "on_outbox tab s \<equiv> s\<lparr>sys_db := (sys_db s)\<lparr>db_outbox := tab\<rparr>\<rparr>"

abbreviation on_processed :: "processed_row list \<Rightarrow> system \<Rightarrow> system" where
  "on_processed tab s \<equiv> s\<lparr>sys_db := (sys_db s)\<lparr>db_processed := tab\<rparr>\<rparr>"

abbreviation outbox_of :: "system \<Rightarrow> outbox_row list" where
  "outbox_of s \<equiv> db_outbox (sys_db s)"

abbreviation processed_of :: "system \<Rightarrow> processed_row list" where
  "processed_of s \<equiv> db_processed (sys_db s)"

inductive sys_step :: "outbox_row postgres \<Rightarrow> (time \<Rightarrow> int) \<Rightarrow> system \<Rightarrow> system \<Rightarrow> bool"
  for pg zone where
  creating: "create_step pg k (sys_db s, sys_tx s) (db, txs) \<Longrightarrow> sys_step pg zone s (s\<lparr>sys_db := db, sys_tx := txs\<rparr>)"
| reset: "sys_step pg zone s (on_outbox (snd (ResetStuck oc now d (outbox_of s))) s)"
| claim: "ClaimPending pg oc now locked n (outbox_of s) = (Inr es, tab) \<Longrightarrow>
    sys_step pg zone s ((on_outbox tab s)\<lparr>sys_hand := (sys_hand s)(i := es), sys_acked := (sys_acked s)(i := {})\<rparr>)"
| claim_lost: "ClaimPending pg oc now locked n (outbox_of s) = (Inl err, tab) \<Longrightarrow> sys_step pg zone s (on_outbox tab s)"
| "write": "e \<in> set (sys_hand s i) \<Longrightarrow> message_of zone e = Inr m \<Longrightarrow>
    sys_step pg zone s (s\<lparr>sys_topic := sys_topic s @ [m]\<rparr>)"
| ack: "e \<in> set (sys_hand s i) \<Longrightarrow> message_of zone e = Inr m \<Longrightarrow> m \<in> set (sys_topic s) \<Longrightarrow>
    sys_step pg zone s (s\<lparr>sys_acked := (sys_acked s)(i := insert e (sys_acked s i))\<rparr>)"
| sent: "e \<in> sys_acked s i \<Longrightarrow> sys_step pg zone s (on_outbox (snd (MarkSent oc now (ID e) (outbox_of s))) s)"
| failed: "e \<in> set (sys_hand s i) \<Longrightarrow>
    sys_step pg zone s (on_outbox (snd (MarkFailed pg oc now (ID e) next msg (outbox_of s))) s)"
| dead: "e \<in> set (sys_hand s i) \<Longrightarrow>
    sys_step pg zone s (on_outbox (snd (MarkDead pg oc now (ID e) msg (outbox_of s))) s)"
| foreign: "sys_step pg zone s (s\<lparr>sys_topic := sys_topic s @ [m]\<rparr>)"
| crash: "sys_step pg zone s (s\<lparr>sys_hand := (sys_hand s)(i := []), sys_acked := (sys_acked s)(i := {})\<rparr>)"
| start_processing: "sys_step pg zone s (on_processed (snd (StartProcessing pg oc now e (processed_of s))) s)"
| mark_done: "sys_step pg zone s (on_processed (snd (notify_MarkDone pg oc now eid (processed_of s))) s)"
| mark_retry: "sys_step pg zone s (on_processed (snd (notify_MarkFailed pg oc now eid msg (processed_of s))) s)"
| mark_buried: "sys_step pg zone s (on_processed (snd (notify_MarkDead pg oc now eid msg (processed_of s))) s)"

inductive_cases sys_stepE: "sys_step pg zone s s'"

abbreviation sys_steps :: "outbox_row postgres \<Rightarrow> (time \<Rightarrow> int) \<Rightarrow> system \<Rightarrow> system \<Rightarrow> bool" where
  "sys_steps pg zone \<equiv> (sys_step pg zone)\<^sup>*\<^sup>*"

lemma creating_more:
  assumes "sys_steps pg zone s0 (s\<lparr>sys_db := db, sys_tx := txs\<rparr>)" and "create_step pg k (db, txs) (db', txs')"
  shows "sys_steps pg zone s0 (s\<lparr>sys_db := db', sys_tx := txs'\<rparr>)"
  using assms creating [of pg k "s\<lparr>sys_db := db, sys_tx := txs\<rparr>" db' txs' zone] by (simp add: rtranclp.rtrancl_into_rtrancl)

lemma creating_steps:
  assumes "create_steps pg k (sys_db s, sys_tx s) (db, txs)"
  shows "sys_steps pg zone s (s\<lparr>sys_db := db, sys_tx := txs\<rparr>)"
  using assms
proof (induction "(db, txs)" arbitrary: db txs rule: rtranclp_induct)
  case (step y)
  then show ?case by (cases y) (auto intro: creating_more)
qed simp

section \<open>The invariant\<close>

text \<open>
  Constraints of the database; a message in the topic for every sent row and for every
  acknowledged event; what a relay has in hand is in the table; one event for every ticket;
  and open transactions that conflict with nothing.
\<close>

definition sys_inv :: "(time \<Rightarrow> int) \<Rightarrow> system \<Rightarrow> bool" where
  "sys_inv zone s \<longleftrightarrow>
     db_ok (sys_db s) \<and> announced zone (sys_topic s) (outbox_of s) \<and>
     (\<forall>i. \<forall>e\<in>set (sys_hand s i). known (outbox_of s) e) \<and>
     (\<forall>i. \<forall>e\<in>sys_acked s i. known (outbox_of s) e \<and> (\<exists>m\<in>set (sys_topic s). message_of zone e = Inr m)) \<and>
     paired (sys_db s) \<and> open_ok (sys_db s) (sys_tx s)"

lemma sys_inv_empty: "sys_inv zone empty_system"
  by (simp add: sys_inv_def empty_system_def db_ok_empty announced_def open_ok_none) (simp add: empty_db_def paired_def)

lemma known_same_events:
  assumes "known tab e" and "same_events tab tab'"
  shows "known tab' e"
proof -
  from assms(1) obtain r n where r: "r \<in> set tab" "e = (scan_Event r)\<lparr>Attempts := n\<rparr>" by (auto simp: known_def)
  from r(1) assms(2) have "event_columns r \<in> event_columns ` set tab'"
    by (metis same_events_def list.set_map imageI)
  then obtain r' where "r' \<in> set tab'" "event_columns r = event_columns r'" by auto
  with r(2) scan_columns [of r r'] show ?thesis by (auto simp: known_def)
qed

lemma same_events_aggregate: "same_events tab tab' \<Longrightarrow> map ob_aggregate_id tab' = map ob_aggregate_id tab"
proof -
  assume "same_events tab tab'"
  then have "map (\<lambda>(_, _, _, a, _). a) (map event_columns tab') = map (\<lambda>(_, _, _, a, _). a) (map event_columns tab)"
    by (simp only: same_events_def)
  then show ?thesis by (simp add: event_columns_def comp_def)
qed

lemma same_events_bound:
  assumes "same_events tab tab'" and "\<forall>r\<in>set tab. ob_id r \<le> k"
  shows "\<forall>r\<in>set tab'. ob_id r \<le> k"
proof -
  have "\<forall>x\<in>set (map ob_id tab). x \<le> k" using assms(2) by simp
  then have "\<forall>x\<in>set (map ob_id tab'). x \<le> k" using map_event_columns(1) assms(1) by (metis same_events_def)
  then show ?thesis by simp
qed

text \<open>What the relays do to the table is no concern of an open transaction.\<close>

lemma same_events_keys:
  assumes "same_events tab tab'"
  shows "ob_id ` set tab' = ob_id ` set tab" "ob_event_id ` set tab' = ob_event_id ` set tab"
proof -
  have "(\<lambda>(i, _). i) ` event_columns ` set tab' = (\<lambda>(i, _). i) ` event_columns ` set tab"
    "(\<lambda>(_, u, _). u) ` event_columns ` set tab' = (\<lambda>(_, u, _). u) ` event_columns ` set tab"
    using assms unfolding same_events_def by (metis list.set_map)+
  then show "ob_id ` set tab' = ob_id ` set tab" "ob_event_id ` set tab' = ob_event_id ` set tab"
    by (simp_all add: image_image event_columns_def)
qed

lemma same_events_open:
  assumes "same_events (db_outbox db) tab"
  shows "paired (db\<lparr>db_outbox := tab\<rparr>) = paired db" "open_ok (db\<lparr>db_outbox := tab\<rparr>) txs = open_ok db txs"
  by (simp_all add: paired_def open_ok_def tx_fresh_def same_events_keys [OF assms]
      same_events_aggregate [OF assms] flip: mset_map)

lemma processed_open:
  "paired (db\<lparr>db_processed := tab\<rparr>) = paired db" "open_ok (db\<lparr>db_processed := tab\<rparr>) txs = open_ok db txs"
  by (simp_all add: paired_def open_ok_def tx_fresh_def)

text \<open>A statement on the outbox that keeps events and invariant and marks nothing sent.\<close>

lemma sys_inv_unsent:
  assumes "sys_inv zone s" and "outbox_ok (outbox_of s) \<Longrightarrow> outbox_ok tab" and "same_events (outbox_of s) tab"
    and "no_new_sent (outbox_of s) tab"
  shows "sys_inv zone (on_outbox tab s)"
proof -
  have "\<forall>r\<in>set tab. ob_id r \<le> db_outbox_seq (sys_db s)"
    using assms(1) same_events_bound [OF assms(3)] by (simp add: sys_inv_def db_ok_def)
  with assms show ?thesis
    by (auto simp: sys_inv_def db_ok_def same_events_open intro: announced_unsent known_same_events [OF _ assms(3)])
qed

lemma sys_inv_processed: "sys_inv zone s \<Longrightarrow> (processed_ok (processed_of s) \<Longrightarrow> processed_ok tab) \<Longrightarrow> sys_inv zone (on_processed tab s)"
  by (simp add: sys_inv_def db_ok_def processed_open)

lemma sys_inv_topic: "sys_inv zone s \<Longrightarrow> sys_inv zone (s\<lparr>sys_topic := sys_topic s @ ms\<rparr>)"
  unfolding sys_inv_def by (simp add: announced_append) blast

lemma known_more: "known tab e \<Longrightarrow> set tab \<subseteq> set tab' \<Longrightarrow> known tab' e"
  by (auto simp: known_def)

lemma sys_inv_creating:
  assumes inv: "sys_inv zone s" and step: "create_step pg k (sys_db s, sys_tx s) (db, txs)"
  shows "sys_inv zone (s\<lparr>sys_db := db, sys_tx := txs\<rparr>)"
proof -
  have ok: "open_ok (sys_db s) (sys_tx s)" "db_ok (sys_db s)" "paired (sys_db s)" using inv by (simp_all add: sys_inv_def)
  note rows = create_step_rows [OF step ok(1)]
  have "announced zone (sys_topic s) (db_outbox db)"
    using inv rows(2) unfolding sys_inv_def announced_def by (metis outbox_status.distinct(3))
  then show ?thesis
    using create_step_ok [OF step ok] inv known_more [OF _ rows(1)] by (auto simp: sys_inv_def)
qed

lemma ClaimPending_known:
  assumes "postgres_ok pg" and "outbox_ok tab" and "ClaimPending pg oc now locked n tab = (Inr es, tab')" and "e \<in> set es"
  shows "known tab e"
proof -
  obtain r where r: "r \<in> set tab" "e = scan_Event (claim_row now r)"
    using ClaimPending_event [OF assms] by metis
  then show ?thesis using scan_columns [of "claim_row now r" r] claim.upd_columns [of now r] by (auto simp: known_def)
qed

lemma sys_inv_claim:
  assumes pg: "postgres_ok pg" and inv: "sys_inv zone s" and claim: "ClaimPending pg oc now locked n (outbox_of s) = (Inr es, tab)"
  shows "sys_inv zone ((on_outbox tab s)\<lparr>sys_hand := (sys_hand s)(i := es), sys_acked := (sys_acked s)(i := {})\<rparr>)"
proof -
  have ok: "outbox_ok (outbox_of s)" using inv by (simp add: sys_inv_def db_ok_def)
  have tab: "tab = snd (ClaimPending pg oc now locked n (outbox_of s))" by (simp add: claim)
  have same: "same_events (outbox_of s) tab" unfolding tab by (rule ClaimPending_keeps)
  have "sys_inv zone (on_outbox tab s)"
    by (rule sys_inv_unsent [OF inv]) (simp_all add: tab ClaimPending_keeps unsent_calls)
  moreover have "known tab e" if "e \<in> set es" for e
    using known_same_events [OF ClaimPending_known [OF pg ok claim that] same] .
  ultimately show ?thesis by (auto simp: sys_inv_def)
qed

lemma sys_inv_sent:
  assumes inv: "sys_inv zone s" and e: "e \<in> sys_acked s i"
  shows "sys_inv zone (on_outbox (snd (MarkSent oc now (ID e) (outbox_of s))) s)"
proof -
  let ?tab = "outbox_of s" and ?tab' = "snd (MarkSent oc now (ID e) (outbox_of s))"
  have ok: "outbox_ok ?tab" "db_ok (sys_db s)" using inv by (simp_all add: sys_inv_def db_ok_def)
  from inv e obtain m where m: "known ?tab e" "m \<in> set (sys_topic s)" "message_of zone e = Inr m"
    unfolding sys_inv_def by blast
  have same: "same_events ?tab ?tab'" and ok': "outbox_ok ?tab'" using MarkSent_keeps [of ?tab] ok by auto
  have "\<exists>m\<in>set (sys_topic s). message_of zone (scan_Event r') = Inr m" if r': "r' \<in> set ?tab'" "ob_status r' = Sent" for r'
    using r'
  proof (cases rule: MarkSent_sent)
    case (already r)
    then show ?thesis using inv message_of_columns [OF already(3)] by (simp add: sys_inv_def announced_def)
  next
    case (marked r)
    then show ?thesis using known_row [OF m(1) same_events_refl ok(1) marked(1,2)] m message_of_columns [OF marked(3)] by auto
  qed
  then have "announced zone (sys_topic s) ?tab'" by (simp add: announced_def)
  moreover have "\<forall>r\<in>set ?tab'. ob_id r \<le> db_outbox_seq (sys_db s)"
    using ok(2) same_events_bound [OF same] by (simp add: db_ok_def)
  ultimately show ?thesis
    using inv ok ok' same
    by (auto simp: sys_inv_def db_ok_def same_events_open [OF same] intro: known_same_events [OF _ same])
qed

lemma sys_step_inv:
  assumes "postgres_ok pg" and "sys_step pg zone s s'" and "sys_inv zone s"
  shows "sys_inv zone s'"
  using assms(2)
proof (cases rule: sys_step.cases)
  case (claim oc now locked n es tab i)
  then show ?thesis using sys_inv_claim [OF assms(1,3)] by simp
next
  case (claim_lost oc now locked n err tab)
  have "sys_inv zone (on_outbox (snd (ClaimPending pg oc now locked n (outbox_of s))) s)"
    by (intro sys_inv_unsent [OF assms(3)]) (simp_all add: ClaimPending_keeps unsent_calls)
  with claim_lost show ?thesis by simp
next
  case (ack e i m)
  then show ?thesis using assms(3) by (auto simp: sys_inv_def)
next
  case (sent e i oc now)
  then show ?thesis using sys_inv_sent [OF assms(3)] by simp
qed (use assms(3) in \<open>auto intro!: sys_inv_creating sys_inv_topic sys_inv_unsent sys_inv_processed
    simp: ResetStuck_keeps MarkFailed_keeps MarkDead_keeps unsent_calls notify_store_keeps\<close>,
    auto simp: sys_inv_def split: if_splits)

lemma sys_steps_inv: "sys_steps pg zone s s' \<Longrightarrow> postgres_ok pg \<Longrightarrow> sys_inv zone s \<Longrightarrow> sys_inv zone s'"
  by (induction rule: rtranclp_induct) (auto intro: sys_step_inv)

section \<open>The relay makes steps of the system\<close>

text \<open>
  \<open>follows\<close>: from \<open>s0\<close> the system can reach a state with the database and the topic of
  \<open>w\<close>, in which relay \<open>i\<close> has \<open>es\<close> in hand and the events \<open>E\<close> acknowledged, and
  nothing else of another relay has changed, nor the open transactions.
\<close>

definition others_same :: "nat \<Rightarrow> system \<Rightarrow> system \<Rightarrow> bool" where
  "others_same i s0 s \<longleftrightarrow> sys_tx s = sys_tx s0 \<and> (\<forall>j. j \<noteq> i \<longrightarrow> sys_hand s j = sys_hand s0 j \<and> sys_acked s j = sys_acked s0 j)"

definition follows ::
  "outbox_row postgres \<Rightarrow> (time \<Rightarrow> int) \<Rightarrow> string \<Rightarrow> nat \<Rightarrow> system \<Rightarrow> Event list \<Rightarrow> Event set \<Rightarrow> world \<Rightarrow> bool" where
  "follows pg zone topic i s0 es E w \<longleftrightarrow>
     (\<exists>s. sys_steps pg zone s0 s \<and> sys_db s = w_db w \<and> sys_topic s = w_topics w topic \<and>
        sys_hand s i = es \<and> E \<subseteq> sys_acked s i \<and>
        others_same i s0 s)"

lemma followsI:
  "sys_steps pg zone s0 s \<Longrightarrow> sys_db s = w_db w \<Longrightarrow> sys_topic s = w_topics w topic \<Longrightarrow> sys_hand s i = es \<Longrightarrow>
   E \<subseteq> sys_acked s i \<Longrightarrow> others_same i s0 s \<Longrightarrow>
   follows pg zone topic i s0 es E w"
  by (auto simp: follows_def)

lemma followsE:
  assumes "follows pg zone topic i s0 es E w"
  obtains s where "sys_steps pg zone s0 s" "sys_db s = w_db w" "sys_topic s = w_topics w topic" "sys_hand s i = es"
    "E \<subseteq> sys_acked s i" "others_same i s0 s"
  using assms by (auto simp: follows_def)

lemma follows_frame:
  "w_db w' = w_db w \<Longrightarrow> w_topics w' = w_topics w \<Longrightarrow> follows pg zone topic i s0 es E w \<Longrightarrow> follows pg zone topic i s0 es E w'"
  by (simp add: follows_def)

lemma follows_fewer:
  assumes "follows pg zone topic i s0 es E w" and "F \<subseteq> E"
  shows "follows pg zone topic i s0 es F w"
  using assms(1) by (rule followsE) (use assms(2) in \<open>auto intro!: followsI\<close>)

text \<open>A call on the outbox that is a step whenever it is made.\<close>

lemma follows_outbox_call:
  assumes "\<And>s ev. sys_hand s i = es \<Longrightarrow> E \<subseteq> sys_acked s i \<Longrightarrow> sys_step pg zone s (on_outbox (snd (f ev (outbox_of s))) s)"
  shows "keeps (follows pg zone topic i s0 es E) (outbox_call f)"
proof (rule valid_outbox_call)
  fix w ev
  assume "follows pg zone topic i s0 es E w"
  then obtain s where s: "sys_steps pg zone s0 s" "sys_db s = w_db w" "sys_topic s = w_topics w topic" "sys_hand s i = es"
    "E \<subseteq> sys_acked s i" "others_same i s0 s" by (rule followsE)
  have "sys_steps pg zone s0 (on_outbox (snd (f ev (outbox_of s))) s)" using s(1) assms [OF s(4,5)] by (rule rtranclp.rtrancl_into_rtrancl)
  then show "follows pg zone topic i s0 es E (w\<lparr>w_cursor := Suc (w_cursor w),
      w_db := (w_db w)\<lparr>db_outbox := snd (f ev (db_outbox (w_db w)))\<rparr>\<rparr>)"
    by (rule followsI) (use s in \<open>auto simp: others_same_def\<close>)
qed

lemma foreign_steps: "sys_steps pg zone s (s\<lparr>sys_topic := sys_topic s @ ms\<rparr>)"
proof (induction ms rule: rev_induct)
  case (snoc m ms)
  from snoc foreign [of pg zone "s\<lparr>sys_topic := sys_topic s @ ms\<rparr>" m] show ?case
    by (simp add: rtranclp.rtrancl_into_rtrancl)
qed simp

lemma write_steps:
  assumes "e \<in> set (sys_hand s i)" and "message_of zone e = Inr m"
  shows "sys_steps pg zone s (s\<lparr>sys_topic := sys_topic s @ replicate n m\<rparr>)"
proof (induction n)
  case (Suc n)
  from assms have "sys_step pg zone (s\<lparr>sys_topic := sys_topic s @ replicate n m\<rparr>)
      (s\<lparr>sys_topic := (sys_topic s @ replicate n m) @ [m]\<rparr>)"
    using "write" [of e "s\<lparr>sys_topic := sys_topic s @ replicate n m\<rparr>" i zone m pg] by simp
  with Suc have "sys_steps pg zone s (s\<lparr>sys_topic := (sys_topic s @ replicate n m) @ [m]\<rparr>)"
    by (rule rtranclp.rtrancl_into_rtrancl)
  then show ?case by (simp add: replicate_append_same)
qed simp

lemma follows_dead_letter:
  assumes "producer_ok p"
  shows "valid (follows pg zone topic i s0 es E) (Produce p k v t)
    (\<lambda>(r, p') w. producer_ok p' \<and> p_cfg p' = p_cfg p \<and> follows pg zone topic i s0 es E w)"
proof (rule validI)
  fix w x w'
  assume f: "follows pg zone topic i s0 es E w" and run: "run_state (Produce p k v t) w = (x, w')"
  obtain r p' where x: "x = (r, p')" by (rule prod.exhaust)
  obtain n c where w': "w' = wrote (topic_of p) (replicate n \<lparr>m_Key = k, m_Value = v\<rparr>) c w"
    and p': "producer_ok p'" "p_cfg p' = p_cfg p"
    using Produce_wrote [OF assms run [unfolded x]] by metis
  from f obtain s where s: "sys_steps pg zone s0 s" "sys_db s = w_db w" "sys_topic s = w_topics w topic" "sys_hand s i = es"
    "E \<subseteq> sys_acked s i" "others_same i s0 s" by (rule followsE)
  define ms where "ms = (if topic_of p = topic then replicate n \<lparr>m_Key = k, m_Value = v\<rparr> else [])"
  have "sys_steps pg zone s0 (s\<lparr>sys_topic := sys_topic s @ ms\<rparr>)" using s(1) foreign_steps by (rule rtranclp_trans)
  then have "follows pg zone topic i s0 es E w'"
    by (rule followsI) (use s in \<open>auto simp: w' ms_def wrote_def others_same_def\<close>)
  then show "(case x of (r, p') \<Rightarrow> \<lambda>w. producer_ok p' \<and> p_cfg p' = p_cfg p \<and> follows pg zone topic i s0 es E w) w'"
    using p' by (simp add: x)
qed

lemma follows_produce:
  assumes e: "e \<in> set es" "message_of zone e = Inr m" and p: "producer_ok p" "topic_of p = topic"
  shows "valid (follows pg zone topic i s0 es {}) (Produce p (m_Key m) (m_Value m) t)
    (\<lambda>(r, p') w. producer_ok p' \<and> p_cfg p' = p_cfg p \<and>
       (if r = None then follows pg zone topic i s0 es {e} w else follows pg zone topic i s0 es {} w))"
proof (rule validI)
  fix w x w'
  assume f: "follows pg zone topic i s0 es {} w" and run: "run_state (Produce p (m_Key m) (m_Value m) t) w = (x, w')"
  obtain r p' where x: "x = (r, p')" by (rule prod.exhaust)
  obtain n c where w': "w' = wrote topic (replicate n m) c w" and n: "r = None \<Longrightarrow> 1 \<le> n"
    and p': "producer_ok p'" "p_cfg p' = p_cfg p"
    using Produce_wrote [OF p(1) run [unfolded x]] p(2) by (metis message.surjective old.unit.exhaust)
  from f obtain s where s: "sys_steps pg zone s0 s" "sys_db s = w_db w" "sys_topic s = w_topics w topic" "sys_hand s i = es"
    "others_same i s0 s" by (rule followsE)
  let ?s = "s\<lparr>sys_topic := sys_topic s @ replicate n m\<rparr>"
  have steps: "sys_steps pg zone s0 ?s"
    using s(1) write_steps [of e s i zone m pg n] e s(4) by (auto intro: rtranclp_trans)
  have written: "follows pg zone topic i s0 es {} w'"
    using steps by (rule followsI) (use s in \<open>auto simp: w' wrote_def others_same_def\<close>)
  have "follows pg zone topic i s0 es {e} w'" if "r = None"
  proof -
    have "m \<in> set (sys_topic ?s)" using n [OF that] by auto
    with ack [of e ?s i zone m pg] e s(4)
    have "sys_step pg zone ?s (?s\<lparr>sys_acked := (sys_acked ?s)(i := insert e (sys_acked ?s i))\<rparr>)" by simp
    with steps have "sys_steps pg zone s0 (?s\<lparr>sys_acked := (sys_acked ?s)(i := insert e (sys_acked ?s i))\<rparr>)"
      by (rule rtranclp.rtrancl_into_rtrancl)
    then show ?thesis by (rule followsI) (use s in \<open>auto simp: w' wrote_def others_same_def\<close>)
  qed
  with written p' show "(case x of (r, p') \<Rightarrow> \<lambda>w. producer_ok p' \<and> p_cfg p' = p_cfg p \<and>
       (if r = None then follows pg zone topic i s0 es {e} w else follows pg zone topic i s0 es {} w)) w'"
    by (simp add: x)
qed

lemma valid_exists: "(\<And>x. valid (P x) m (Q x)) \<Longrightarrow> valid (\<lambda>w. \<exists>x. P x w) m (\<lambda>a w. \<exists>x. Q x a w)"
  by (auto simp: valid_def case_prod_unfold)

lemma follows_claim:
  "valid (\<lambda>w. \<exists>es. follows pg zone topic i s0 es {} w)
     (outbox_call (\<lambda>ev. ClaimPending pg (ev_db ev) (ev_time ev) (ev_locked ev) n))
     (\<lambda>res w. case res of Inl _ \<Rightarrow> \<exists>es. follows pg zone topic i s0 es {} w | Inr es \<Rightarrow> follows pg zone topic i s0 es {} w)"
proof (rule valid_outbox_call, elim exE)
  fix w :: world and ev es0
  let ?w = "\<lambda>tab. w\<lparr>w_cursor := Suc (w_cursor w), w_db := (w_db w)\<lparr>db_outbox := tab\<rparr>\<rparr>"
  obtain res tab where c: "ClaimPending pg (ev_db ev) (ev_time ev) (ev_locked ev) n (db_outbox (w_db w)) = (res, tab)"
    by (rule prod.exhaust)
  assume "follows pg zone topic i s0 es0 {} w"
  then obtain s where s: "sys_steps pg zone s0 s" "sys_db s = w_db w" "sys_topic s = w_topics w topic" "others_same i s0 s"
    by (rule followsE)
  note c' = c [folded s(2)]
  have "case res of Inl _ \<Rightarrow> \<exists>es. follows pg zone topic i s0 es {} (?w tab) | Inr es \<Rightarrow> follows pg zone topic i s0 es {} (?w tab)"
  proof (cases res)
    case (Inl err)
    with c' have "sys_step pg zone s (on_outbox tab s)" by (intro claim_lost) simp
    with s(1) have "sys_steps pg zone s0 (on_outbox tab s)" by (rule rtranclp.rtrancl_into_rtrancl)
    then have "follows pg zone topic i s0 (sys_hand s i) {} (?w tab)"
      by (rule followsI) (use s in \<open>auto simp: others_same_def\<close>)
    with Inl show ?thesis by auto
  next
    case (Inr es)
    let ?s = "(on_outbox tab s)\<lparr>sys_hand := (sys_hand s)(i := es), sys_acked := (sys_acked s)(i := {})\<rparr>"
    from c' Inr have "sys_step pg zone s ?s" by (intro claim) simp
    with s(1) have "sys_steps pg zone s0 ?s" by (rule rtranclp.rtrancl_into_rtrancl)
    then have "follows pg zone topic i s0 es {} (?w tab)"
      by (rule followsI) (use s in \<open>auto simp: others_same_def\<close>)
    with Inr show ?thesis by simp
  qed
  then show "case fst (ClaimPending pg (ev_db ev) (ev_time ev) (ev_locked ev) n (db_outbox (w_db w))) of
      Inl _ \<Rightarrow> \<exists>es. follows pg zone topic i s0 es {} (?w (snd (ClaimPending pg (ev_db ev) (ev_time ev) (ev_locked ev) n (db_outbox (w_db w)))))
    | Inr es \<Rightarrow> follows pg zone topic i s0 es {} (?w (snd (ClaimPending pg (ev_db ev) (ev_time ev) (ev_locked ev) n (db_outbox (w_db w)))))"
    unfolding c fst_conv snd_conv .
qed

interpretation stepping: relay_contract pg zone topic "\<lambda>w. \<exists>es. follows pg zone topic i s0 es {} w"
    "\<lambda>es. follows pg zone topic i s0 es {}" "\<lambda>es e. follows pg zone topic i s0 es {e}"
  for pg zone topic i s0
proof (unfold_locales, goal_cases)
  case (3 d)
  show ?case
    by (rule valid_weaken [OF valid_exists [OF follows_outbox_call]]) (auto intro: reset)
next
  case (4 n)
  show ?case by (rule follows_claim)
next
  case (5 e es m p t)
  then show ?case by (rule follows_produce)
next
  case (6 p es k v t)
  then show ?case by (rule follows_dead_letter)
next
  case (7 e es)
  show ?case
    by (rule valid_weaken [OF follows_outbox_call [where E = "{e}"]]) (auto intro: sent follows_fewer)
next
  case (8 e es at msg)
  then show ?case by (auto intro!: follows_outbox_call failed)
next
  case (9 e es msg)
  then show ?case by (auto intro!: follows_outbox_call dead)
qed (auto intro: follows_frame)

section \<open>The notification service makes steps of the system\<close>

text \<open>
  \<open>reaches\<close>: the system can come from \<open>s0\<close> to the database and the topic of \<open>w\<close> while
  no relay claims, acknowledges or loses anything and the open transactions stay as they are.
\<close>

definition reaches :: "outbox_row postgres \<Rightarrow> (time \<Rightarrow> int) \<Rightarrow> string \<Rightarrow> system \<Rightarrow> world \<Rightarrow> bool" where
  "reaches pg zone topic s0 w \<longleftrightarrow>
     (\<exists>s. sys_steps pg zone s0 s \<and> sys_db s = w_db w \<and> sys_topic s = w_topics w topic \<and>
        sys_hand s = sys_hand s0 \<and> sys_acked s = sys_acked s0 \<and> sys_tx s = sys_tx s0)"

lemma reaches_processed_call:
  assumes "\<And>s ev. sys_step pg zone s (on_processed (snd (f ev (processed_of s))) s)"
  shows "keeps (reaches pg zone topic s0) (processed_call f)"
proof (rule valid_processed_call)
  fix w ev
  assume "reaches pg zone topic s0 w"
  then obtain s where s: "sys_steps pg zone s0 s" "sys_db s = w_db w" "sys_topic s = w_topics w topic"
    "sys_hand s = sys_hand s0" "sys_acked s = sys_acked s0" "sys_tx s = sys_tx s0" by (auto simp: reaches_def)
  have "sys_steps pg zone s0 (on_processed (snd (f ev (processed_of s))) s)"
    using s(1) assms by (rule rtranclp.rtrancl_into_rtrancl)
  with s show "reaches pg zone topic s0 (w\<lparr>w_cursor := Suc (w_cursor w),
      w_db := (w_db w)\<lparr>db_processed := snd (f ev (db_processed (w_db w)))\<rparr>\<rparr>)"
    unfolding reaches_def by (intro exI [of _ "on_processed (snd (f ev (processed_of s))) s"]) simp
qed

lemma reaches_letter:
  assumes "producer_ok p"
  shows "valid (reaches pg zone topic s0) (Produce p k v t) (\<lambda>(r, p') w. producer_ok p' \<and> reaches pg zone topic s0 w)"
proof (rule validI)
  fix w x w'
  assume f: "reaches pg zone topic s0 w" and run: "run_state (Produce p k v t) w = (x, w')"
  obtain r p' where x: "x = (r, p')" by (rule prod.exhaust)
  obtain n c where w': "w' = wrote (topic_of p) (replicate n \<lparr>m_Key = k, m_Value = v\<rparr>) c w" and p': "producer_ok p'"
    using Produce_wrote [OF assms run [unfolded x]] by metis
  from f obtain s where s: "sys_steps pg zone s0 s" "sys_db s = w_db w" "sys_topic s = w_topics w topic"
    "sys_hand s = sys_hand s0" "sys_acked s = sys_acked s0" "sys_tx s = sys_tx s0" by (auto simp: reaches_def)
  define ms where "ms = (if topic_of p = topic then replicate n \<lparr>m_Key = k, m_Value = v\<rparr> else [])"
  have "sys_steps pg zone s0 (s\<lparr>sys_topic := sys_topic s @ ms\<rparr>)" using s(1) foreign_steps by (rule rtranclp_trans)
  with s have "reaches pg zone topic s0 w'"
    unfolding reaches_def by (intro exI [of _ "s\<lparr>sys_topic := sys_topic s @ ms\<rparr>"]) (simp add: w' ms_def wrote_def)
  with p' show "(case x of (r, p') \<Rightarrow> \<lambda>w. producer_ok p' \<and> reaches pg zone topic s0 w) w'" by (simp add: x)
qed

interpretation consuming: consumer_contract pg "reaches pg zone topic s0" for pg zone topic s0
  by unfold_locales
     (simp add: reaches_def, (rule reaches_processed_call, rule sys_step.intros)+, rule reaches_letter)

text \<open>Whole runs of the two programs.\<close>

lemma relay_loop_steps:
  assumes "relay_ok topic rl" and "sys_db s = w_db w" and "sys_topic s = w_topics w topic"
    and "run_state (relay_loop pg zone c rl cs) w = (rl', w')"
  shows "\<exists>s'. sys_steps pg zone s s' \<and> sys_db s' = w_db w' \<and> sys_topic s' = w_topics w' topic \<and> sys_tx s' = sys_tx s \<and>
    (\<forall>j. j \<noteq> i \<longrightarrow> sys_hand s' j = sys_hand s j \<and> sys_acked s' j = sys_acked s j)"
proof -
  have "follows pg zone topic i s (sys_hand s i) {} w"
    by (rule followsI [of _ _ s s]) (use assms(2,3) in \<open>auto simp: others_same_def\<close>)
  then have "\<exists>es. follows pg zone topic i s es {} w" ..
  from validD [OF stepping.relay_loop_keeps [OF assms(1)] this assms(4)]
  obtain es where "follows pg zone topic i s es {} w'" by auto
  then show ?thesis by (auto simp: follows_def others_same_def)
qed

lemma fetch_loop_steps:
  assumes "service_ok sv" and "sys_db s = w_db w" and "sys_topic s = w_topics w topic"
    and "run_state (fetch_loop fuel pg c sv ps) w = (r, w')"
  shows "\<exists>s'. sys_steps pg zone s s' \<and> sys_db s' = w_db w' \<and> sys_topic s' = w_topics w' topic \<and> sys_tx s' = sys_tx s \<and>
    sys_hand s' = sys_hand s \<and> sys_acked s' = sys_acked s"
proof -
  have "reaches pg zone topic s w" using assms(2,3) by (auto simp: reaches_def)
  from validD [OF consuming.fetch_loop_keeps [OF assms(1)] this assms(4)] show ?thesis
    by (auto simp: consuming.after_loop_def reaches_def)
qed

section \<open>Properties\<close>

text \<open>
  C3. Safety of the whole: ticket services with overlapping transactions, relays and
  notification services may take their steps in any order, lose replies and crash; the tables
  keep their constraints, every ticket has exactly one event and every event its ticket, and
  whatever is marked sent is in the topic.
\<close>

theorem system_safe:
  assumes "postgres_ok pg" and "sys_steps pg zone empty_system s"
  shows "db_ok (sys_db s) \<and> announced zone (sys_topic s) (db_outbox (sys_db s)) \<and>
    mset (map ob_aggregate_id (db_outbox (sys_db s))) = mset (map t_ID (db_tickets (sys_db s)))"
  using sys_steps_inv [OF assms(2,1) sys_inv_empty] by (simp add: sys_inv_def paired_def)

text \<open>
  Two creations overlap: the transactions of \<open>t1\<close> and \<open>t2\<close> are open together, the second one
  takes the first number of the sequence, and the first one commits before it.
\<close>

definition named_ticket :: "string \<Rightarrow> Ticket" where
  "named_ticket i = stored_ticket plain_postgres (example_ticket\<lparr>t_ID := i\<rparr>)"

lemma named_ticket_ID [simp]: "t_ID (named_ticket i) = i"
  by (simp add: named_ticket_def)

definition named_event :: "string \<Rightarrow> string \<Rightarrow> int \<Rightarrow> string \<Rightarrow> outbox_row" where
  "named_event i uuid n payload = new_outbox_row 2000 uuid n ''ticket'' i EventTypeTicketCreated payload"

lemma named_inserts_ticket:
  assumes "txs k = None" "i \<notin> t_ID ` set (db_tickets db)" "i \<notin> open_ids txs"
  shows "create_step plain_postgres k (db, txs) (db, txs(k \<mapsto> \<lparr>tx_ticket = named_ticket i, tx_event = None\<rparr>))"
  using assms
  by (intro inserts_ticket [where t = "example_ticket\<lparr>t_ID := i\<rparr>"])
     (auto simp: insert_ticket_Inr named_ticket_def plain_postgres_def)

lemma named_inserts_event:
  assumes "txs k = Some \<lparr>tx_ticket = named_ticket i, tx_event = None\<rparr>"
    and "uuid \<notin> ob_event_id ` set (db_outbox db)" "uuid \<notin> open_uuids txs"
  obtains payload where "create_step plain_postgres k (db, txs)
    (use_seq db, txs(k \<mapsto> \<lparr>tx_ticket = named_ticket i, tx_event = Some (named_event i uuid (db_outbox_seq db + 1) payload)\<rparr>))"
proof -
  have "case marshal_time (\<lambda>_. 0) (timestamptz (plain_postgres :: outbox_row postgres) 1000) of Inr _ \<Rightarrow> True | Inl _ \<Rightarrow> False"
    by code_simp
  then obtain c where "marshal_time (\<lambda>_. 0) (t_CreatedAt (named_ticket i)) = Inr c"
    by (auto simp: named_ticket_def stored_ticket_def example_ticket_def split: sum.splits)
  then obtain raw where "ticket_payload (\<lambda>_. 0) [] (named_ticket i) = Inr raw" by (simp add: ticket_payload_def)
  moreover have "insert_outbox plain_postgres 2000 uuid ''ticket'' i EventTypeTicketCreated raw db =
      Inr ((), db\<lparr>db_outbox := db_outbox db @ [named_event i uuid (db_outbox_seq db + 1) raw]\<rparr>)"
    using assms(2) by (simp add: insert_outbox_def plain_postgres_def named_event_def)
  ultimately show thesis
    using inserts_event [of txs k "\<lparr>tx_ticket = named_ticket i, tx_event = None\<rparr>" "\<lambda>_. 0" "[]" raw plain_postgres 2000 uuid db] assms
    by (intro that [of raw]) simp
qed

lemma overlapping_creations:
  obtains p1 p2 where "sys_steps plain_postgres zone empty_system
    (empty_system\<lparr>sys_db := empty_db\<lparr>db_tickets := [named_ticket ''t1'', named_ticket ''t2''],
       db_outbox := [named_event ''t2'' ''u2'' 1 p2, named_event ''t1'' ''u1'' 2 p1], db_outbox_seq := 2\<rparr>\<rparr>)"
proof -
  let ?x = "\<lambda>i. \<lparr>tx_ticket = named_ticket i, tx_event = None\<rparr>"
  let ?db1 = "use_seq empty_db" and ?db2 = "use_seq (use_seq empty_db)"
  let ?a = "[0 :: nat \<mapsto> ?x ''t1'']" let ?b = "?a(1 \<mapsto> ?x ''t2'')"
  have db: "db_tickets empty_db = []" "db_outbox empty_db = []" "db_outbox_seq empty_db = 0" by (simp_all add: empty_db_def)
  have 1: "create_step plain_postgres 0 (empty_db, Map.empty) (empty_db, ?a)"
    by (rule named_inserts_ticket) (simp_all add: db open_ids_def)
  have 2: "create_step plain_postgres 1 (empty_db, ?a) (empty_db, ?b)"
    by (rule named_inserts_ticket) (simp_all add: db open_ids_def)
  obtain p2 where 3: "create_step plain_postgres 1 (empty_db, ?b)
      (?db1, ?b(1 \<mapsto> \<lparr>tx_ticket = named_ticket ''t2'', tx_event = Some (named_event ''t2'' ''u2'' (db_outbox_seq empty_db + 1) p2)\<rparr>))"
    by (rule named_inserts_event [of ?b 1 "''t2''" "''u2''" empty_db]) (auto simp: db open_uuids_def ran_def split: if_splits)
  let ?c = "?b(1 \<mapsto> \<lparr>tx_ticket = named_ticket ''t2'', tx_event = Some (named_event ''t2'' ''u2'' (db_outbox_seq empty_db + 1) p2)\<rparr>)"
  obtain p1 where 4: "create_step plain_postgres 0 (?db1, ?c)
      (?db2, ?c(0 \<mapsto> \<lparr>tx_ticket = named_ticket ''t1'', tx_event = Some (named_event ''t1'' ''u1'' (db_outbox_seq ?db1 + 1) p1)\<rparr>))"
    by (rule named_inserts_event [of ?c 0 "''t1''" "''u1''" ?db1])
       (auto simp: db use_seq_def open_uuids_def ran_def named_event_def new_outbox_row_def split: if_splits)
  let ?r1 = "named_event ''t1'' ''u1'' 2 p1" and ?r2 = "named_event ''t2'' ''u2'' 1 p2"
  let ?d = "?c(0 \<mapsto> \<lparr>tx_ticket = named_ticket ''t1'', tx_event = Some (named_event ''t1'' ''u1'' (db_outbox_seq ?db1 + 1) p1)\<rparr>)"
  let ?db3 = "?db2\<lparr>db_tickets := [] @ named_ticket ''t1'' # [], db_outbox := [] @ ?r1 # []\<rparr>"
  have 5: "create_step plain_postgres 0 (?db2, ?d) (?db3, ?d(0 := None))"
    using commits [of ?d 0 "\<lparr>tx_ticket = named_ticket ''t1'', tx_event = Some ?r1\<rparr>" ?r1 ?db2 "[]" "[]" "[]" "[]"]
    by (simp add: db use_seq_def)
  have 6: "create_step plain_postgres 1 (?db3, ?d(0 := None))
      (?db3\<lparr>db_tickets := [named_ticket ''t1''] @ named_ticket ''t2'' # [], db_outbox := [] @ ?r2 # [?r1]\<rparr>, ?d(0 := None, 1 := None))"
    using commits [of "?d(0 := None)" 1 "\<lparr>tx_ticket = named_ticket ''t2'', tx_event = Some ?r2\<rparr>" ?r2 ?db3 "[named_ticket ''t1'']" "[]" "[]" "[?r1]"]
    by (simp add: db use_seq_def)
  have 0: "sys_steps plain_postgres zone empty_system (empty_system\<lparr>sys_db := empty_db, sys_tx := Map.empty\<rparr>)"
    by (simp add: empty_system_def)
  note run = creating_more [OF creating_more [OF creating_more [OF creating_more [OF creating_more [OF creating_more [OF 0 1] 2] 3] 4] 5] 6]
  have "?d(0 := None, 1 := None) = Map.empty" by (auto simp: fun_eq_iff)
  with run have "sys_steps plain_postgres zone empty_system
      (empty_system\<lparr>sys_db := ?db3\<lparr>db_tickets := [named_ticket ''t1''] @ named_ticket ''t2'' # [], db_outbox := [] @ ?r2 # [?r1]\<rparr>,
         sys_tx := Map.empty\<rparr>)" by (simp only:)
  then show thesis by (intro that) (simp add: empty_system_def empty_db_def use_seq_def)
qed

theorem system_safe_witness:
  "\<exists>s. sys_steps plain_postgres (\<lambda>_. 0) empty_system s \<and> map t_ID (db_tickets (sys_db s)) = [''t1'', ''t2''] \<and>
     map ob_aggregate_id (db_outbox (sys_db s)) = [''t2'', ''t1''] \<and> db_ok (sys_db s)"
proof -
  obtain p1 p2 where steps: "sys_steps plain_postgres (\<lambda>_. 0) empty_system
    (empty_system\<lparr>sys_db := empty_db\<lparr>db_tickets := [named_ticket ''t1'', named_ticket ''t2''],
       db_outbox := [named_event ''t2'' ''u2'' 1 p2, named_event ''t1'' ''u1'' 2 p1], db_outbox_seq := 2\<rparr>\<rparr>)" (is "sys_steps _ _ _ ?s")
    by (rule overlapping_creations)
  then show ?thesis using system_safe [OF plain_postgres_ok steps]
    by (intro exI [of _ ?s]) (simp add: named_event_def new_outbox_row_def)
qed
text \<open>
  C9. The relay refines the system: whatever the database and Kafka answer, a run of the
  relay's loop is a sequence of steps of the system, in which the other relays keep what they
  have in hand and the open transactions stay as they are.
\<close>

theorem relay_simulated:
  assumes "relay_ok topic rl" and "sys_db s = w_db w" and "sys_topic s = w_topics w topic"
    and "run_state (relay_loop pg zone c rl cs) w = (rl', w')"
  shows "\<exists>s'. sys_steps pg zone s s' \<and> sys_db s' = w_db w' \<and> sys_topic s' = w_topics w' topic \<and> sys_tx s' = sys_tx s \<and>
    (\<forall>j. j \<noteq> i \<longrightarrow> sys_hand s' j = sys_hand s j \<and> sys_acked s' j = sys_acked s j)"
  by (rule relay_loop_steps [OF assms])

theorem relay_simulated_witness:
  "\<exists>rl' w' s'. run_state (relay_loop plain_postgres (\<lambda>_. 0) example_cfg (new_relay example_cfg) [Tick, Tick, Done]) relay_world
       = (rl', w') \<and>
     sys_steps plain_postgres (\<lambda>_. 0) (empty_system\<lparr>sys_db := w_db relay_world\<rparr>) s' \<and> sys_db s' = w_db w' \<and>
     sys_hand s' 1 = []"
proof -
  let ?s = "empty_system\<lparr>sys_db := w_db relay_world\<rparr>"
  obtain rl' w' where run: "run_state (relay_loop plain_postgres (\<lambda>_. 0) example_cfg (new_relay example_cfg)
      [Tick, Tick, Done]) relay_world = (rl', w')" by (rule prod.exhaust)
  have "sys_db ?s = w_db relay_world" "sys_topic ?s = w_topics relay_world (rc_topic example_cfg)"
    by (simp_all add: empty_system_def)
  from relay_simulated [OF new_relay_ok(1) this run, of 0] obtain s' where
    "sys_steps plain_postgres (\<lambda>_. 0) ?s s'" "sys_db s' = w_db w'" "\<forall>j. j \<noteq> 0 \<longrightarrow> sys_hand s' j = sys_hand ?s j" by blast
  then show ?thesis using run by (intro exI [of _ rl'] exI [of _ w'] exI [of _ s']) (simp add: empty_system_def)
qed

end
