(* ===== verification/Relay_Progress.thy ===== *)
theory Relay_Progress
  imports Outbox_Relay
begin

text \<open>
  The relay gets its work done: with an outside that answers, no other worker at the table and
  a clock that does not run backwards past a retry time, every tick takes a full batch off the
  backlog until nothing is left, and each event is published exactly once.
\<close>

section \<open>A backlog a relay can work off\<close>

definition all_up :: "world \<Rightarrow> bool" where
  "all_up w \<longleftrightarrow> (\<forall>n. ev_db (w_script w n) = Success \<and> ev_kafka (w_script w n) = Success \<and>
     ev_again (w_script w n) = 0 \<and> (\<forall>i. \<not> ev_locked (w_script w n) i))"

lemma all_up_healthy: "all_up w \<Longrightarrow> healthy w"
  by (simp add: all_up_def healthy_def)

definition pending :: "outbox_row list \<Rightarrow> outbox_row list" where
  "pending tab = filter (\<lambda>r. ob_status r = Pending) tab"

text \<open>
  Nothing is in processing, and every pending row can be encoded, can be counted up and is due
  from now on.
\<close>

definition workable :: "(time \<Rightarrow> int) \<Rightarrow> world \<Rightarrow> bool" where
  "workable zone w \<longleftrightarrow>
     outbox_ok (db_outbox (w_db w)) \<and> (\<forall>r\<in>set (db_outbox (w_db w)). ob_status r \<noteq> Processing) \<and>
     (\<forall>r\<in>set (pending (db_outbox (w_db w))). encodable zone (scan_Event r) \<and> ob_attempts r < int4_max \<and>
        (\<forall>n\<ge>w_cursor w. ob_next_retry_at r \<le> ev_time (w_script w n)))"

lemma workable_later: "workable zone w \<Longrightarrow> later w w' \<Longrightarrow> w_db w' = w_db w \<Longrightarrow> workable zone w'"
  by (auto simp: workable_def later_def)

lemma ResetStuck_idle:
  "\<forall>r\<in>set tab. ob_status r \<noteq> Processing \<Longrightarrow> snd (ResetStuck Success now d tab) = tab"
  by (auto simp: ResetStuck_def Let_def stuck_def intro!: sql_update_none)

text \<open>The rows a claim takes are a part of the pending ones, as large as the batch allows.\<close>

lemma chosen_part:
  fixes limit :: nat
  assumes pg: "postgres_ok pg" and "\<And>i. \<not> locked i" and "\<forall>r\<in>set (pending tab). ob_next_retry_at r \<le> now"
  defines "cs \<equiv> chosen pg now locked limit tab"
  shows "mset cs \<subseteq># mset (pending tab)" and "length cs = min limit (length (pending tab))"
proof -
  let ?f = "filter (\<lambda>r. due now r \<and> \<not> locked (ob_id r)) (scan_order pg tab)"
  have "filter_mset (\<lambda>r. due now r \<and> \<not> locked (ob_id r)) (mset tab) = filter_mset (\<lambda>r. ob_status r = Pending) (mset tab)"
    using assms(2,3) by (intro filter_mset_cong) (auto simp: due_def pending_def)
  then have m: "mset ?f = mset (pending tab)"
    by (simp add: postgres_ok_scan [OF pg] pending_def)
  have "mset (sort_key ob_created_at ?f) = mset cs + mset (drop limit (sort_key ob_created_at ?f))"
    unfolding cs_def chosen_def by (simp flip: mset_append)
  also have "mset (sort_key ob_created_at ?f) = mset (pending tab)" using m by simp
  finally show "mset cs \<subseteq># mset (pending tab)" by simp
  show "length cs = min limit (length (pending tab))"
    using mset_eq_length [OF m] by (simp add: cs_def chosen_def min.commute)
qed

text \<open>What is left after the rows \<open>cs\<close> have been sent.\<close>

lemma pending_rest:
  assumes "outbox_ok tab" and "mset cs \<subseteq># mset (pending tab)"
  shows "mset (pending tab) = mset cs + mset (filter (\<lambda>r. ob_id r \<notin> ob_id ` set cs) (pending tab))"
proof -
  have dist: "distinct (map ob_id (pending tab))"
    using assms(1) by (simp add: outbox_ok_def pending_def distinct_map_filter)
  then have "distinct (pending tab)" by (simp add: distinct_map)
  have sub: "set cs \<subseteq> set (pending tab)" using assms(2) by (metis set_mset_mono set_mset_mset)
  have "distinct cs" using \<open>distinct (pending tab)\<close> assms(2)
    by (metis distinct_append mset_append mset_eq_imp_distinct_iff mset_subset_eq_exists_conv ex_mset)
  moreover have "set (filter (\<lambda>r. ob_id r \<in> ob_id ` set cs) (pending tab)) = set cs"
    using sub distinct_key_eq [OF dist] by (auto simp: subset_iff)
  ultimately have "mset (filter (\<lambda>r. ob_id r \<in> ob_id ` set cs) (pending tab)) = mset cs"
    using \<open>distinct (pending tab)\<close> by (metis distinct_filter set_eq_iff_mset_eq_distinct)
  then show ?thesis
    using multiset_partition [of "mset (pending tab)" "\<lambda>r. ob_id r \<in> ob_id ` set cs"] by simp
qed

text \<open>One tick on a workable table.\<close>

lemma tick_works:
  assumes pg: "postgres_ok pg" and up: "all_up w" and rl: "open_relay topic rl" and ok: "workable zone w"
  obtains w' ms cs where "run_state (tick pg zone c rl) w = ((None, rl), w')"
    "w_topics w' = (w_topics w)(topic := w_topics w topic @ ms)"
    "mset ms = image_mset (the_message zone \<circ> scan_Event) (mset cs)"
    "mset (pending (db_outbox (w_db w))) = mset cs + mset (pending (db_outbox (w_db w')))"
    "length cs = min (batch_of (rc_batchSize c)) (length (pending (db_outbox (w_db w))))"
    "statuses (db_outbox (w_db w')) = (\<lambda>i. if i \<in> ob_id ` set cs then Some Sent else statuses (db_outbox (w_db w)) i)"
    "workable zone w'" "all_up w'"
proof -
  define tab where "tab = db_outbox (w_db w)"
  define ev where "ev = w_script w (w_cursor w + 2)"
  define cs where "cs = chosen pg (ev_time ev) (ev_locked ev) (batch_of (rc_batchSize c)) tab"
  note ok' = ok [unfolded workable_def, folded tab_def]
  have idle: "snd (ResetStuck Success now d tab) = tab" for now d using ok' by (simp add: ResetStuck_idle)
  have cs: "mset cs \<subseteq># mset (pending tab)" "length cs = min (batch_of (rc_batchSize c)) (length (pending tab))"
    unfolding cs_def using up ok' by (auto intro!: chosen_part [OF pg] simp: all_up_def ev_def)
  have sub: "set cs \<subseteq> set (pending tab)" using cs(1) by (metis set_mset_mono set_mset_mset)
  have "\<forall>r\<in>set cs. encodable zone (scan_Event r) \<and> ob_attempts r < int4_max" using sub ok' by auto
  then obtain w' ms where w': "run_state (tick pg zone c rl) w = ((None, rl), w')"
    "w_topics w' = (w_topics w)(topic := w_topics w topic @ ms)"
    "mset ms = mset (map (the_message zone \<circ> scan_Event) cs)"
    "statuses (db_outbox (w_db w')) = (\<lambda>i. if i \<in> ob_id ` set cs then Some Sent else statuses tab i)"
    "filter (\<lambda>r. ob_id r \<notin> ob_id ` set cs) (db_outbox (w_db w')) = filter (\<lambda>r. ob_id r \<notin> ob_id ` set cs) tab"
    "outbox_ok (db_outbox (w_db w'))" "later w w'"
    using tick_healthy [OF pg all_up_healthy [OF up] rl, of c zone] ok'
    unfolding cs_def ev_def tab_def [symmetric] idle by blast
  let ?tab' = "db_outbox (w_db w')"
  have sent: "ob_status r = Sent" if "r \<in> set ?tab'" "ob_id r \<in> ob_id ` set cs" for r
    using that w'(4) statuses_Some [OF w'(6), of "ob_id r" "ob_status r"] by auto
  have old: "r \<in> set tab" if "r \<in> set ?tab'" "ob_id r \<notin> ob_id ` set cs" for r
  proof -
    from that have "r \<in> set (filter (\<lambda>r. ob_id r \<notin> ob_id ` set cs) ?tab')" by simp
    then show ?thesis unfolding w'(5) by simp
  qed
  have "pending ?tab' = filter (\<lambda>r. ob_status r = Pending) (filter (\<lambda>r. ob_id r \<notin> ob_id ` set cs) ?tab')"
    unfolding pending_def using sent by (auto intro!: filter_cong simp: filter_filter)
  also have "\<dots> = filter (\<lambda>r. ob_id r \<notin> ob_id ` set cs) (pending tab)"
    unfolding w'(5) pending_def by (simp add: conj_commute)
  finally have rest: "pending ?tab' = filter (\<lambda>r. ob_id r \<notin> ob_id ` set cs) (pending tab)" .
  have "ob_status r \<noteq> Processing" if "r \<in> set ?tab'" for r
    using sent [OF that] old [OF that] ok' by (cases "ob_id r \<in> ob_id ` set cs") auto
  then have "workable zone w'" using ok' w'(6,7) by (auto simp: workable_def rest later_def)
  moreover have "all_up w'" using up w'(7) by (simp add: all_up_def later_def)
  moreover have "mset (pending tab) = mset cs + mset (pending ?tab')"
    unfolding rest using ok' cs(1) by (intro pending_rest) auto
  ultimately show thesis using w'(1-4) cs unfolding tab_def by (intro that [of w' ms cs]) simp_all
qed

text \<open>Ticks in a row: batch after batch until the backlog is empty.\<close>

lemma ticks_work:
  assumes pg: "postgres_ok pg" and rl: "open_relay topic rl"
  shows "all_up w \<Longrightarrow> workable zone w \<Longrightarrow>
    length (pending (db_outbox (w_db w))) \<le> k * batch_of (rc_batchSize c) \<Longrightarrow>
    \<exists>w' ms. run_state (relay_loop pg zone c rl (replicate k Tick)) w = (rl, w') \<and>
      w_topics w' = (w_topics w)(topic := w_topics w topic @ ms) \<and>
      mset ms = image_mset (the_message zone \<circ> scan_Event) (mset (pending (db_outbox (w_db w)))) \<and>
      statuses (db_outbox (w_db w')) =
        (\<lambda>i. if i \<in> ob_id ` set (pending (db_outbox (w_db w))) then Some Sent else statuses (db_outbox (w_db w)) i)"
proof (induction k arbitrary: w)
  case 0
  then show ?case by auto
next
  case (Suc k)
  let ?b = "batch_of (rc_batchSize c)" and ?p = "pending (db_outbox (w_db w))"
  obtain w1 ms1 cs where t: "run_state (tick pg zone c rl) w = ((None, rl), w1)"
    "w_topics w1 = (w_topics w)(topic := w_topics w topic @ ms1)"
    "mset ms1 = image_mset (the_message zone \<circ> scan_Event) (mset cs)"
    "mset ?p = mset cs + mset (pending (db_outbox (w_db w1)))" "length cs = min ?b (length ?p)"
    "statuses (db_outbox (w_db w1)) = (\<lambda>i. if i \<in> ob_id ` set cs then Some Sent else statuses (db_outbox (w_db w)) i)"
    "workable zone w1" "all_up w1"
    by (rule tick_works [OF pg Suc.prems(1) rl Suc.prems(2)])
  have "length ?p = length cs + length (pending (db_outbox (w_db w1)))" using arg_cong [OF t(4), of size] by simp
  then have "length (pending (db_outbox (w_db w1))) \<le> k * ?b" using t(5) Suc.prems(3) by (auto simp: min_def split: if_splits)
  with Suc.IH [OF t(8,7)] obtain w' ms where w': "run_state (relay_loop pg zone c rl (replicate k Tick)) w1 = (rl, w')"
      "w_topics w' = (w_topics w1)(topic := w_topics w1 topic @ ms)"
      "mset ms = image_mset (the_message zone \<circ> scan_Event) (mset (pending (db_outbox (w_db w1))))"
      "statuses (db_outbox (w_db w')) = (\<lambda>i. if i \<in> ob_id ` set (pending (db_outbox (w_db w1))) then Some Sent
         else statuses (db_outbox (w_db w1)) i)" by blast
  have "set ?p = set cs \<union> set (pending (db_outbox (w_db w1)))" using arg_cong [OF t(4), of set_mset] by simp
  moreover have "mset (ms1 @ ms) = image_mset (the_message zone \<circ> scan_Event) (mset ?p)"
    by (simp only: mset_append t(3,4) w'(3) image_mset_union)
  moreover have "w_topics w' = (w_topics w)(topic := w_topics w topic @ (ms1 @ ms))" using t(2) w'(2) by simp
  moreover have "statuses (db_outbox (w_db w')) =
      (\<lambda>i. if i \<in> ob_id ` set ?p then Some Sent else statuses (db_outbox (w_db w)) i)"
    using t(6) w'(4) calculation(1) by (auto simp: fun_eq_iff)
  moreover have "run_state (relay_loop pg zone c rl (replicate (Suc k) Tick)) w = (rl, w')" using t(1) w'(1) by simp
  ultimately show ?case by blast
qed

section \<open>Properties\<close>

text \<open>
  C7. The backlog drains: when the database and Kafka answer every call, no row is locked by
  others, no write is repeated, no row is in processing, and every pending row is due,
  encodable and below the largest count of attempts, then as many ticks as the backlog has
  batches leave every pending row sent, change no other row's status and write exactly one
  message for each of them.
\<close>

theorem backlog_drains:
  assumes "postgres_ok pg" and "open_relay topic rl" and "all_up w" and "workable zone w"
    and "length (pending (db_outbox (w_db w))) \<le> k * batch_of (rc_batchSize c)"
  shows "\<exists>w' ms. run_state (relay_loop pg zone c rl (replicate k Tick)) w = (rl, w') \<and>
    w_topics w' = (w_topics w)(topic := w_topics w topic @ ms) \<and>
    mset ms = image_mset (the_message zone \<circ> scan_Event) (mset (pending (db_outbox (w_db w)))) \<and>
    statuses (db_outbox (w_db w')) =
      (\<lambda>i. if i \<in> ob_id ` set (pending (db_outbox (w_db w))) then Some Sent else statuses (db_outbox (w_db w)) i)"
  by (rule ticks_work [OF assms])

theorem backlog_drains_witness:
  "\<exists>w' ms. run_state (relay_loop plain_postgres (\<lambda>_. 0) (example_cfg\<lparr>rc_batchSize := 2\<rparr>) (new_relay example_cfg) [Tick, Tick])
       relay_world = (new_relay example_cfg, w') \<and>
     w_topics w' (rc_topic example_cfg) = ms \<and> length ms = 3 \<and> statuses (db_outbox (w_db w')) 3 = Some Sent"
proof -
  let ?c = "example_cfg\<lparr>rc_batchSize := 2\<rparr>"
  have p: "pending example_table = [example_row 2 ''b'' 20, example_row 1 ''a'' 10, example_row 3 ''c'' 90]"
    by (simp add: pending_def example_table_def example_row_def)
  have "\<exists>t. marshal_time (\<lambda>_. 0) 10 = Inr t" "\<exists>t. marshal_time (\<lambda>_. 0) 20 = Inr t"
    "\<exists>t. marshal_time (\<lambda>_. 0) 90 = Inr t" "\<exists>p. marshal_raw (Some ''{}'') = Inr p"
    by (rule Inr_of, code_simp)+
  then have enc: "\<forall>r\<in>set (pending example_table). encodable (\<lambda>_. 0) (scan_Event r)"
    by (simp add: p encodable_iff scan_Event_def example_row_def)
  have work: "workable (\<lambda>_. 0) relay_world"
    using enc example_table_ok by (auto simp: workable_def p example_row_def int4_max_def) (auto simp: example_table_def example_row_def)
  have up: "all_up relay_world" by (simp add: all_up_def)
  have room: "length (pending (db_outbox (w_db relay_world))) \<le> 2 * batch_of (rc_batchSize ?c)"
    by (simp add: p batch_of_def)
  have ticks: "[Tick, Tick] = replicate 2 Tick" by (simp add: eval_nat_numeral)
  from backlog_drains [OF plain_postgres_ok new_relay_ok(2) up work room] obtain w' ms where
    "run_state (relay_loop plain_postgres (\<lambda>_. 0) ?c (new_relay example_cfg) (replicate 2 Tick)) relay_world = (new_relay example_cfg, w')"
    "w_topics w' (rc_topic example_cfg) = ms"
    "mset ms = image_mset (the_message (\<lambda>_. 0) \<circ> scan_Event) (mset (pending example_table))"
    "statuses (db_outbox (w_db w')) 3 = Some Sent" by (fastforce simp: p example_row_def)
  moreover have "length ms = 3" using arg_cong [OF calculation(3), of size] by (simp add: p)
  ultimately show ?thesis unfolding ticks by blast
qed

end
