(* ===== verification/End_To_End.thy ===== *)
theory End_To_End
  imports Event_Laws System_Steps Relay_Progress
begin

text \<open>
  From the ticket to its notification: the three services one after the other, when the
  database and Kafka answer. What one service promises is what the next relies on: the store
  leaves a row the relay can encode, the relay a message the notification service can decode,
  and each leaves the tables of the others alone.
\<close>

section \<open>Each service keeps to its own tables\<close>

interpretation relay_apart: relay_invariant pg zone topic "\<lambda>w. db_processed (w_db w) = tab" for pg zone topic tab
proof (unfold_locales, goal_cases)
  case (4 p k v t)
  from Produce_wrote [OF 4] show ?case by (intro validI) (fastforce simp: wrote_def)
qed (auto intro!: valid_outbox_call)

interpretation consumer_apart: consumer_contract pg "\<lambda>w. db_outbox (w_db w) = tab" for pg :: "'r postgres" and tab
proof (unfold_locales, goal_cases)
  case (6 p k v t)
  from Produce_wrote [OF 6] show ?case by (intro validI) (fastforce simp: wrote_def)
qed (auto intro!: valid_processed_call)

text \<open>The relay notifies nobody.\<close>

definition quiet_run :: "world \<Rightarrow> world \<Rightarrow> bool" where
  "quiet_run w w' \<longleftrightarrow> w_notified w' = w_notified w \<and> w_script w' = w_script w"

lemma publish_event_quiet: "run_state (publish_event pg zone n rl e) w = (rl', w') \<Longrightarrow> quiet_run w w'"
  by (auto simp: publish_event_def give_up_or_retry_def maybeDead_def Let_def count_published_def count_dead_def
      count_failed_def quiet_run_def split: sum.splits prod.splits option.splits if_splits dest!: met_frame)

lemma publish_all_quiet: "run_state (publish_all pg zone n rl es) w = (rl', w') \<Longrightarrow> quiet_run w w'"
proof (induction es arbitrary: rl w)
  case (Cons e es)
  obtain rl1 w1 where 1: "run_state (publish_event pg zone n rl e) w = (rl1, w1)" by fastforce
  with Cons.prems have "run_state (publish_all pg zone n rl1 es) w1 = (rl', w')" by simp
  from Cons.IH [OF this] publish_event_quiet [OF 1] show ?case by (simp add: quiet_run_def)
qed (simp add: quiet_run_def)

lemma tick_quiet: "run_state (tick pg zone c rl) w = (x, w') \<Longrightarrow> quiet_run w w'"
  by (auto simp: tick_def set_lag_def quiet_run_def split: sum.splits prod.splits dest!: publish_all_quiet)

section \<open>What the store writes the consumer can read\<close>

text \<open>
  Two facts of the Postgres documentation: a text column of a UTF-8 database holds valid
  UTF-8 only, and \<open>jsonb\<close> gives back a JSON text that it accepts again, nested no deeper
  than what was stored.
\<close>

definition utf8_text :: "'r postgres \<Rightarrow> bool" where
  "utf8_text pg \<longleftrightarrow> (\<forall>s. text_ok pg s \<longrightarrow> to_valid s = s)"

definition jsonb_faithful :: "'r postgres \<Rightarrow> bool" where
  "jsonb_faithful pg \<longleftrightarrow>
     (\<forall>s t. embeddable s \<longrightarrow> jsonb_in pg s = Some t \<longrightarrow> embeddable t \<and> jsonb_in pg (strip_json t) \<noteq> None)"

lemma ticket_payload_embeddable:
  assumes "ticket_payload zone rid t = Inr raw"
  shows "embeddable raw"
proof -
  from assms obtain s where s: "marshal_time zone (t_CreatedAt t) = Inr s" "raw = json_object
      [(''created_at'', s), (''request_id'', quote rid), (''status'', quote (t_Status t)), (''ticket_id'', quote (t_ID t)),
       (''title'', quote (t_Title t))]"
    by (auto simp: ticket_payload_def split: sum.splits)
  obtain v where v: "value_text (maxNestingDepth - 2) s v" using marshal_time_value [OF s(1)] by blast
  let ?q = "\<lambda>k u. (k, quote u, JString (to_valid u))"
  have "\<forall>(k, u, v)\<in>set ((''created_at'', s, v) # [?q ''request_id'' rid, ?q ''status'' (t_Status t),
      ?q ''ticket_id'' (t_ID t), ?q ''title'' (t_Title t)]). value_text (maxNestingDepth - 2) u v"
    using v quote_value by auto
  from json_object_embeddable [OF _ this] s(2) show ?thesis by simp
qed

text \<open>A row whose event can be claimed, encoded, decoded and recorded.\<close>

definition deliverable :: "outbox_row postgres \<Rightarrow> (time \<Rightarrow> int) \<Rightarrow> outbox_row \<Rightarrow> bool" where
  "deliverable pg zone r \<longleftrightarrow>
     encodable zone (scan_Event r) \<and> ob_attempts r < int4_max \<and> good_message pg (the_message zone (scan_Event r))"

text \<open>An event id as \<open>gen_random_uuid()\<close> gives it: in canonical form.\<close>

definition canonical_uuid :: "'r postgres \<Rightarrow> string \<Rightarrow> bool" where
  "canonical_uuid pg u \<longleftrightarrow> uuid_in pg u = Some u \<and> (\<forall>c\<in>set u. byte c < 128)"

abbreviation created_row :: "create_env \<Rightarrow> string \<Rightarrow> Ticket \<Rightarrow> int \<Rightarrow> outbox_row" where
  "created_row ce payload t k \<equiv> new_outbox_row (ce_now ce) (ce_uuid ce) k ''ticket'' (t_ID t) EventTypeTicketCreated payload"

lemma created_row_deliverable:
  assumes pg: "ascii_text_ok pg" "utf8_text pg" "jsonb_faithful pg" and uuid: "canonical_uuid pg (ce_uuid ce)"
    and ts: "marshal_time zone (ce_now ce) = Inr ts" and raw: "embeddable raw" "jsonb_in pg raw = Some payload"
    and tid: "text_ok pg (t_ID t)"
  shows "deliverable pg zone (created_row ce payload t k) \<and>
    event_of pg (the_message zone (scan_Event (created_row ce payload t k))) = Some (ce_uuid ce)"
proof -
  define m where "m = the_message zone (scan_Event (created_row ce payload t k))"
  let ?r = "created_row ce payload t k"
  let ?env = "envelope_of (scan_Event ?r)"
  have emb: "embeddable payload" "jsonb_in pg (strip_json payload) \<noteq> None"
    using pg(3) raw by (auto simp: jsonb_faithful_def)
  have env: "env_EventID ?env = ce_uuid ce" "env_EventType ?env = EventTypeTicketCreated" "env_OccurredAt ?env = ce_now ce"
    "env_Aggregate ?env = ''ticket''" "env_AggregateID ?env = t_ID t" "env_Payload ?env = Some payload"
    by (simp_all add: envelope_of_def scan_Event_def new_outbox_row_def)
  obtain b where b: "marshal_Envelope zone ?env = Inr b"
    using ts marshal_raw_embeddable [OF emb(1)] by (simp add: marshal_Envelope_def env)
  have m: "m_Value m = b" by (simp add: m_def the_message_def message_of_def b)
  have recv: "unmarshal_Envelope b = (None, received ?env (strip_json payload))"
    by (rule unmarshal_marshal [OF b]) (simp_all add: env marshal_raw_embeddable [OF emb(1)] payload_ok_def emb(1))
  have ascii: "to_valid EventTypeTicketCreated = EventTypeTicketCreated" "to_valid ''ticket'' = ''ticket''"
    "to_valid (ce_uuid ce) = ce_uuid ce"
    using uuid by (auto intro!: to_valid_ascii simp: EventTypeTicketCreated_def byte_def canonical_uuid_def)
  have texts: "text_ok pg EventTypeTicketCreated" "text_ok pg ''ticket''"
    using pg(1) by (simp_all add: ascii_text_ok_def EventTypeTicketCreated_def byte_def)
  have acc: "acceptable pg (received ?env (strip_json payload)) (ce_uuid ce)"
    using uuid texts tid pg(2) emb(2) by (auto simp: acceptable_def received_def env ascii utf8_text_def canonical_uuid_def)
  have "deliverable pg zone ?r"
    using recv acc b m by (auto simp: deliverable_def encodable_def message_of_def good_message_def m_def)
       (simp_all add: new_outbox_row_def int4_max_def)
  moreover have "event_of pg m = Some (ce_uuid ce)"
    using uuid by (simp add: event_of_def m extractEventID_def recv received_def env ascii canonical_uuid_def)
  ultimately show ?thesis by (simp add: m_def)
qed

section \<open>What a tick publishes\<close>

definition backlog :: "outbox_row list \<Rightarrow> outbox_row list" where
  "backlog tab = filter (\<lambda>r. ob_status r = Pending \<or> ob_status r = Processing) tab"

lemma ResetStuck_up:
  "snd (ResetStuck Success now d tab) = sql_update (stuck now (timeout_of d)) (reset_row now) tab"
  by (simp add: ResetStuck_def Let_def)

lemma length_due:
  "length (filter (due now') (sql_update (stuck now d) (reset_row now) tab)) \<le> length (backlog tab)"
proof -
  have "length (filter (due now') xs) \<le> length (backlog xs)" for xs
    by (induction xs) (auto simp: backlog_def due_def)
  then have "length (filter (due now') (sql_update (stuck now d) (reset_row now) tab)) \<le>
      length (backlog (sql_update (stuck now d) (reset_row now) tab))" .
  also have "\<dots> = length (backlog tab)"
    by (induction tab) (auto simp: backlog_def sql_update_def stuck_def reset_row_def)
  finally show ?thesis .
qed

lemma deliverable_reset:
  assumes "\<forall>r\<in>set tab. deliverable pg zone r"
  shows "\<forall>r\<in>set (sql_update (stuck now d) (reset_row now) tab). deliverable pg zone r"
proof -
  have "message_of zone (scan_Event (reset_row now r)) = message_of zone (scan_Event r)" for r
    by (rule message_of_columns) (simp add: reset_row_def event_columns_def)
  then have "deliverable pg zone (reset_row now r) = deliverable pg zone r" for r
    by (simp add: deliverable_def encodable_def the_message_def) (simp add: reset_row_def)
  with assms show ?thesis by (simp add: Ball_sql_update)
qed

lemma chosen_all:
  assumes "postgres_ok pg" and "length (filter (due now) tab) \<le> limit" and "\<And>i. \<not> locked i"
  shows "set (chosen pg now locked limit tab) = {r \<in> set tab. due now r}"
proof -
  have m: "mset (scan_order pg tab) = mset tab" using assms(1) by (simp add: postgres_ok_def)
  then have "size (filter_mset (due now) (mset (scan_order pg tab))) \<le> limit" using assms(2) by (simp flip: mset_filter)
  then have "length (filter (due now) (scan_order pg tab)) \<le> limit" by (simp flip: mset_filter)
  then show ?thesis using assms(3) mset_eq_setD [OF m] by (simp add: chosen_def)
qed

text \<open>With a backlog that fits the batch, a tick publishes everything that is due.\<close>

lemma tick_publishes:
  assumes pg: "postgres_ok pg" and up: "all_up w" and rl: "open_relay topic rl" and ok: "outbox_ok (db_outbox (w_db w))"
    and del: "\<forall>r\<in>set (db_outbox (w_db w)). deliverable pg zone r"
    and room: "length (backlog (db_outbox (w_db w))) \<le> batch_of (rc_batchSize c)"
    and r: "r \<in> set (db_outbox (w_db w))" "due (ev_time (w_script w (w_cursor w + 2))) r"
  obtains w' ms where "run_state (tick pg zone c rl) w = ((None, rl), w')" "w_topics w' topic = w_topics w topic @ ms"
    "\<forall>m\<in>set ms. good_message pg m" "the_message zone (scan_Event r) \<in> set ms"
    "statuses (db_outbox (w_db w')) (ob_id r) = Some Sent"
proof -
  define now where "now = ev_time (cur_event w)"
  define ev where "ev = w_script w (w_cursor w + 2)"
  define tab where "tab = sql_update (stuck now (timeout_of (rc_processingTimeout c))) (reset_row now) (db_outbox (w_db w))"
  define cs where "cs = chosen pg (ev_time ev) (ev_locked ev) (batch_of (rc_batchSize c)) tab"
  have "length (filter (due (ev_time ev)) tab) \<le> batch_of (rc_batchSize c)"
    using length_due room unfolding tab_def by (rule order_trans)
  then have cs: "set cs = {r \<in> set tab. due (ev_time ev) r}"
    unfolding cs_def using up by (intro chosen_all [OF pg]) (auto simp: all_up_def ev_def)
  have del': "\<forall>r\<in>set tab. deliverable pg zone r" unfolding tab_def by (rule deliverable_reset [OF del])
  have "\<forall>r\<in>set cs. encodable zone (scan_Event r) \<and> ob_attempts r < int4_max"
    using del' by (auto simp: cs deliverable_def)
  moreover have "healthy w" by (rule all_up_healthy [OF up])
  ultimately obtain w' ms where w': "run_state (tick pg zone c rl) w = ((None, rl), w')"
      "w_topics w' = (w_topics w)(topic := w_topics w topic @ ms)"
      "mset ms = mset (map (the_message zone \<circ> scan_Event) cs)"
      "statuses (db_outbox (w_db w')) = (\<lambda>i. if i \<in> ob_id ` set cs then Some Sent else statuses tab i)"
    using tick_healthy [OF pg _ rl ok, of c zone] unfolding cs_def tab_def ev_def now_def ResetStuck_up by blast
  have ms: "set ms = (the_message zone \<circ> scan_Event) ` set cs" using mset_eq_setD [OF w'(3)] by simp
  have "\<not> stuck now d r" for d using r(2) by (simp add: stuck_def due_def)
  then have "r \<in> set cs" using r sql_update_in [OF r(1), of "stuck now (timeout_of (rc_processingTimeout c))" "reset_row now"]
    by (simp add: cs tab_def ev_def)
  with w' ms del' show thesis
    by (intro that [of w' ms]) (auto simp: cs deliverable_def)
qed

section \<open>One ticket\<close>

text \<open>
  After a successful \<open>Create\<close>, with a database and a Kafka that answer and a backlog that
  fits a batch, one tick of the relay and one pass of the notification service over the
  messages it wrote lead to exactly one notification of the ticket's event; the outbox row is
  then sent and the event recorded as finished.
\<close>

lemma created_is_notified:
  assumes "postgres_ok pg" and "ascii_text_ok pg" and "utf8_text pg" and "jsonb_faithful pg"
    and "canonical_uuid pg (ce_uuid ce)" and "marshal_time zone (ce_now ce) = Inr ts"
    and "db_ok db" and "\<forall>r\<in>set (db_outbox db). deliverable pg zone r"
    and "length (backlog (db_outbox db)) < batch_of (rc_batchSize c)"
    and "has_room (db_processed db)" and "\<not> finished_in (ce_uuid ce) (db_processed db)"
    and "pg_Create pg ce ctx t db = (Inr out, w_db w)"
    and "all_up w" and "ce_now ce \<le> ev_time (w_script w (w_cursor w + 2))"
    and "relay_ok topic rl" and "open_relay topic rl" and "service_ok sv" and "\<not> nc_forceFail nc"
  shows "\<exists>w1 ms sv' w2. run_state (tick pg zone c rl) w = ((None, rl), w1) \<and> w_topics w1 topic = w_topics w topic @ ms \<and>
    run_state (fetch_loop (Suc n) pg nc sv (map Fetched ms)) w1 = (Some (Some sv'), w2) \<and>
    length (told pg (ce_uuid ce) w2) = Suc (length (told pg (ce_uuid ce) w)) \<and>
    finished_in (ce_uuid ce) (db_processed (w_db w2)) \<and>
    statuses (db_outbox (w_db w2)) (db_outbox_seq db + 1) = Some Sent"
proof -
  have res: "fst (pg_Create pg ce ctx t db) = Inr out" "snd (pg_Create pg ce ctx t db) = w_db w" using assms(12) by simp_all
  obtain raw payload where raw: "ticket_payload (ce_zone ce) (requestid_Get ctx) (stored_ticket pg t) = Inr raw"
    "jsonb_in pg raw = Some payload" "text_ok pg (t_ID t)" "w_db w = created pg ce payload t db"
    by (cases rule: pg_Create_cases [of pg ce ctx t db]) (use res in auto)
  define r where "r = created_row ce payload t (db_outbox_seq db + 1)"
  have r: "deliverable pg zone r" "event_of pg (the_message zone (scan_Event r)) = Some (ce_uuid ce)"
    using created_row_deliverable [OF assms(2-6) ticket_payload_embeddable [OF raw(1)] raw(2,3)] by (simp_all add: r_def)
  have tab: "db_outbox (w_db w) = db_outbox db @ [r]" "db_processed (w_db w) = db_processed db"
    by (simp_all add: raw(4) created_def r_def)
  have row: "ob_id r = db_outbox_seq db + 1" "ob_status r = Pending" "ob_next_retry_at r = ce_now ce"
    by (simp_all add: r_def new_outbox_row_def)
  have "db_ok (w_db w)" using pg_Create_db_ok [OF assms(7), of pg ce ctx t] res by simp
  then have "outbox_ok (db_outbox (w_db w))" by (simp add: db_ok_def)
  moreover have "\<forall>r\<in>set (db_outbox (w_db w)). deliverable pg zone r" using assms(8) r(1) by (auto simp: tab)
  moreover have "length (backlog (db_outbox (w_db w))) \<le> batch_of (rc_batchSize c)"
    using assms(9) by (simp add: tab backlog_def row)
  moreover have "r \<in> set (db_outbox (w_db w))" by (simp add: tab)
  moreover have "due (ev_time (w_script w (w_cursor w + 2))) r" using assms(14) by (simp add: due_def row)
  ultimately obtain w1 ms where w1: "run_state (tick pg zone c rl) w = ((None, rl), w1)"
    "w_topics w1 topic = w_topics w topic @ ms" "\<forall>m\<in>set ms. good_message pg m" "the_message zone (scan_Event r) \<in> set ms"
    "statuses (db_outbox (w_db w1)) (ob_id r) = Some Sent"
    by (rule tick_publishes [OF assms(1,13,16)])
  have quiet: "w_notified w1 = w_notified w" "w_script w1 = w_script w" using tick_quiet [OF w1(1)] by (simp_all add: quiet_run_def)
  have proc: "db_processed (w_db w1) = db_processed db"
    using validD [OF relay_apart.tick_keeps [OF assms(15)] refl w1(1)] by (simp add: tab)
  have "db_up w1" using assms(13) by (simp add: db_up_def all_up_def quiet)
  from fetch_loop_up [OF w1(3) this _ assms(2,18), of n sv] assms(10) obtain sv' w2 where
    w2: "run_state (fetch_loop (Suc n) pg nc sv (map Fetched ms)) w1 = (Some (Some sv'), w2)"
      "\<forall>u. (finished_in u (db_processed (w_db w2)) \<longleftrightarrow> finished_in u (db_processed db) \<or> Some u \<in> event_of pg ` set ms) \<and>
        length (told pg u w2) = length (told pg u w1) +
          (if Some u \<in> event_of pg ` set ms \<and> \<not> finished_in u (db_processed db) then 1 else 0)"
    unfolding proc by blast
  have "Some (ce_uuid ce) \<in> event_of pg ` set ms" using w1(4) r(2) by (metis imageI)
  moreover have "told pg u w1 = told pg u w" for u by (simp add: told_def quiet)
  moreover have "db_outbox (w_db w2) = db_outbox (w_db w1)"
    using validD [OF consumer_apart.fetch_loop_keeps [OF assms(17)] refl w2(1)] by (simp add: consumer_apart.after_loop_def)
  ultimately show ?thesis using w1 w2 assms(11) row(1) by (intro exI [of _ w1] exI [of _ ms] exI [of _ sv'] exI [of _ w2]) simp
qed

text \<open>A server with the documented behaviour, and a ticket that goes all the way through it.\<close>

definition utf8_postgres :: "outbox_row postgres" where
  "utf8_postgres = plain_postgres\<lparr>text_ok := \<lambda>s. to_valid s = s, jsonb_in := \<lambda>s. if embeddable s then Some s else None\<rparr>"

lemma utf8_postgres_laws:
  "postgres_ok utf8_postgres" "ascii_text_ok utf8_postgres" "utf8_text utf8_postgres" "jsonb_faithful utf8_postgres"
  "canonical_uuid utf8_postgres ''u1''"
  by (auto simp: utf8_postgres_def postgres_ok_def plain_postgres_def ascii_text_ok_def utf8_text_def jsonb_faithful_def
      canonical_uuid_def byte_def embeddable_strip intro!: to_valid_ascii split: if_splits)

definition example_create_env :: create_env where
  "example_create_env = example_env\<lparr>ce_now := 100\<rparr>"

lemma utf8_Create:
  assumes "t_CreatedAt t = 1000" and "t_ID t \<notin> t_ID ` set (db_tickets db)" and "''u1'' \<notin> ob_event_id ` set (db_outbox db)"
    and "\<forall>s\<in>{t_ID t, t_Title t, t_Description t, t_Status t}. \<forall>b\<in>set s. byte b < 128"
  obtains payload where "pg_Create utf8_postgres example_create_env ctx t db =
    (Inr (stored_ticket utf8_postgres t), created utf8_postgres example_create_env payload t db)"
proof -
  have "case marshal_time (\<lambda>_. 0) (timestamptz (plain_postgres :: outbox_row postgres) 1000) of Inr _ \<Rightarrow> True | Inl _ \<Rightarrow> False"
    by code_simp
  then obtain s where "marshal_time (\<lambda>_. 0) (t_CreatedAt (stored_ticket utf8_postgres t)) = Inr s"
    using assms(1) by (auto simp: stored_ticket_def utf8_postgres_def split: sum.splits)
  then obtain raw where raw: "ticket_payload (\<lambda>_. 0) (requestid_Get ctx) (stored_ticket utf8_postgres t) = Inr raw"
    by (simp add: ticket_payload_def)
  have "to_valid (t_ID t) = t_ID t" "to_valid (t_Title t) = t_Title t" "to_valid (t_Description t) = t_Description t"
    "to_valid (t_Status t) = t_Status t" using assms(4) by (simp_all add: to_valid_ascii)
  then have "pg_Create utf8_postgres example_create_env ctx t db =
    (Inr (stored_ticket utf8_postgres t), created utf8_postgres example_create_env raw t db)"
    using raw ticket_payload_embeddable [OF raw] assms(2,3)
    by (intro pg_Create_up [where raw = raw]) (simp_all add: example_create_env_def example_env_def utf8_postgres_def)
  then show thesis by (rule that)
qed

end
