(* ===== verification/Services.thy ===== *)
theory Services
  imports Httpx End_To_End
begin

text \<open>
  The ticket service as a part of the whole: a request that goes through the router makes
  steps of one transaction of theory \<open>Transactions\<close> and no others, so every history of
  requests, relay runs and consumer runs keeps the system's invariant; and a ticket that was
  posted is notified exactly once.
\<close>

section \<open>What a request does to the store\<close>

text \<open>
  The requests that reach the store, with what they ask for: a POST on the route of the
  tickets whose body is one JSON value that decodes and passes validation.
\<close>

definition accepted_body :: "Request \<Rightarrow> CreateTicketRequest option" where
  "accepted_body r =
     (case Decode_first (r_Body r) of
        Inl _ \<Rightarrow> None
      | Inr (req, rest) \<Rightarrow> if Decode_second_EOF (r_Body r) rest \<and> Validate req = None then Some req else None)"

definition posted :: "Request \<Rightarrow> CreateTicketRequest option" where
  "posted r =
     (if r_RequestURI r \<noteq> ''*'' \<and> cleanPath (r_EscapedPath r) = r_EscapedPath r \<and>
         mux_match (r_EscapedPath r) = Some PTickets \<and> r_Method r = ''POST''
      then accepted_body r else None)"

lemma CreateTicket_store:
  "snd (CreateTicket create zone uuid now1 now2 r s) =
     (case if r_Method r = ''POST'' then accepted_body r else None of
        None \<Rightarrow> s
      | Some req \<Rightarrow> snd (create (r_Context r) (new_ticket uuid now1 now2 req) s))"
  by (auto simp: accepted_body_def CreateTicket_def new_ticket_def Let_def split: sum.splits option.splits prod.splits)

text \<open>The request as the handlers below the middlewares see it.\<close>

definition with_holder :: "Request \<Rightarrow> Request" where
  "with_holder r = r\<lparr>r_Context := (r_Context r)\<lparr>ctx_route_holder := True\<rparr>\<rparr>"

lemma with_holder_same: "ctx_route_holder (r_Context r) \<Longrightarrow> with_holder r = r"
  by (simp add: with_holder_def)

lemma mux_handler_store:
  "h_store (snd (mux_handler e pat r h)) =
     (if pat = Some PTickets
      then snd (CreateTicket (re_create e) (re_zone e) (re_uuid e) (re_now1 e) (re_now2 e) (with_holder r) (h_store h))
      else h_store h)"
proof (cases pat)
  case (Some p)
  show ?thesis
    by (cases p; cases "ctx_route_holder (r_Context r)")
       (simp_all add: Some mux_handler_def handler_defs with_holder_same Let_def case_prod_unfold split: option.split,
        simp_all add: with_holder_def)
qed (simp add: mux_handler_def)

text \<open>The store after a request, exactly: one call of \<open>Create\<close> for an accepted request, otherwise nothing.\<close>

lemma NewRouter_store:
  "h_store (snd (NewRouter e r h)) =
     (case posted r of
        None \<Rightarrow> h_store h
      | Some req \<Rightarrow> snd (re_create e (r_Context (seen_request e r)) (new_ticket (re_uuid e) (re_now1 e) (re_now2 e) req) (h_store h)))"
proof (rule NewRouter_run [of r e h])
  fix rq resp h1
  let ?h = "if r_Path r = ''/metrics'' then h else h\<lparr>h_route := r_Path r\<rparr>"
  assume rq: "rq = (if r_Path r = ''/metrics'' then r\<lparr>r_Context := requestid_With (r_Context r) (request_id (re_rand e) r)\<rparr>
       else r\<lparr>r_Context := (requestid_With (r_Context r) (request_id (re_rand e) r))\<lparr>ctx_route_holder := True\<rparr>\<rparr>)"
    and m: "mux e rq ?h = (resp, h1)" and store: "h_store (snd (NewRouter e r h)) = h_store h1"
  have same: "h_store ?h = h_store h" by simp
  have seen: "with_holder rq = seen_request e r" by (simp add: rq with_holder_def seen_request_def)
  have cols: "r_RequestURI rq = r_RequestURI r" "r_EscapedPath rq = r_EscapedPath r" "r_Method rq = r_Method r"
    "r_Method (seen_request e r) = r_Method r" "accepted_body (seen_request e r) = accepted_body r"
    by (simp_all add: rq seen_request_def accepted_body_def cong: sum.case_cong)
  show ?thesis
  proof (cases "r_RequestURI rq = ''*'' \<or> r_Method rq \<noteq> ''CONNECT'' \<and> cleanPath (r_EscapedPath rq) \<noteq> r_EscapedPath rq")
    case True
    then have "h1 = ?h" using m by (auto simp: mux_def split: if_splits)
    moreover have "posted r = None" using True by (auto simp: posted_def cols)
    ultimately show ?thesis using store same by simp
  next
    case False
    then have "h1 = snd (mux_handler e (mux_match (r_EscapedPath rq)) rq ?h)" using m by (auto simp: mux_def split: if_splits)
    then show ?thesis
      using False unfolding store by (auto simp: mux_handler_store same seen CreateTicket_store cols posted_def)
  qed
qed

lemma new_ticket_ID [simp]: "t_ID (new_ticket uuid now1 now2 req) = uuid"
  by (simp add: new_ticket_def)

lemma request_steps:
  assumes "re_create e = pg_Create pg ce" and "txs k = None" "re_uuid e \<notin> open_ids txs" "ce_uuid ce \<notin> open_uuids txs"
  shows "create_steps pg k (h_store h, txs) (h_store (snd (NewRouter e r h)), txs)"
proof (cases "posted r")
  case (Some req)
  then show ?thesis using pg_Create_steps [OF assms(2) _ assms(4)] assms(3) by (simp add: NewRouter_store assms(1))
qed (simp add: NewRouter_store)

section \<open>Histories of the three services\<close>

text \<open>
  What can happen to the world: a request to a ticket service, a stretch of a relay's loop, a
  stretch of a consumer's loop, and any change of what the outside is going to answer.
\<close>

inductive history :: "outbox_row postgres \<Rightarrow> (time \<Rightarrow> int) \<Rightarrow> string \<Rightarrow> world \<Rightarrow> world \<Rightarrow> bool" for pg zone topic where
  begin_at: "history pg zone topic w w"
| request: "history pg zone topic w0 w \<Longrightarrow> re_create e = pg_Create pg ce \<Longrightarrow> h_store h = w_db w \<Longrightarrow>
    NewRouter e r h = (resp, h') \<Longrightarrow> history pg zone topic w0 (w\<lparr>w_db := h_store h'\<rparr>)"
| relaying: "history pg zone topic w0 w \<Longrightarrow> relay_ok topic rl \<Longrightarrow>
    run_state (relay_loop pg zone c rl cs) w = (rl', w') \<Longrightarrow> history pg zone topic w0 w'"
| consuming: "history pg zone topic w0 w \<Longrightarrow> service_ok sv \<Longrightarrow>
    run_state (fetch_loop fuel pg nc sv ps) w = (res, w') \<Longrightarrow> history pg zone topic w0 w'"
| outside: "history pg zone topic w0 w \<Longrightarrow> history pg zone topic w0 (w\<lparr>w_script := script, w_cursor := n\<rparr>)"

text \<open>Every history is followed by the steps of the system; between two requests no transaction is open.\<close>

lemma history_steps:
  assumes "history pg zone topic w0 w" and "sys_db s0 = w_db w0" "sys_topic s0 = w_topics w0 topic" "sys_tx s0 = Map.empty"
  shows "\<exists>s. sys_steps pg zone s0 s \<and> sys_db s = w_db w \<and> sys_topic s = w_topics w topic \<and> sys_tx s = Map.empty"
  using assms
proof (induction rule: history.induct)
  case (request w0 w e ce h r resp h')
  then obtain s where s: "sys_steps pg zone s0 s" "sys_db s = w_db w" "sys_topic s = w_topics w topic" "sys_tx s = Map.empty" by blast
  have "create_steps pg 0 (sys_db s, sys_tx s) (h_store h', Map.empty)"
    using request_steps [OF request.hyps(2), of Map.empty 0 h r] request.hyps(3,4) s by (simp add: open_ids_def open_uuids_def)
  from creating_steps [OF this] s show ?case
    by (intro exI [of _ "s\<lparr>sys_db := h_store h', sys_tx := Map.empty\<rparr>"]) (auto intro: rtranclp_trans)
next
  case (relaying w0 w rl c cs rl' w')
  then obtain s where s: "sys_steps pg zone s0 s" "sys_db s = w_db w" "sys_topic s = w_topics w topic" "sys_tx s = Map.empty" by blast
  from relay_loop_steps [OF relaying.hyps(2) s(2,3) relaying.hyps(3)] s(1,4) show ?case by (metis (no_types, lifting) rtranclp_trans)
next
  case (consuming w0 w sv fuel nc ps res w')
  then obtain s where s: "sys_steps pg zone s0 s" "sys_db s = w_db w" "sys_topic s = w_topics w topic" "sys_tx s = Map.empty" by blast
  from fetch_loop_steps [OF consuming.hyps(2) s(2,3) consuming.hyps(3)] s(1,4) show ?case by (metis (no_types, lifting) rtranclp_trans)
qed auto

text \<open>When one request is handled after the other, the events are in the order of the tickets.\<close>

definition in_order :: "pgdb \<Rightarrow> bool" where
  "in_order db \<longleftrightarrow> map ob_aggregate_id (db_outbox db) = map t_ID (db_tickets db)"

lemma pg_Create_in_order: "in_order db \<Longrightarrow> in_order (snd (pg_Create pg ce ctx t db))"
  by (cases rule: pg_Create_cases [of pg ce ctx t db]) (auto simp: in_order_def use_seq_def created_def new_outbox_row_def)

lemma in_order_columns: "in_order db \<Longrightarrow> same_events (db_outbox db) tab \<Longrightarrow> in_order (db\<lparr>db_outbox := tab\<rparr>)"
  by (simp add: in_order_def same_events_aggregate)

interpretation relay_orders: relay_invariant pg zone topic "\<lambda>w. in_order (w_db w)" for pg zone topic
proof (unfold_locales, goal_cases)
  case (4 p k v t)
  from Produce_wrote [OF 4] show ?case by (intro validI) (fastforce simp: wrote_def)
qed (auto intro!: valid_outbox_call in_order_columns
       simp: ResetStuck_keeps ClaimPending_keeps MarkSent_keeps MarkFailed_keeps MarkDead_keeps)

interpretation consumer_orders: consumer_contract pg "\<lambda>w. in_order (w_db w)" for pg :: "'r postgres"
proof (unfold_locales, goal_cases)
  case (6 p k v t)
  from Produce_wrote [OF 6] show ?case by (intro validI) (fastforce simp: wrote_def)
qed (auto intro!: valid_processed_call simp: in_order_def)

lemma history_in_order: "history pg zone topic w0 w \<Longrightarrow> in_order (w_db w0) \<Longrightarrow> in_order (w_db w)"
proof (induction rule: history.induct)
  case (request w0 w e ce h r resp h')
  then show ?case using NewRouter_store [of e r h] by (auto simp: pg_Create_in_order split: option.splits)
next
  case (relaying w0 w rl c cs rl' w')
  then show ?case using validD [OF relay_orders.relay_loop_keeps [OF relaying.hyps(2)]] by blast
next
  case (consuming w0 w sv fuel nc ps res w')
  then show ?case using validD [OF consumer_orders.fetch_loop_keeps [OF consuming.hyps(2)] _ consuming.hyps(3)]
    by (simp add: consumer_orders.after_loop_def)
qed simp_all

section \<open>An example\<close>

text \<open>A ticket service over the example database, and a request that creates a ticket.\<close>

definition example_service :: "pgdb req_env" where
  "example_service = example_req_env\<lparr>re_create := pg_Create utf8_postgres example_create_env\<rparr>"

lemma example_service_create: "re_create example_service = pg_Create utf8_postgres example_create_env"
  by (simp add: example_service_def)

lemma example_posted:
  obtains resp h' where "NewRouter example_service (example_request ''POST'' example_body) (new_http empty_db) = (resp, h')"
    "rs_Status resp = 201"
proof -
  let ?e = "example_service" and ?r = "example_request ''POST'' example_body" and ?h = "new_http empty_db"
  let ?ctx = "\<lparr>ctx_request_id = Some ''00000000000000000000000000000000'', ctx_route_holder = True\<rparr>"
  let ?t = "new_ticket ''t1'' 1000 1000 \<lparr>req_Title = ''abc'', req_Description = []\<rparr>"
  have title: "TrimSpace ''abc'' = ''abc''" by (rule TrimSpace_fixed; code_simp)
  obtain payload where create: "pg_Create utf8_postgres example_create_env ?ctx ?t empty_db =
      (Inr (stored_ticket utf8_postgres ?t), created utf8_postgres example_create_env payload ?t empty_db)"
    by (rule utf8_Create [of ?t empty_db ?ctx]) (auto simp: new_ticket_def empty_db_def byte_def title)
  have seen: "seen_request ?e ?r = ?r\<lparr>r_Context := ?ctx\<rparr>"
    by (simp add: seen_request_def example_request_def request_id_def newRequestID_def requestid_With_def example_req_env_def
        example_service_def)
  have "Decode_second_EOF example_body []" by (simp add: Decode_second_EOF_def example_limit skip_ws_def)
  then have c: "CreateTicket (re_create ?e) (re_zone ?e) (re_uuid ?e) (re_now1 ?e) (re_now2 ?e) (seen_request ?e ?r) (h_store ?h)
      = (writeJSON (\<lambda>_. 0) 201 (stored_ticket utf8_postgres ?t), created utf8_postgres example_create_env payload ?t empty_db)"
    unfolding seen using create
    by (simp add: CreateTicket_def example_request_def example_body_decoded new_ticket_def example_req_env_def new_http_def
        example_service_def Let_def)
  have "for_path ''/tickets'' ?r" by (simp add: for_path_def example_request_def)
  from NewRouter_tickets(1) [OF this c] show thesis by (intro that [OF prod.collapse [symmetric]]) (simp add: stamped_def)
qed

section \<open>Properties\<close>

text \<open>
  C10. A request and its transaction: with any other transactions open, as long as none of them
  holds the new keys, a request makes steps of its own transaction only, which is closed when
  it is answered; nothing else of the system moves. It makes none unless it is a POST on the
  route of the tickets with one valid JSON body that passes validation, and then the database
  has, besides what it had, at most a used number of the sequence, or the ticket asked for
  together with its event.
\<close>

theorem request_simulated:
  assumes "re_create e = pg_Create pg ce" and "h_store h = sys_db s" and "sys_tx s k = None"
    and "re_uuid e \<notin> open_ids (sys_tx s)" and "ce_uuid ce \<notin> open_uuids (sys_tx s)" and "NewRouter e r h = (resp, h')"
  shows "create_steps pg k (sys_db s, sys_tx s) (h_store h', sys_tx s) \<and> sys_steps pg zone s (s\<lparr>sys_db := h_store h'\<rparr>) \<and>
    (case posted r of
       None \<Rightarrow> h_store h' = sys_db s
     | Some req \<Rightarrow> h_store h' \<in> {sys_db s, use_seq (sys_db s)} \<or>
         (\<exists>payload. h_store h' = created pg ce payload (new_ticket (re_uuid e) (re_now1 e) (re_now2 e) req) (sys_db s)))"
proof -
  have h': "h_store h' = h_store (snd (NewRouter e r h))" by (simp add: assms(6))
  have steps: "create_steps pg k (sys_db s, sys_tx s) (h_store h', sys_tx s)"
    using request_steps [OF assms(1,3-5), of h r] by (simp add: h' assms(2))
  have "h_store h' \<in> {sys_db s, use_seq (sys_db s)} \<or>
      (\<exists>payload. h_store h' = created pg ce payload (new_ticket (re_uuid e) (re_now1 e) (re_now2 e) req) (sys_db s))"
    if "posted r = Some req" for req
    unfolding h' NewRouter_store that assms(1,2) option.case
    by (cases rule: pg_Create_cases [of pg ce "r_Context (seen_request e r)" "new_ticket (re_uuid e) (re_now1 e) (re_now2 e) req" "sys_db s"]) auto
  moreover have "h_store h' = sys_db s" if "posted r = None" using that by (simp add: h' NewRouter_store assms(2))
  ultimately show ?thesis using steps creating_steps [OF steps] by (simp split: option.split)
qed

text \<open>The example request is made while another transaction is open.\<close>

theorem request_simulated_witness:
  "\<exists>x. t_ID (tx_ticket x) = ''t9'' \<and> (\<exists>resp h'. NewRouter example_service (example_request ''POST'' example_body) (new_http empty_db) = (resp, h') \<and>
     rs_Status resp = 201 \<and> create_steps utf8_postgres 0 (empty_db, [1 \<mapsto> x]) (h_store h', [1 \<mapsto> x]))"
proof -
  let ?x = "\<lparr>tx_ticket = named_ticket ''t9'', tx_event = None\<rparr>"
  let ?s = "empty_system\<lparr>sys_tx := [1 \<mapsto> ?x]\<rparr>"
  obtain resp h' where post: "NewRouter example_service (example_request ''POST'' example_body) (new_http empty_db) = (resp, h')"
    "rs_Status resp = 201" by (rule example_posted)
  have "h_store (new_http empty_db) = sys_db ?s" "sys_tx ?s 0 = None" "re_uuid example_service \<notin> open_ids (sys_tx ?s)"
    "ce_uuid example_create_env \<notin> open_uuids (sys_tx ?s)"
    by (auto simp: new_http_def empty_system_def open_ids_def open_uuids_def example_service_def example_req_env_def)
  from request_simulated [OF example_service_create this post(1)] post show ?thesis
    by (intro exI [of _ ?x] exI [of _ resp] exI [of _ h']) (simp add: empty_system_def)
qed

text \<open>
  C1. The services together are safe: after any history of requests, relay runs and consumer
  runs, one after the other and under any failures of the database and of Kafka, the tables
  keep their constraints, the outbox holds exactly one event for every ticket, in the order of
  creation, and every event marked sent is in the topic.
\<close>

theorem services_safe:
  assumes "postgres_ok pg" and "history pg zone topic w0 w" and "w_db w0 = empty_db" and "w_topics w0 topic = []"
  shows "db_ok (w_db w) \<and> announced zone (w_topics w topic) (db_outbox (w_db w)) \<and>
    map ob_aggregate_id (db_outbox (w_db w)) = map t_ID (db_tickets (w_db w))"
proof -
  have "sys_db empty_system = w_db w0" "sys_topic empty_system = w_topics w0 topic" "sys_tx empty_system = Map.empty"
    using assms(3,4) by (simp_all add: empty_system_def)
  from history_steps [OF assms(2) this] obtain s where
    s: "sys_steps pg zone empty_system s" "sys_db s = w_db w" "sys_topic s = w_topics w topic" by blast
  have "in_order (w_db w0)" by (simp add: assms(3) in_order_def empty_db_def)
  from history_in_order [OF assms(2) this] sys_steps_inv [OF s(1) assms(1) sys_inv_empty] show ?thesis
    by (simp add: sys_inv_def in_order_def s)
qed

theorem services_safe_witness:
  "\<exists>h'. rs_Status (fst (NewRouter example_service (example_request ''POST'' example_body) (new_http empty_db))) = 201 \<and>
     h' = snd (NewRouter example_service (example_request ''POST'' example_body) (new_http empty_db)) \<and> db_ok (h_store h') \<and>
     map ob_aggregate_id (db_outbox (h_store h')) = map t_ID (db_tickets (h_store h'))"
proof -
  obtain resp h' where post: "NewRouter example_service (example_request ''POST'' example_body) (new_http empty_db) = (resp, h')"
    "rs_Status resp = 201" by (rule example_posted)
  define w0 where "w0 = relay_world\<lparr>w_db := empty_db\<rparr>"
  have h: "h_store (new_http empty_db) = w_db w0" by (simp add: new_http_def w0_def)
  have "history utf8_postgres (\<lambda>_. 0) ''tickets.events'' w0 (w0\<lparr>w_db := h_store h'\<rparr>)"
    by (rule history.request [OF history.begin_at example_service_create h post(1)])
  from services_safe [OF utf8_postgres_laws(1) this] post show ?thesis
    by (simp add: w0_def relay_world_def)
qed

text \<open>
  C2. A posted ticket is announced, end to end: when \<open>POST /tickets\<close> was answered with 201,
  one tick of the relay and one pass of the notification service over the messages it wrote
  lead to exactly one notification of the ticket's event; the outbox row is then sent and the
  event recorded as finished. This is for a system that works: the database and Kafka answer
  every call, no row is locked and no write is repeated; fewer rows were pending or in
  processing than one batch takes; each row of the outbox can be claimed, encoded and decoded,
  and the creation time of the new one can be encoded; the
  consumer's table has room for another attempt of every event, it has not finished this one,
  and \<open>NOTIFY_FORCE_FAIL\<close> is off; the relay's clock is not behind the row; the database stores
  valid UTF-8 and faithful JSON and generates canonical UUIDs.
\<close>

theorem posted_ticket_is_notified:
  assumes "postgres_ok pg" and "ascii_text_ok pg" and "utf8_text pg" and "jsonb_faithful pg"
    and "canonical_uuid pg (ce_uuid ce)" and "marshal_time zone (ce_now ce) = Inr ts"
    and "db_ok (h_store h)" and "\<forall>r\<in>set (db_outbox (h_store h)). deliverable pg zone r"
    and "length (backlog (db_outbox (h_store h))) < batch_of (rc_batchSize c)"
    and "has_room (db_processed (h_store h))" and "\<not> finished_in (ce_uuid ce) (db_processed (h_store h))"
    and "re_create e = pg_Create pg ce" and "for_path ''/tickets'' r" and "NewRouter e r h = (resp, h')" and "rs_Status resp = 201"
    and "w_db w = h_store h'" and "all_up w" and "ce_now ce \<le> ev_time (w_script w (w_cursor w + 2))"
    and "relay_ok topic rl" and "open_relay topic rl" and "service_ok sv" and "\<not> nc_forceFail nc"
  shows "\<exists>w1 ms sv' w2. run_state (tick pg zone c rl) w = ((None, rl), w1) \<and> w_topics w1 topic = w_topics w topic @ ms \<and>
    run_state (fetch_loop (Suc n) pg nc sv (map Fetched ms)) w1 = (Some (Some sv'), w2) \<and>
    length (told pg (ce_uuid ce) w2) = Suc (length (told pg (ce_uuid ce) w)) \<and>
    finished_in (ce_uuid ce) (db_processed (w_db w2)) \<and>
    statuses (db_outbox (w_db w2)) (db_outbox_seq (h_store h) + 1) = Some Sent"
proof -
  obtain resp1 s where c: "CreateTicket (pg_Create pg ce) (re_zone e) (re_uuid e) (re_now1 e) (re_now2 e) (seen_request e r)
      (h_store h) = (resp1, s)" by (rule prod.exhaust)
  note post = NewRouter_tickets [OF assms(13), of e h, unfolded assms(12), OF c]
  have 201: "rs_Status resp1 = 201" and s: "h_store h' = s" using post assms(14,15) by (simp_all add: stamped_def)
  obtain t out where "pg_Create pg ce (r_Context (seen_request e r)) t (h_store h) = (Inr out, s)"
    by (rule CreateTicket_cases [of "pg_Create pg ce" "re_zone e" "re_uuid e" "re_now1 e" "re_now2 e" "seen_request e r" "h_store h"])
       (use c 201 in \<open>auto simp: WriteErrorR_Status\<close>)
  then have "pg_Create pg ce (r_Context (seen_request e r)) t (h_store h) = (Inr out, w_db w)" using s assms(16) by simp
  from created_is_notified [OF assms(1-11) this assms(17-22)] show ?thesis .
qed

theorem posted_ticket_is_notified_witness:
  "\<exists>w w1 w2 ms sv'. w_db w = h_store (snd (NewRouter example_service (example_request ''POST'' example_body) (new_http empty_db))) \<and>
     run_state (tick utf8_postgres (\<lambda>_. 0) example_cfg (new_relay example_cfg)) w = ((None, new_relay example_cfg), w1) \<and>
     run_state (fetch_loop 1 utf8_postgres example_notify_cfg (new_service example_notify_cfg) (map Fetched ms)) w1 =
       (Some (Some sv'), w2) \<and>
     told utf8_postgres ''u1'' w = [] \<and> length (told utf8_postgres ''u1'' w2) = 1"
proof -
  obtain resp h' where post: "NewRouter example_service (example_request ''POST'' example_body) (new_http empty_db) = (resp, h')"
    "rs_Status resp = 201" by (rule example_posted)
  define w where "w = relay_world\<lparr>w_db := h_store h'\<rparr>"
  have "case marshal_time (\<lambda>_. 0) 100 of Inr _ \<Rightarrow> True | Inl _ \<Rightarrow> False" by code_simp
  then obtain ts where ts: "marshal_time (\<lambda>_. 0) (ce_now example_create_env) = Inr ts"
    by (auto simp: example_create_env_def split: sum.splits)
  have uuid: "ce_uuid example_create_env = ''u1''" by (simp add: example_create_env_def example_env_def)
  have batch: "batch_of (rc_batchSize example_cfg) = 50" by code_simp
  have free: "\<not> nc_forceFail example_notify_cfg" by code_simp
  let ?db = "h_store (new_http empty_db)"
  have db: "?db = empty_db" by (simp add: new_http_def)
  have empty: "db_ok ?db" "\<forall>r\<in>set (db_outbox ?db). deliverable utf8_postgres (\<lambda>_. 0) r"
    "length (backlog (db_outbox ?db)) < batch_of (rc_batchSize example_cfg)"
    "has_room (db_processed ?db)" "\<not> finished_in ''u1'' (db_processed ?db)"
    unfolding db by (rule db_ok_empty)
      (simp_all add: empty_db_def backlog_def batch has_room_def finished_in_def attempts_of_def row_of_def int4_max_def)
  have path: "for_path ''/tickets'' (example_request ''POST'' example_body)" by (simp add: for_path_def example_request_def)
  have w: "w_db w = h_store h'" "all_up w" "ce_now example_create_env \<le> ev_time (w_script w (w_cursor w + 2))"
    by (simp_all add: w_def all_up_def example_create_env_def)
  have none: "told utf8_postgres ''u1'' w = []" by (simp add: told_def w_def relay_world_def)
  from posted_ticket_is_notified [OF utf8_postgres_laws(1-4) _ ts empty(1-4) _ example_service_create path post w
      new_relay_ok [of example_cfg] new_service_ok [of example_notify_cfg] free, of 0] empty(5) utf8_postgres_laws(5)
  obtain w1 ms sv' w2 where "run_state (tick utf8_postgres (\<lambda>_. 0) example_cfg (new_relay example_cfg)) w =
       ((None, new_relay example_cfg), w1)"
    "run_state (fetch_loop (Suc 0) utf8_postgres example_notify_cfg (new_service example_notify_cfg) (map Fetched ms)) w1 =
       (Some (Some sv'), w2)" "length (told utf8_postgres ''u1'' w2) = Suc (length (told utf8_postgres ''u1'' w))"
    unfolding uuid by blast
  with none w(1) post(1) show ?thesis
    by (intro exI [of _ w] exI [of _ w1] exI [of _ w2] exI [of _ ms] exI [of _ sv']) simp
qed

end
