(* ===== verification/Outbox_Spec.thy ===== *)
theory Outbox_Spec
  imports Outbox_Store
begin

text \<open>
  What the outbox store promises, stated without its table and its SQL: a queue of items with
  leases. The calls of theory \<open>Outbox_Store\<close> are shown to be the operations of this queue,
  answers included; a call that reports an error has left the queue alone, or has done its work
  and lost the answer.
\<close>

section \<open>The queue\<close>

text \<open>
  An item: its state, the time from which it may be handed out, the start of its lease, how
  often it was handed out, and its age.
\<close>

record item =
  it_status :: outbox_status
  it_ready :: time
  it_since :: "time option"
  it_attempts :: int
  it_born :: time

type_synonym queue = "int \<rightharpoonup> item"

definition lease :: "duration \<Rightarrow> duration" where
  "lease d = (if d \<le> 0 then 30 * Second else (d + 500) div 1000 * 1000)"

definition expired :: "time \<Rightarrow> duration \<Rightarrow> item \<Rightarrow> bool" where
  "expired now d it \<longleftrightarrow> it_status it = Processing \<and> (\<exists>t. it_since it = Some t \<and> t + lease d < now)"

definition available :: "time \<Rightarrow> (int \<Rightarrow> bool) \<Rightarrow> queue \<Rightarrow> int set" where
  "available now locked q =
     {i. \<not> locked i \<and> (\<exists>it. q i = Some it \<and> it_status it = Pending \<and> it_ready it \<le> now)}"

definition born :: "queue \<Rightarrow> int \<Rightarrow> time" where
  "born q i = it_born (the (q i))"

text \<open>One operation with its answer: how many leases ended, which items were handed out.\<close>

datatype answer = Released int | Handed "int set" | Accepted

inductive queue_step :: "(time \<Rightarrow> time) \<Rightarrow> time \<Rightarrow> store_call \<Rightarrow> queue \<Rightarrow> answer \<Rightarrow> queue \<Rightarrow> bool"
  for stored now where
  release: "n = int (card {i. \<exists>it. q i = Some it \<and> expired now d it}) \<Longrightarrow>
    queue_step stored now (CallReset d) q (Released n)
      (\<lambda>i. map_option (\<lambda>it. if expired now d it then it\<lparr>it_status := Pending, it_ready := now, it_since := None\<rparr> else it) (q i))"
| hand_out: "limit = (if n \<le> 0 then 50 else nat n) \<Longrightarrow> S \<subseteq> available now locked q \<Longrightarrow> finite S \<Longrightarrow> card S \<le> limit \<Longrightarrow>
    S = available now locked q \<or> card S = limit \<Longrightarrow>
    \<forall>i\<in>S. \<forall>j\<in>available now locked q - S. born q i \<le> born q j \<Longrightarrow>
    queue_step stored now (CallClaim locked n) q (Handed S)
      (\<lambda>i. map_option (\<lambda>it. if i \<in> S then it\<lparr>it_status := Processing, it_since := Some now, it_attempts := it_attempts it + 1\<rparr>
         else it) (q i))"
| deliver: "queue_step stored now (CallSent i) q Accepted
    (\<lambda>j. map_option (\<lambda>it. if j = i then it\<lparr>it_status := Sent, it_since := None\<rparr> else it) (q j))"
| retry: "queue_step stored now (CallFailed i t msg) q Accepted
    (\<lambda>j. map_option (\<lambda>it. if j = i then it\<lparr>it_status := Pending, it_since := None, it_ready := stored t\<rparr> else it) (q j))"
| bury: "queue_step stored now (CallDead i msg) q Accepted
    (\<lambda>j. map_option (\<lambda>it. if j = i then it\<lparr>it_status := Failed, it_since := None\<rparr> else it) (q j))"

inductive_cases queue_stepE [elim]:
  "queue_step stored now (CallReset d) q a q'" "queue_step stored now (CallClaim locked n) q a q'"
  "queue_step stored now (CallSent i) q a q'"

section \<open>The table as a queue\<close>

definition item_of :: "outbox_row \<Rightarrow> item" where
  "item_of r = \<lparr>it_status = ob_status r, it_ready = ob_next_retry_at r, it_since = ob_processing_started_at r,
     it_attempts = ob_attempts r, it_born = ob_created_at r\<rparr>"

definition queue_of :: "outbox_row list \<Rightarrow> queue" where
  "queue_of tab = map_of (map (\<lambda>r. (ob_id r, item_of r)) tab)"

fun call_answer :: "outbox_row postgres \<Rightarrow> outcome \<times> time \<times> store_call \<Rightarrow> outbox_row list \<Rightarrow> go_error + answer" where
  "call_answer pg (oc, now, CallReset d) tab = map_sum id Released (fst (ResetStuck oc now d tab))"
| "call_answer pg (oc, now, CallClaim locked n) tab =
     map_sum id (\<lambda>es. Handed (ID ` set es)) (fst (ClaimPending pg oc now locked n tab))"
| "call_answer pg (oc, now, CallSent oid) tab = map_sum id (\<lambda>_. Accepted) (fst (MarkSent oc now oid tab))"
| "call_answer pg (oc, now, CallFailed oid t err) tab = map_sum id (\<lambda>_. Accepted) (fst (MarkFailed pg oc now oid t err tab))"
| "call_answer pg (oc, now, CallDead oid err) tab = map_sum id (\<lambda>_. Accepted) (fst (MarkDead pg oc now oid err tab))"

lemma queue_of_Some: "outbox_ok tab \<Longrightarrow> queue_of tab i = Some it \<longleftrightarrow> (\<exists>r\<in>set tab. ob_id r = i \<and> item_of r = it)"
  unfolding queue_of_def outbox_ok_def by (subst map_of_eq_Some_iff) (auto simp: comp_def)

lemma queue_of_row: "outbox_ok tab \<Longrightarrow> r \<in> set tab \<Longrightarrow> queue_of tab (ob_id r) = Some (item_of r)"
  by (auto simp: queue_of_Some)

text \<open>An update of the table is one of the queue.\<close>

lemma queue_of_update:
  assumes "\<And>r. ob_id (upd r) = ob_id r" and "\<And>r. item_of (upd r) = f (item_of r)"
    and "\<And>r. r \<in> set tab \<Longrightarrow> c r \<longleftrightarrow> P (ob_id r) (item_of r)"
  shows "queue_of (sql_update c upd tab) = (\<lambda>i. map_option (\<lambda>it. if P i it then f it else it) (queue_of tab i))"
  using assms(3) by (induction tab) (auto simp: queue_of_def sql_update_def assms(1,2))

lemma exec_result:
  assumes "exec oc tab stmt = (res, tab')"
  obtains (reported) r where "res = Inr r" "stmt = Inr (r, tab')"
    | (unchanged) e where "res = Inl e" "tab' = tab"
    | (lost) e r where "res = Inl e" "oc = Lost e" "stmt = Inr (r, tab')"
  using assms by (cases "(oc, tab, stmt)" rule: exec.cases) auto

text \<open>What has to be shown of a statement so that the call is an operation of the queue.\<close>

definition implements :: "(time \<Rightarrow> time) \<Rightarrow> outcome \<Rightarrow> time \<Rightarrow> store_call \<Rightarrow> queue \<Rightarrow> go_error + answer \<Rightarrow> queue \<Rightarrow> bool" where
  "implements stored oc now call q res q' \<longleftrightarrow>
     (case res of
        Inr a \<Rightarrow> queue_step stored now call q a q'
      | Inl e \<Rightarrow> q' = q \<or> oc = Lost e \<and> (\<exists>a. queue_step stored now call q a q'))"

lemma implementsI:
  assumes "\<And>r tab'. stmt = Inr (r, tab') \<Longrightarrow> queue_step stored now call (queue_of tab) (g r) (queue_of tab')"
  shows "implements stored oc now call (queue_of tab) (map_sum id g (fst (exec oc tab stmt))) (queue_of (snd (exec oc tab stmt)))"
proof -
  obtain res tab' where e: "exec oc tab stmt = (res, tab')" by (rule prod.exhaust)
  show ?thesis unfolding e fst_conv snd_conv
    by (rule exec_result [OF e]) (use assms in \<open>auto simp: implements_def\<close>)
qed

section \<open>Each call\<close>

lemma stuck_expired: "stuck now (timeout_of d) r \<longleftrightarrow> expired now d (item_of r)"
  by (cases "ob_processing_started_at r")
     (auto simp: stuck_def expired_def item_of_def lease_def timeout_of_def interval_of_def)

lemma expired_ids:
  "outbox_ok tab \<Longrightarrow> {i. \<exists>it. queue_of tab i = Some it \<and> expired now d it} =
     ob_id ` set (filter (stuck now (timeout_of d)) tab)"
  by (auto simp: queue_of_Some stuck_expired)

lemma card_ids:
  assumes "distinct (map ob_id rs)"
  shows "card (ob_id ` set rs) = length rs"
  using distinct_card [OF assms] by simp

lemma ResetStuck_implements:
  assumes "outbox_ok tab"
  shows "queue_step stored now (CallReset d) (queue_of tab)
    (Released (int (length (filter (stuck now (timeout_of d)) tab))))
    (queue_of (sql_update (stuck now (timeout_of d)) (reset_row now) tab))"
proof -
  have "queue_of (sql_update (stuck now (timeout_of d)) (reset_row now) tab) =
      (\<lambda>i. map_option (\<lambda>it. if expired now d it then it\<lparr>it_status := Pending, it_ready := now, it_since := None\<rparr> else it)
        (queue_of tab i))"
    by (rule queue_of_update) (simp_all add: reset.upd_id stuck_expired, simp add: item_of_def reset_row_def)
  moreover have "card {i. \<exists>it. queue_of tab i = Some it \<and> expired now d it} = length (filter (stuck now (timeout_of d)) tab)"
    unfolding expired_ids [OF assms] by (rule card_ids, rule distinct_map_filter) (use assms in \<open>simp add: outbox_ok_def\<close>)
  ultimately show ?thesis by (simp only: release)
qed

lemma available_iff:
  assumes "outbox_ok tab" and "r \<in> set tab"
  shows "ob_id r \<in> available now locked (queue_of tab) \<longleftrightarrow> due now r \<and> \<not> locked (ob_id r)"
  by (auto simp: available_def queue_of_row [OF assms] due_def item_of_def)

lemma available_row:
  assumes "outbox_ok tab" and "i \<in> available now locked (queue_of tab)"
  obtains r where "r \<in> set tab" "ob_id r = i" "due now r" "\<not> locked i"
  using assms by (auto simp: available_def queue_of_Some due_def item_of_def)

lemma ClaimPending_implements:
  fixes now :: time and locked :: "int \<Rightarrow> bool" and n :: int
  assumes pg: "postgres_ok pg" and ok: "outbox_ok tab"
  defines "cs \<equiv> chosen pg now locked (batch_of n) tab"
  shows "queue_step stored now (CallClaim locked n) (queue_of tab) (Handed (ob_id ` set cs))
    (queue_of (sql_update (\<lambda>r. ob_id r \<in> ob_id ` set cs) (claim_row now) tab))"
proof -
  let ?q = "queue_of tab" and ?S = "ob_id ` set cs" and ?A = "available now locked (queue_of tab)"
  have q': "queue_of (sql_update (\<lambda>r. ob_id r \<in> ?S) (claim_row now) tab) =
      (\<lambda>i. map_option (\<lambda>it. if i \<in> ?S then it\<lparr>it_status := Processing, it_since := Some now, it_attempts := it_attempts it + 1\<rparr>
         else it) (?q i))"
    by (rule queue_of_update) (simp_all add: claim.upd_id, simp add: item_of_def claim_row_def)
  have sub: "?S \<subseteq> ?A"
  proof
    fix i
    assume "i \<in> ?S"
    then obtain r where r: "r \<in> set (chosen pg now locked (batch_of n) tab)" "ob_id r = i" by (auto simp: cs_def)
    with available_iff [OF ok chosen_due(1) [OF pg r(1)]] chosen_due(2,3) [OF pg r(1)] show "i \<in> ?A" by blast
  qed
  have card: "card ?S = length cs"
    unfolding cs_def by (rule card_ids) (rule distinct_chosen [OF pg ok])
  have left: "length cs = batch_of n \<and> (\<forall>c\<in>set cs. ob_created_at c \<le> ob_created_at r)"
    if r: "r \<in> set tab" "due now r" "\<not> locked (ob_id r)" "ob_id r \<notin> ?S" for r
  proof -
    have out: "r \<notin> set (chosen pg now locked (batch_of n) tab)" using r(4) by (auto simp: cs_def)
    show ?thesis
      using not_chosen [where locked = locked, OF pg r(1-3) out] by (auto simp: cs_def)
  qed
  have full: "?S = ?A \<or> card ?S = batch_of n"
  proof (cases "?A \<subseteq> ?S")
    case False
    then obtain i where "i \<in> ?A" "i \<notin> ?S" by blast
    then show ?thesis using available_row [OF ok \<open>i \<in> ?A\<close>] left card by metis
  qed (use sub in blast)
  have "\<forall>i\<in>?S. \<forall>j\<in>?A - ?S. born ?q i \<le> born ?q j"
  proof (intro ballI)
    fix i j
    assume i: "i \<in> ?S" and j: "j \<in> ?A - ?S"
    from i obtain c where c: "c \<in> set cs" "ob_id c = i" by auto
    from j obtain r where r: "r \<in> set tab" "ob_id r = j" "due now r" "\<not> locked j" using available_row [OF ok] by blast
    have "ob_created_at c \<le> ob_created_at r" using left [of r] r j c(1) by auto
    moreover have "c \<in> set tab" using chosen_due(1) [OF pg] c(1) by (simp add: cs_def)
    ultimately show "born ?q i \<le> born ?q j"
      using queue_of_row [OF ok] r(1,2) c(2) by (auto simp: born_def item_of_def)
  qed
  moreover have "card ?S \<le> batch_of n" using card length_chosen by (simp add: cs_def)
  ultimately show ?thesis unfolding q' using sub full by (intro hand_out [OF refl]) (simp_all add: batch_of_def split: if_splits)
qed

lemma marks_implement:
  "queue_step stored now (CallSent oid) (queue_of tab) Accepted (queue_of (sql_update (\<lambda>r. ob_id r = oid) (sent_row now) tab))"
  "queue_step stored now (CallFailed oid t msg) (queue_of tab) Accepted
     (queue_of (sql_update (\<lambda>r. ob_id r = oid) (failed_row now (stored t) msg) tab))"
  "queue_step stored now (CallDead oid msg) (queue_of tab) Accepted (queue_of (sql_update (\<lambda>r. ob_id r = oid) (dead_row now msg) tab))"
proof -
  let ?to = "\<lambda>f. \<lambda>j. map_option (\<lambda>it. if j = oid then f it else it) (queue_of tab j)"
  have "queue_of (sql_update (\<lambda>r. ob_id r = oid) (sent_row now) tab) = ?to (\<lambda>it. it\<lparr>it_status := Sent, it_since := None\<rparr>)"
    "queue_of (sql_update (\<lambda>r. ob_id r = oid) (failed_row now (stored t) msg) tab) =
       ?to (\<lambda>it. it\<lparr>it_status := Pending, it_since := None, it_ready := stored t\<rparr>)"
    "queue_of (sql_update (\<lambda>r. ob_id r = oid) (dead_row now msg) tab) = ?to (\<lambda>it. it\<lparr>it_status := Failed, it_since := None\<rparr>)"
    by (rule queue_of_update; simp add: item_of_def row_defs)+
  then show "queue_step stored now (CallSent oid) (queue_of tab) Accepted (queue_of (sql_update (\<lambda>r. ob_id r = oid) (sent_row now) tab))"
    "queue_step stored now (CallFailed oid t msg) (queue_of tab) Accepted
       (queue_of (sql_update (\<lambda>r. ob_id r = oid) (failed_row now (stored t) msg) tab))"
    "queue_step stored now (CallDead oid msg) (queue_of tab) Accepted (queue_of (sql_update (\<lambda>r. ob_id r = oid) (dead_row now msg) tab))"
    by (auto intro: queue_step.intros)
qed

section \<open>Properties\<close>

text \<open>
  C23. The store is a queue with leases. A call that reports success has done exactly what the
  queue's operation does, to every item, and answers what it answers: \<open>ResetStuck\<close> ends
  exactly the leases older than the timeout and counts them; \<open>ClaimPending\<close> hands out the
  oldest available items, all of them or a full batch; the others act on the one item they are
  given. A call that reports an error has changed nothing, unless its answer was lost, in which
  case it may have done its work.
\<close>

theorem outbox_refines_spec:
  assumes "postgres_ok pg" and "outbox_ok tab"
  shows "case call_answer pg (oc, now, call) tab of
      Inr a \<Rightarrow> queue_step (timestamptz pg) now call (queue_of tab) a (queue_of (run_call pg (oc, now, call) tab))
    | Inl e \<Rightarrow> queue_of (run_call pg (oc, now, call) tab) = queue_of tab \<or> oc = Lost e \<and>
        (\<exists>a. queue_step (timestamptz pg) now call (queue_of tab) a (queue_of (run_call pg (oc, now, call) tab)))"
proof -
  let ?imp = "implements (timestamptz pg) oc now call (queue_of tab)"
  have "?imp (call_answer pg (oc, now, call) tab) (queue_of (run_call pg (oc, now, call) tab))"
  proof (cases call)
    case (CallReset d)
    then show ?thesis
      by (auto simp: ResetStuck_def Let_def intro!: implementsI ResetStuck_implements [OF assms(2)])
  next
    case (CallClaim locked n)
    show ?thesis unfolding CallClaim call_answer.simps run_call.simps ClaimPending_def Let_def
    proof (rule implementsI, goal_cases)
      case (1 es tab')
      then have c: "ClaimPending pg Success now locked n tab = (Inr es, tab')" by (simp add: ClaimPending_def Let_def)
      show ?case
        unfolding ClaimPending_Inr(1) [OF assms c] ClaimPending_IDs(2) [OF assms c] by (rule ClaimPending_implements [OF assms])
    qed
  qed (auto simp: MarkSent_def MarkFailed_def MarkDead_def intro!: implementsI marks_implement split: if_splits)
  then show ?thesis by (simp add: implements_def)
qed

text \<open>A claim of one item takes the oldest of the example table.\<close>

theorem outbox_refines_spec_witness:
  "\<exists>S. call_answer plain_postgres (Success, 60, CallClaim (\<lambda>_. False) 1) example_table = Inr (Handed S) \<and> card S \<le> 1 \<and>
     (\<forall>i\<in>S. \<forall>j\<in>available 60 (\<lambda>_. False) (queue_of example_table) - S.
        born (queue_of example_table) i \<le> born (queue_of example_table) j)"
proof -
  let ?call = "(Success, 60, CallClaim (\<lambda>_. False) 1)"
  have "\<forall>r\<in>set (chosen plain_postgres 60 (\<lambda>_. False) (batch_of 1) example_table). ob_attempts r < int4_max"
    using chosen_due(1) [OF plain_postgres_ok] by (fastforce simp: example_table_def example_row_def int4_max_def)
  then obtain evs tab' where "ClaimPending plain_postgres Success 60 (\<lambda>_. False) 1 example_table = (Inr evs, tab')"
    using ClaimPending_Success [OF plain_postgres_ok example_table_ok] by blast
  then have "call_answer plain_postgres ?call example_table = Inr (Handed (ID ` set evs))" by simp
  with outbox_refines_spec [OF plain_postgres_ok example_table_ok, of Success 60 "CallClaim (\<lambda>_. False) 1"]
  show ?thesis by (auto elim!: queue_stepE(2))
qed

end
