(* ===== verification/Spec2Isabelle.thy ===== *)
theory Spec2Isabelle
  imports Wiring Services Outbox_Spec
begin

text \<open>
  A verification of servicedesk-lite, a ticket desk of three Go services around one
  PostgreSQL database and one Kafka topic.

  \<^bold>\<open>The program.\<close> The ticket service (\<open>cmd/ticket-service\<close>, \<open>internal/ticket\<close>,
  \<open>internal/shared/httpx\<close>) takes tickets over HTTP and stores each of them together with an
  event in the table \<open>outbox\<close>, in one transaction. The outbox relay (\<open>cmd/outbox-relay\<close>,
  \<open>internal/outbox\<close>) polls that table, claims a batch with \<open>FOR UPDATE SKIP LOCKED\<close>,
  writes one message per event to Kafka and marks the row sent, to be retried, or dead. The
  notification service (\<open>cmd/notification-service\<close>, \<open>internal/notify\<close>) fetches the
  messages, records every event in \<open>processed_events\<close> and notifies once. Several copies of
  each may run; they meet in the database and in Kafka only.

  \<^bold>\<open>Ground.\<close>
  \<^item> \<open>Prelude\<close>: time, Go's errors, the three ways a call to the outside can end
    (\<open>outcome\<close>, \<open>exec\<close>), a Hoare logic for the state monad, SQL updates of tables.
  \<^item> \<open>Postgres\<close>: what the program relies on of the server, as a parameter \<open>pg\<close>
    (order of scans and of \<open>RETURNING\<close>, resolution of \<open>timestamptz\<close>, which texts, JSON
    and UUIDs it accepts), with \<open>postgres_ok\<close> the laws used of it.
  \<^item> \<open>Go_Strings\<close>, \<open>Go_Json\<close>, \<open>Go_Time\<close>: the parts of the Go library the
    sources use, down to the bytes: trimming, case folding, number and duration parsing,
    \<open>encoding/json\<close> in both directions, RFC 3339.
  \<^item> \<open>World\<close>: everything outside a process. A script gives the outcome of every call and
    every reading of the clock, and how often the writer of kafka-go repeats a message by itself
    (up to ten times, its default); database, topics, commits, notifications and metrics are
    its state. A theorem about all worlds is a theorem about all failures.

  \<^bold>\<open>Components.\<close>
  \<^item> \<open>Outbox_Store\<close> (\<open>internal/outbox/store.go\<close>): \<open>ResetStuck\<close>,
    \<open>ClaimPending\<close>, \<open>MarkSent\<close>, \<open>MarkFailed\<close>, \<open>MarkDead\<close>, \<open>LagSeconds\<close> on
    the list of rows. Invariant of the table, exactness and order of claims, disjointness,
    recovery after a crash. The locales \<open>row_update\<close> and \<open>row_transition\<close> carry what the five
    row updates share. \<open>Outbox_Spec\<close> is the abstract side: a queue whose items are handed out
    under leases; every call of the store is the queue's operation, with its answer.
  \<^item> \<open>Notify_Store\<close> (\<open>internal/notify/store.go\<close>), \<open>Database\<close> (the tables
    together, from \<open>migrations\<close>).
  \<^item> \<open>Env_Config\<close> (\<open>internal/shared/env\<close>, \<open>internal/shared/config\<close>),
    \<open>Events\<close> (\<open>internal/shared/events\<close>), \<open>Ticket_Model\<close>
    (\<open>internal/ticket/model.go\<close>, identifiers, request ids in contexts).
  \<^item> \<open>Ticket_Store\<close>: \<open>store.go\<close> and \<open>store_postgres.go\<close> of
    \<open>internal/ticket\<close>. The transaction of \<open>Create\<close> under every ending of its four
    round trips; the locale \<open>ticket_store\<close>, interpreted on both stores; where the two agree.
    \<open>Transactions\<close> takes \<open>Create\<close> apart into its statements, with any number of
    transactions open and the committed rows placed anywhere among the others.
  \<^item> \<open>Kafkax\<close> (\<open>internal/shared/kafkax\<close>): \<open>Produce\<close> with its reset and one retry,
    the consumer's calls.
  \<^item> \<open>Backoff\<close>, \<open>Outbox_Relay\<close> (\<open>cmd/outbox-relay/main.go\<close>): start, \<open>tick\<close>,
    \<open>publish_event\<close>, \<open>maybeDead\<close>, the loop. The locale \<open>relay_contract\<close> says what
    the single calls have to keep so that the whole loop keeps it; \<open>relay_invariant\<close>, for
    properties that do not look at the messages, is a sublocale of it. They are interpreted
    four times (sent rows are published, steps of the system, foreign tables untouched, order
    of the events).
  \<^item> \<open>Notification_Service\<close> (\<open>cmd/notification-service/main.go\<close>): \<open>handleMessage\<close>,
    the retry loop, the fetch loop, dead letters, idle detection.
  \<^item> \<open>Consumer_Laws\<close>: the same program as a whole. The locale \<open>consumer_contract\<close>
    carries a property of database and topics through its loops; from the start of a run to
    its end the statuses, ordered as a \<open>linorder\<close>, do not fall, though within a run a lost
    answer reopens an event (\<open>lost_done_reopens\<close>); a committed message is accounted for; what
    is given up is dead lettered; the reader is never lost (\<open>reader_never_lost\<close>).
  \<^item> \<open>Relay_Progress\<close>: with an outside that answers, \<open>k\<close> ticks empty a backlog of up to
    \<open>k\<close> batches.
  \<^item> \<open>Ticket_Handler\<close> (\<open>internal/ticket/handler.go\<close>, \<open>errors.go\<close>), \<open>Httpx\<close>
    (\<open>internal/shared/httpx\<close>): the handlers with the streaming decoder and the body
    limit, middlewares and router. \<open>Recorders\<close> looks below the response, at the calls on
    the \<open>http.ResponseWriter\<close>: the locales \<open>response_writer\<close> and \<open>recorder\<close>, the second a
    sublocale of the first so that the two recorders stack, show that the log and the metrics
    report the status that was sent.
  \<^item> \<open>Wiring\<close>: the three \<open>main\<close> functions, \<open>OpenPostgres\<close>, the logger, the
    probes of the workers, shutdown.

  \<^bold>\<open>Across components.\<close>
  \<^item> \<open>Json_Laws\<close>, \<open>Time_Laws\<close>, \<open>Event_Laws\<close>: what is written is read back; the
    envelope survives the wire.
  \<^item> \<open>System_Steps\<close>: all services at once, as a relation whose steps are single
    statements and writes, with overlapping transactions and crashes. Its invariant holds in
    every reachable state: each ticket has its one event, in no particular order. The programs
    of the relay and of the notification service are shown to make steps of it only (locales
    \<open>relay_contract\<close> and \<open>consumer_contract\<close>).
  \<^item> \<open>End_To_End\<close>: a created ticket is published and notified exactly once when the
    outside answers.
  \<^item> \<open>Services\<close>: the HTTP side of the system. A request through the router makes the steps
    of one transaction, and none unless it is an accepted POST; a \<open>history\<close> of requests, relay
    runs and consumer runs, one after the other, keeps the invariant and, with it, the order of
    creation; a ticket posted with 201 is notified exactly once.

  \<^bold>\<open>Bounds and fuel.\<close> The JSON parser runs on fuel of twice the length of its text, which is
  enough (\<open>json_parse_iff\<close>: any amount of fuel gives no further result). The retry loop of
  the notification service need not end; \<open>None\<close> says that its fuel ran out.
  \<open>retry_loop_terminates\<close> gives fuel that is enough, and \<open>poison_message_blocks\<close> shows
  a message for which none is. Everything else is structurally recursive or has a termination
  proof. Integers are unbounded where Go's cannot overflow here; \<open>attempts\<close> columns fail
  beyond four bytes, number parsing is bounded by 64 bits, and \<open>time.Sub\<close> saturates. The
  interval of \<open>ResetStuck\<close> is rounded exactly where Go formats a float64 (a microsecond at
  most), and the lag is kept in nanoseconds where Go divides to seconds.

  \<^bold>\<open>Not modelled.\<close> The text of log lines other than the notification itself; the Prometheus
  exposition page; signals, goroutines and the network inside \<open>net/http\<close> and kafka-go, of
  which only what a call returns is seen; connection pooling beyond its settings; isolation
  inside one SQL statement, which is one step. Tests, deployment files, scripts and down
  migrations hold no logic of the services.
\<close>

end
